(* ===== verification/Relay_Prelude.thy ===== *)
theory Relay_Prelude
  imports Main "HOL-Library.Word"
begin

unbundle bit_operations_syntax

text \<open>
  Shared vocabulary of the development: machine integers at their Rust widths, byte
  buffers, the fallible loop used for Rust code that can panic on an index, and the
  generic lemmas on bytes, lists and bits that the component theories use.
\<close>

section \<open>Types\<close>

type_synonym u8 = "8 word"
type_synonym u16 = "16 word"
type_synonym u32 = "32 word"
type_synonym u64 = "64 word"
type_synonym usize = "64 word"
type_synonym bytes = "8 word list"

text \<open>Facts that evaluate the encoders and decoders of the wire formats.\<close>

named_theorems wire_simps

section \<open>Machine integers\<close>

definition usize_max :: nat where
  "usize_max = 2 ^ 64 - 1"

text \<open>Rust's \<open>usize::saturating_add\<close>, on values that are below \<open>2 ^ 64\<close>.\<close>

definition saturating_add :: "nat \<Rightarrow> nat \<Rightarrow> nat" where
  "saturating_add a b = min (a + b) usize_max"

lemma saturating_add_exact: "a + b \<le> usize_max \<Longrightarrow> saturating_add a b = a + b"
  by (simp add: saturating_add_def)

lemma saturating_add_le_iff:
  "m < usize_max \<Longrightarrow> saturating_add a b \<le> m \<longleftrightarrow> a + b \<le> m"
  by (auto simp: saturating_add_def)

lemma or_push_bit_nat:
  fixes a b :: nat
  assumes "a < 2 ^ k"
  shows "a OR push_bit k b = a + 2 ^ k * b"
proof -
  have "\<not> bit a n \<or> \<not> bit (push_bit k b) n" for n
  proof (cases "n < k")
    case True
    then show ?thesis by (simp add: bit_push_bit_iff)
  next
    case False
    then have "a < 2 ^ n"
      using assms less_le_trans[OF assms power_increasing[of k n "2::nat"]] by simp
    then have "\<not> bit a n" by (simp add: bit_iff_odd)
    then show ?thesis by simp
  qed
  then have "a OR push_bit k b = a + push_bit k b"
    by (intro disjunctive_add [symmetric]) auto
  then show ?thesis by (simp add: push_bit_eq_mult)
qed

lemma unat_byte_lt: "unat (b :: u8) < 256"
  using unsigned_less[of b, where 'a=nat] by simp

lemma base256_digits:
  "(v :: nat) < 256 \<Longrightarrow> v mod 256 = v"
  "v < 65536 \<Longrightarrow> v mod 256 + 256 * (v div 256 mod 256) = v"
  "v < 16777216 \<Longrightarrow> v mod 256 + 256 * (v div 256 mod 256) + 65536 * (v div 65536 mod 256) = v"
  "v < 4294967296 \<Longrightarrow> v mod 256 + 256 * (v div 256 mod 256) + 65536 * (v div 65536 mod 256)
     + 16777216 * (v div 16777216 mod 256) = v"
  using mod_mult2_eq[of v 256 256] mod_mult2_eq[of v 65536 256] mod_mult2_eq[of v 16777216 256]
  by simp_all

section \<open>Byte lists\<close>

text \<open>Rust's \<open>starts_with\<close> on slices.\<close>

fun starts_with :: "'a list \<Rightarrow> 'a list \<Rightarrow> bool" where
  "starts_with xs [] = True"
| "starts_with [] (y # ys) = False"
| "starts_with (x # xs) (y # ys) = (x = y \<and> starts_with xs ys)"

lemma starts_with_iff: "starts_with xs ys \<longleftrightarrow> (\<exists>zs. xs = ys @ zs)"
  by (induction xs ys rule: starts_with.induct) auto

text \<open>\<open>to_be_bytes\<close> of a 64-bit integer.\<close>

definition be_bytes8 :: "u64 \<Rightarrow> bytes" where
  "be_bytes8 w = map (\<lambda>i. ucast (drop_bit (8 * (7 - i)) w)) [0..<8]"

lemma length_be_bytes8 [simp]: "length (be_bytes8 w) = 8"
  by (simp add: be_bytes8_def)

section \<open>Texts\<close>

text \<open>A text is the list of its code points; the literals of the source are ASCII strings.\<close>

type_synonym ustring = "nat list"

definition utext :: "string \<Rightarrow> ustring" where
  "utext s = map of_char s"

lemma utext_simps [simp]: "utext [] = []" "utext (c # s) = of_char c # utext s" "utext (s @ t) = utext s @ utext t"
  by (simp_all add: utext_def)

text \<open>The decimal rendering of a number, as \<open>to_string\<close> and \<open>format!\<close> give it.\<close>

fun decimal :: "nat \<Rightarrow> ustring" where
  "decimal n = (if n < 10 then [48 + n] else decimal (n div 10) @ [48 + n mod 10])"

declare decimal.simps [simp del]

lemma decimal_digits: "c \<in> set (decimal n) \<Longrightarrow> 48 \<le> c \<and> c \<le> 57"
proof (induction n rule: decimal.induct)
  case (1 n)
  then show ?case by (cases "n < 10") (auto simp: decimal.simps [of n])
qed

lemma decimal_length: "10 ^ k \<le> n \<Longrightarrow> n < 10 ^ Suc k \<Longrightarrow> length (decimal n) = Suc k"
proof (induction k arbitrary: n)
  case 0
  then show ?case by (simp add: decimal.simps [of n])
next
  case (Suc k)
  then have "\<not> n < 10"
    using less_le_trans [of n 10 "10 ^ Suc k"] by (simp add: not_less)
      (metis le_trans mult.right_neutral mult_le_mono2 one_le_numeral one_le_power)
  moreover have "10 ^ k \<le> n div 10" "n div 10 < 10 ^ Suc k"
    using Suc.prems by (simp_all add: less_mult_imp_div_less less_eq_div_iff_mult_less_eq mult.commute)
  ultimately show ?case using Suc.IH [of "n div 10"] by (simp add: decimal.simps [of n])
qed

definition show_nat :: "nat \<Rightarrow> string" where
  "show_nat n = map char_of (decimal n)"

lemma utext_show_nat: "utext (show_nat n) = decimal n"
proof -
  have "of_char (char_of c :: char) = c" if "c \<in> set (decimal n)" for c :: nat
    using decimal_digits [OF that] by simp
  then have "map (of_char \<circ> (char_of :: nat \<Rightarrow> char)) (decimal n) = map id (decimal n)"
    by (intro map_cong) auto
  then show ?thesis by (simp add: utext_def show_nat_def)
qed

text \<open>The number the digits stand for; so the rendering is injective.\<close>

definition digits_value :: "ustring \<Rightarrow> nat" where
  "digits_value s = foldl (\<lambda>n c. 10 * n + (c - 48)) 0 s"

lemma digits_value_decimal: "digits_value (decimal n) = n"
proof (induction n rule: decimal.induct)
  case (1 n)
  then show ?case
    by (cases "n < 10") (simp_all add: decimal.simps [of n] digits_value_def)
qed

lemma decimal_inject: "decimal m = decimal n \<longleftrightarrow> m = n"
  by (metis digits_value_decimal)

lemma show_nat_inject [simp]: "show_nat m = show_nat n \<longleftrightarrow> m = n"
  by (metis utext_show_nat decimal_inject)

section \<open>Loops that may panic\<close>

text \<open>
  A Rust \<open>for\<close> loop over a range whose body may panic: \<open>None\<close> is the panic, which ends
  the loop.
\<close>

fun for_each :: "('a \<Rightarrow> 's \<Rightarrow> 's option) \<Rightarrow> 'a list \<Rightarrow> 's \<Rightarrow> 's option" where
  "for_each f [] s = Some s"
| "for_each f (x # xs) s = (case f x s of None \<Rightarrow> None | Some s' \<Rightarrow> for_each f xs s')"

lemma for_each_append:
  "for_each f (xs @ ys) s = (case for_each f xs s of None \<Rightarrow> None | Some t \<Rightarrow> for_each f ys t)"
  by (induction xs arbitrary: s) (auto split: option.splits)

text \<open>A body that never panics under an invariant runs as a fold.\<close>

lemma for_each_fold:
  assumes "\<And>x s. x \<in> set xs \<Longrightarrow> I s \<Longrightarrow> f x s = Some (g x s)"
    and "\<And>x s. x \<in> set xs \<Longrightarrow> I s \<Longrightarrow> I (g x s)"
    and "I s"
  shows "for_each f xs s = Some (fold g xs s) \<and> I (fold g xs s)"
  using assms by (induction xs arbitrary: s) auto

text \<open>A counting loop under an invariant of the counter and the state.\<close>

lemma for_each_upt:
  assumes "\<And>i s. i < n \<Longrightarrow> I i s \<Longrightarrow> \<exists>s'. f i s = Some s' \<and> I (Suc i) s'"
    and "I 0 s"
  shows "\<exists>s'. for_each f [0..<n] s = Some s' \<and> I n s'"
  using assms
proof (induction n)
  case 0
  then show ?case by simp
next
  case (Suc n)
  then obtain t where t: "for_each f [0..<n] s = Some t" "I n t" by fastforce
  from Suc.prems(1) [OF _ t(2)] t(1) show ?case by (auto simp: for_each_append)
qed

lemma for_each_map: "for_each f (map g xs) = for_each (\<lambda>x. f (g x)) xs"
proof
  show "for_each f (map g xs) s = for_each (\<lambda>x. f (g x)) xs s" for s
    by (induction xs arbitrary: s) (auto split: option.splits)
qed

section \<open>Systems driven by events\<close>

text \<open>
  A component that reacts to one event after the other and keeps an invariant, and one that
  moreover refines a simpler one, event by event.
\<close>

locale event_system =
  fixes step :: "'e \<Rightarrow> 's \<Rightarrow> 's" and ok :: "'s \<Rightarrow> bool"
  assumes step_ok: "ok s \<Longrightarrow> ok (step e s)"
begin

lemma run_ok: "ok s \<Longrightarrow> ok (fold step es s)"
  by (induction es arbitrary: s) (simp_all add: step_ok)

end

locale event_refinement = event_system step ok
  for step :: "'e \<Rightarrow> 's \<Rightarrow> 's" and ok :: "'s \<Rightarrow> bool" +
  fixes astep :: "'e \<Rightarrow> 'a \<Rightarrow> 'a" and abs :: "'s \<Rightarrow> 'a"
  assumes step_abs: "ok s \<Longrightarrow> abs (step e s) = astep e (abs s)"
begin

lemma run_abs: "ok s \<Longrightarrow> abs (fold step es s) = fold astep es (abs s)"
  by (induction es arbitrary: s) (simp_all add: step_ok step_abs)

end

section \<open>Systems of interleaved steps\<close>

text \<open>
  The servers are step relations from one start state. A \<open>step_system\<close> has the reachable
  states as the least set with the start that the steps stay in; a \<open>safe_system\<close> has an
  invariant on top, which holds in every reachable state and along every run from one.
\<close>

locale step_system =
  fixes start :: 's and step :: "'s \<Rightarrow> 's \<Rightarrow> bool" and reach :: "'s \<Rightarrow> bool"
  assumes reach_start: "reach start"
    and reach_step: "reach s \<Longrightarrow> step s t \<Longrightarrow> reach t"
    and reach_least: "reach s \<Longrightarrow> P start \<Longrightarrow> (\<And>t u. reach t \<Longrightarrow> P t \<Longrightarrow> step t u \<Longrightarrow> P u) \<Longrightarrow> P s"
begin

lemma reach_run: "rtranclp step s t \<Longrightarrow> reach s \<Longrightarrow> reach t"
  by (induction rule: rtranclp_induct) (auto intro: reach_step)

lemma run_keeps:
  assumes "rtranclp step s t" "reach s" "P s" "\<And>t u. reach t \<Longrightarrow> P t \<Longrightarrow> step t u \<Longrightarrow> P u"
  shows "P t"
proof -
  from assms(1) have "reach t \<and> P t"
  proof (induction rule: rtranclp_induct)
    case base
    show ?case using assms(2,3) by simp
  next
    case (step t u)
    then show ?case using assms(4) reach_step by blast
  qed
  then show ?thesis by simp
qed

lemma reach_iff_run: "reach s \<longleftrightarrow> rtranclp step start s"
proof
  show "rtranclp step start s" if "reach s"
    using that by (rule reach_least) (auto intro: rtranclp.rtrancl_into_rtrancl)
qed (rule reach_run [OF _ reach_start])

end

locale safe_system = step_system start step reach
  for start :: 's and step :: "'s \<Rightarrow> 's \<Rightarrow> bool" and reach :: "'s \<Rightarrow> bool" +
  fixes safe :: "'s \<Rightarrow> bool"
  assumes safe_start: "safe start"
    and safe_step: "reach s \<Longrightarrow> safe s \<Longrightarrow> step s t \<Longrightarrow> safe t"
begin

lemma reach_safe: "reach s \<Longrightarrow> safe s"
  using reach_least [where P = safe] safe_start safe_step by blast

lemma run_safe: "rtranclp step s t \<Longrightarrow> reach s \<Longrightarrow> safe t"
  by (rule reach_safe [OF reach_run])

end

text \<open>A system whose reachable states are given as the runs from the start.\<close>

lemma run_least:
  assumes "rtranclp step start s" "P start"
    and "\<And>t u. rtranclp step start t \<Longrightarrow> P t \<Longrightarrow> step t u \<Longrightarrow> P u"
  shows "P s"
  using assms(1) by (induction rule: rtranclp_induct) (use assms(2,3) in blast)+

end
