(* ===== verification/Codec.thy ===== *)
theory Codec
  imports Relay_Prelude
begin

text \<open>
  The framing codec of \<open>crates/proto/src/codec.rs\<close>: the state machine \<open>RustDeskCodec\<close>,
  its decoder and its encoder over byte buffers. \<open>BytesMut\<close> is the list of the bytes it
  holds; \<open>reserve\<close> changes no byte and is left out. Then the lemmas: the header's
  arithmetic, what one decode does to a buffer that grows, and that the frames a
  connection yields do not depend on how the transport cuts the stream.
\<close>

section \<open>The codec\<close>

definition MAX_PACKET :: nat where
  "MAX_PACKET = 64 * 1024 * 1024"

datatype codec_state = Head | Body nat

record rust_desk_codec =
  state :: codec_state
  raw :: bool
  max_len :: nat

datatype io_error = InvalidData string

definition codec_new :: rust_desk_codec where
  "codec_new = \<lparr>state = Head, raw = False, max_len = MAX_PACKET\<rparr>"

definition set_raw :: "rust_desk_codec \<Rightarrow> rust_desk_codec" where
  "set_raw c = c\<lparr>raw := True\<rparr>"

definition head_len_of :: "u8 \<Rightarrow> nat" where
  "head_len_of b = unat ((b AND 3) + 1)"

text \<open>The header's value, read from the first \<open>h\<close> bytes, as a \<open>usize\<close>.\<close>

definition header_value :: "bytes \<Rightarrow> nat \<Rightarrow> usize" where
  "header_value src h =
     (let n = ucast (src ! 0) :: usize;
          n = (if 1 < h then n OR push_bit 8 (ucast (src ! 1)) else n);
          n = (if 2 < h then n OR push_bit 16 (ucast (src ! 2)) else n);
          n = (if 3 < h then n OR push_bit 24 (ucast (src ! 3)) else n)
      in drop_bit 2 n)"

definition oversize_error :: io_error where
  "oversize_error = InvalidData ''frame exceeds max packet length''"

function (sequential) decode ::
  "rust_desk_codec \<Rightarrow> bytes \<Rightarrow> (io_error + bytes option) \<times> rust_desk_codec \<times> bytes" where
  "decode c src =
     (if raw c then
        (if src = [] then (Inr None, c, src) else (Inr (Some src), c, []))
      else
        (case state c of
           Head \<Rightarrow>
             (if src = [] then (Inr None, c, src)
              else let h = head_len_of (src ! 0) in
                if length src < h then (Inr None, c, src)
                else let n = unat (header_value src h) in
                  if max_len c < n then (Inl oversize_error, c, src)
                  else decode (c\<lparr>state := Body n\<rparr>) (drop h src))
         | Body n \<Rightarrow>
             (if length src < n then (Inr None, c, src)
              else (Inr (Some (take n src)), c\<lparr>state := Head\<rparr>, drop n src))))"
  by pat_completeness auto
termination
  by (relation "measure (\<lambda>(c, src). case state c of Head \<Rightarrow> 1 | Body n \<Rightarrow> 0)") auto

declare decode.simps [simp del]

definition encode_head_len :: "nat \<Rightarrow> nat" where
  "encode_head_len n =
     (if n < 2 ^ 6 then 1 else if n < 2 ^ 14 then 2 else if n < 2 ^ 22 then 3 else 4)"

definition encode_header :: "nat \<Rightarrow> u32" where
  "encode_header n = push_bit 2 (word_of_nat n) OR (word_of_nat (encode_head_len n) - 1)"

definition encode :: "rust_desk_codec \<Rightarrow> bytes \<Rightarrow> bytes \<Rightarrow> (io_error + unit) \<times> bytes" where
  "encode c item dst =
     (if raw c then (Inr (), dst @ item)
      else let n = length item in
        if max_len c < n then (Inl oversize_error, dst)
        else (Inr (),
              dst @ map (\<lambda>i. ucast (drop_bit (i * 8) (encode_header n) AND 0xff))
                        [0..<encode_head_len n] @ item))"

section \<open>The header's arithmetic\<close>

lemma head_len_of_nat: "head_len_of b = unat b mod 4 + 1"
proof -
  have "b AND 3 = take_bit 2 b"
    by (simp add: take_bit_eq_mask mask_eq_exp_minus_1)
  then have m: "unat (b AND 3) = unat b mod 4"
    by (simp add: take_bit_eq_mod unat_mod)
  have "unat (b AND 3) + unat (1 :: u8) < 2 ^ LENGTH(8)"
    unfolding m by (simp add: less_Suc_eq_le trans_le_add1)
  then have "unat ((b AND 3) + 1) = unat (b AND 3) + 1"
    by (subst unat_add_lem [THEN iffD1]) auto
  with m show ?thesis by (simp add: head_len_of_def)
qed

lemma head_len_of_bounds: "1 \<le> head_len_of b" "head_len_of b \<le> 4"
  by (simp_all add: head_len_of_nat)

lemma unat_ucast_byte: "unat (ucast (b :: u8) :: usize) = unat b"
  by (simp add: unsigned_ucast_eq take_bit_nat_eq_self_iff less_trans[OF unat_byte_lt])

lemma unat_shifted_byte:
  assumes "k \<le> 32"
  shows "unat (push_bit k (ucast (b :: u8)) :: usize) = push_bit k (unat b)"
proof -
  have "2 ^ k * unat b < 2 ^ k * (2 ^ 8 :: nat)"
    by (simp add: unat_byte_lt)
  also have "\<dots> = 2 ^ (k + 8)"
    by (simp only: power_add)
  also have "\<dots> \<le> 2 ^ 64"
    using assms by (intro power_increasing) auto
  finally have "push_bit k (unat b) < 2 ^ 64"
    by (simp add: push_bit_eq_mult mult.commute)
  then show ?thesis
    by (simp only: unsigned_push_bit_eq unat_ucast_byte len_num0 len_num1 len_bit0
        take_bit_nat_eq_self_iff) simp
qed

lemma unat_or_shifted:
  fixes n :: usize
  assumes "unat n < 2 ^ k" "k \<le> 32"
  shows "unat (n OR push_bit k (ucast (b :: u8))) = unat n + 2 ^ k * unat b"
  using assms by (simp only: unsigned_or_eq unat_shifted_byte or_push_bit_nat)

lemma unat_drop_2: "unat (drop_bit 2 (n :: usize)) = unat n div 4"
  by (simp add: drop_bit_eq_div unat_div)

text \<open>The header's value in little-endian arithmetic, one equation per header length.\<close>

lemma header_parts:
  fixes b0 b1 b2 b3 :: u8
  defines "n1 \<equiv> ucast b0 OR push_bit 8 (ucast b1) :: usize"
  defines "n2 \<equiv> n1 OR push_bit 16 (ucast b2)"
  defines "n3 \<equiv> n2 OR push_bit 24 (ucast b3)"
  shows "unat n1 = unat b0 + 256 * unat b1"
    and "unat n2 = unat b0 + 256 * unat b1 + 65536 * unat b2"
    and "unat n3 = unat b0 + 256 * unat b1 + 65536 * unat b2 + 16777216 * unat b3"
proof -
  note lt = unat_byte_lt[of b0] unat_byte_lt[of b1] unat_byte_lt[of b2]
  show 1: "unat n1 = unat b0 + 256 * unat b1"
    using lt unat_or_shifted[of "ucast b0" 8 b1] by (simp add: n1_def unat_ucast_byte)
  have "unat n1 < 65536" using 1 lt by linarith
  then show 2: "unat n2 = unat b0 + 256 * unat b1 + 65536 * unat b2"
    using unat_or_shifted[of n1 16 b2] 1 by (simp add: n2_def)
  have "unat n2 < 16777216" using 2 lt by linarith
  then show "unat n3 = unat b0 + 256 * unat b1 + 65536 * unat b2 + 16777216 * unat b3"
    using unat_or_shifted[of n2 24 b3] 2 by (simp add: n3_def)
qed

lemma header_value_nat:
  "unat (header_value src 1) = unat (src ! 0) div 4"
  "unat (header_value src 2) = (unat (src ! 0) + 256 * unat (src ! 1)) div 4"
  "unat (header_value src 3) =
     (unat (src ! 0) + 256 * unat (src ! 1) + 65536 * unat (src ! 2)) div 4"
  "unat (header_value src 4) =
     (unat (src ! 0) + 256 * unat (src ! 1) + 65536 * unat (src ! 2)
      + 16777216 * unat (src ! 3)) div 4"
proof -
  have g: "\<not> (1::nat) < 1" "\<not> (2::nat) < 1" "\<not> (3::nat) < 1" "\<not> (2::nat) < 2" "\<not> (3::nat) < 2"
    "\<not> (3::nat) < 3" "(1::nat) < 2" "(1::nat) < 3" "(1::nat) < 4" "(2::nat) < 3" "(2::nat) < 4"
    "(3::nat) < 4"
    by simp_all
  show "unat (header_value src 1) = unat (src ! 0) div 4"
    and "unat (header_value src 2) = (unat (src ! 0) + 256 * unat (src ! 1)) div 4"
    and "unat (header_value src 3) =
      (unat (src ! 0) + 256 * unat (src ! 1) + 65536 * unat (src ! 2)) div 4"
    and "unat (header_value src 4) =
      (unat (src ! 0) + 256 * unat (src ! 1) + 65536 * unat (src ! 2)
       + 16777216 * unat (src ! 3)) div 4"
    unfolding header_value_def Let_def unat_drop_2
    by (simp_all only: g header_parts unat_ucast_byte if_True if_False)
qed

text \<open>The encoder's header as a number, and its bytes.\<close>

lemma encode_head_len_bounds: "1 \<le> encode_head_len n" "encode_head_len n \<le> 4"
  by (simp_all add: encode_head_len_def)

lemma unat_encode_header:
  assumes "n < 2 ^ 30"
  shows "unat (encode_header n) = 4 * n + (encode_head_len n - 1)"
proof -
  have h: "unat (word_of_nat (encode_head_len n) - 1 :: u32) = encode_head_len n - 1"
    by (simp add: encode_head_len_def)
  have "push_bit 2 n < 2 ^ 32" using assms by (simp add: push_bit_eq_mult)
  moreover have "unat (word_of_nat n :: u32) = n"
    using assms by (simp add: unat_of_nat take_bit_nat_eq_self_iff)
  ultimately have "unat (push_bit 2 (word_of_nat n :: u32)) = push_bit 2 n"
    by (simp only: unsigned_push_bit_eq len_num0 len_num1 len_bit0 take_bit_nat_eq_self_iff) simp
  then show ?thesis
    using encode_head_len_bounds[of n] or_push_bit_nat[of "encode_head_len n - 1" 2 n]
    by (simp only: encode_header_def unsigned_or_eq h) (simp add: or.commute)
qed

definition header_bytes :: "nat \<Rightarrow> bytes" where
  "header_bytes n =
     map (\<lambda>i. ucast (drop_bit (i * 8) (encode_header n) AND 0xff)) [0..<encode_head_len n]"

lemma length_header_bytes [simp]: "length (header_bytes n) = encode_head_len n"
  by (simp add: header_bytes_def)

lemma unat_low_byte: "unat (ucast (w AND 0xff :: u32) :: u8) = unat w mod 256"
proof -
  have "w AND 0xff = take_bit 8 w"
    by (simp add: take_bit_eq_mask mask_eq_exp_minus_1)
  then have "unat (w AND 0xff) = unat w mod 256"
    by (simp add: take_bit_eq_mod unat_mod)
  then show ?thesis
    by (simp add: unsigned_ucast_eq take_bit_eq_mod)
qed

lemma unat_drop_bit_u32: "unat (drop_bit k (w :: u32)) = unat w div 2 ^ k"
  by (metis drop_bit_eq_div unsigned_drop_bit_eq take_bit_of_nat unat_drop_bit_eq)

lemma header_byte:
  assumes "n < 2 ^ 30" "i < encode_head_len n"
  shows "unat (header_bytes n ! i)
    = (4 * n + (encode_head_len n - 1)) div 2 ^ (8 * i) mod 256"
  using assms by (simp add: header_bytes_def unat_low_byte unat_drop_bit_u32 unat_encode_header
      mult.commute)

lemma header_roundtrip:
  assumes "n \<le> MAX_PACKET"
  shows "head_len_of (header_bytes n ! 0) = encode_head_len n"
    and "unat (header_value (header_bytes n @ rest) (encode_head_len n)) = n"
proof -
  define k where "k = encode_head_len n - 1"
  define v where "v = 4 * n + k"
  have k: "k < 4" "encode_head_len n = Suc k"
    using encode_head_len_bounds[of n] by (simp_all add: k_def)
  have n: "n < 2 ^ 30" using assms by (simp add: MAX_PACKET_def)
  note b = header_byte[OF n, folded k_def, folded v_def]
  have b0: "unat (header_bytes n ! 0) = v mod 256"
    using b[of 0] encode_head_len_bounds[of n] by simp
  have "v mod 256 mod 4 = v mod 4" by (simp add: mod_mod_cancel)
  also have "\<dots> = k"
    using k by (simp add: v_def)
  finally show "head_len_of (header_bytes n ! 0) = encode_head_len n"
    using k by (simp add: head_len_of_nat b0)
  have nth: "(header_bytes n @ rest) ! i = header_bytes n ! i" if "i < encode_head_len n" for i
    using that by (simp add: nth_append)
  have v4: "v div 4 = n" using k by (simp add: v_def)
  have len: "n < 64 \<Longrightarrow> encode_head_len n = 1"
    "64 \<le> n \<Longrightarrow> n < 16384 \<Longrightarrow> encode_head_len n = 2"
    "16384 \<le> n \<Longrightarrow> n < 4194304 \<Longrightarrow> encode_head_len n = 3"
    "4194304 \<le> n \<Longrightarrow> encode_head_len n = 4"
    by (simp_all add: encode_head_len_def)
  have vb: "n < b \<Longrightarrow> v < 4 * b" for b
    using k by (simp add: v_def)
  consider "n < 64" | "64 \<le> n" "n < 16384" | "16384 \<le> n" "n < 4194304" | "4194304 \<le> n"
    by linarith
  then show "unat (header_value (header_bytes n @ rest) (encode_head_len n)) = n"
  proof cases
    case 1
    with vb[of 64] v4 show ?thesis
      by (simp add: len header_value_nat nth b base256_digits del: One_nat_def)
  next
    case 2
    with vb[of 16384] v4 base256_digits(2)[of v] show ?thesis
      by (simp add: len header_value_nat nth b del: One_nat_def)
  next
    case 3
    with vb[of 4194304] v4 base256_digits(3)[of v] show ?thesis
      by (simp add: len header_value_nat nth b del: One_nat_def)
  next
    case 4
    with vb[of "2 ^ 30"] n v4 base256_digits(4)[of v] show ?thesis
      by (simp add: len header_value_nat nth b del: One_nat_def)
  qed
qed

section \<open>What one decode does to a growing buffer\<close>

definition codec_wf :: "rust_desk_codec \<Rightarrow> bool" where
  "codec_wf c \<longleftrightarrow> max_len c = MAX_PACKET \<and> (\<forall>n. state c = Body n \<longrightarrow> n \<le> MAX_PACKET)"

lemma codec_wf_new [simp]: "codec_wf codec_new"
  by (simp add: codec_wf_def codec_new_def)

lemma decode_raw:
  "raw c \<Longrightarrow> decode c src = (if src = [] then (Inr None, c, src) else (Inr (Some src), c, []))"
  by (simp add: decode.simps)

lemma decode_body:
  "\<not> raw c \<Longrightarrow> state c = Body n \<Longrightarrow> decode c src =
     (if length src < n then (Inr None, c, src)
      else (Inr (Some (take n src)), c\<lparr>state := Head\<rparr>, drop n src))"
  by (simp add: decode.simps)

lemma decode_head:
  "\<not> raw c \<Longrightarrow> state c = Head \<Longrightarrow> decode c src =
     (if src = [] \<or> length src < head_len_of (src ! 0) then (Inr None, c, src)
      else let h = head_len_of (src ! 0); n = unat (header_value src h) in
          if max_len c < n then (Inl oversize_error, c, src)
          else if length src < h + n then (Inr None, c\<lparr>state := Body n\<rparr>, drop h src)
          else (Inr (Some (take n (drop h src))), c\<lparr>state := Head\<rparr>, drop (h + n) src))"
  by (subst decode.simps) (auto simp: Let_def decode_body add.commute)

text \<open>A header read from a buffer is not changed by bytes that arrive later.\<close>

lemma header_value_append:
  "1 \<le> h \<Longrightarrow> h \<le> 4 \<Longrightarrow> h \<le> length src \<Longrightarrow> header_value (src @ x) h = header_value src h"
  by (auto simp: header_value_def nth_append Let_def)

lemma decode_append_some:
  assumes "\<not> raw c" "decode c src = (Inr (Some f), c', src')"
  shows "decode c (src @ x) = (Inr (Some f), c', src' @ x)"
proof (cases "state c")
  case (Body n)
  with assms show ?thesis by (auto simp: decode_body split: if_splits)
next
  case Head
  show ?thesis
    using assms head_len_of_bounds[of "src ! 0"]
    by (auto simp: decode_head [OF assms(1) Head] decode_body Let_def nth_append
        header_value_append split: if_splits)
qed

lemma decode_append_none:
  assumes "\<not> raw c" "decode c src = (Inr None, c', src')"
  shows "decode c (src @ x) = decode c' (src' @ x)"
proof (cases "state c")
  case (Body n)
  with assms show ?thesis by (auto simp: decode_body split: if_splits)
next
  case Head
  let ?h = "head_len_of (src ! 0)"
  let ?n = "unat (header_value src ?h)"
  show ?thesis
  proof (cases "src = [] \<or> length src < ?h")
    case True
    with assms(2) show ?thesis by (simp add: decode_head [OF assms(1) Head])
  next
    case False
    then have le: "\<not> max_len c < ?n" "length src < ?h + ?n"
      and eqs: "c' = c\<lparr>state := Body ?n\<rparr>" "src' = drop ?h src"
      using assms(2) by (auto simp: decode_head [OF assms(1) Head] Let_def split: if_splits)
    have "header_value (src @ x) ?h = header_value src ?h"
      using False head_len_of_bounds[of "src ! 0"] by (simp add: header_value_append)
    moreover have "(src @ x) ! 0 = src ! 0" using False by (simp add: nth_append)
    ultimately show ?thesis
      using False le assms(1)
      by (simp add: decode_head [OF assms(1) Head] decode_body eqs Let_def add.commute Head) auto
  qed
qed

lemma decode_append_error:
  assumes "\<not> raw c" "decode c src = (Inl e, c', src')"
  shows "decode c (src @ x) = (Inl e, c', src' @ x)"
proof (cases "state c")
  case (Body n)
  with assms show ?thesis by (auto simp: decode_body split: if_splits)
next
  case Head
  show ?thesis
    using assms head_len_of_bounds[of "src ! 0"]
    by (auto simp: decode_head [OF assms(1) Head] decode_body Let_def nth_append
        header_value_append split: if_splits)
qed

lemma decode_not_raw:
  assumes "\<not> raw c" "decode c src = (r, c', src')"
  shows "\<not> raw c'"
  using assms
  by (cases "state c") (auto simp: decode_head decode_body Let_def split: if_splits)

text \<open>Each frame uses up a part of the buffer, or the header that announced it.\<close>

definition backlog :: "rust_desk_codec \<Rightarrow> bytes \<Rightarrow> nat" where
  "backlog c src = 2 * length src + (case state c of Head \<Rightarrow> 0 | Body n \<Rightarrow> 1)"

lemma decode_progress:
  assumes "decode c src = (Inr (Some f), c', src')"
  shows "backlog c' src' < backlog c src"
proof (cases "raw c")
  case True
  with assms show ?thesis by (auto simp: decode_raw backlog_def split: if_splits)
next
  case False
  show ?thesis
  proof (cases "state c")
    case (Body n)
    with False assms show ?thesis by (auto simp: decode_body backlog_def split: if_splits)
  next
    case Head
    then show ?thesis
      using False assms head_len_of_bounds[of "src ! 0"]
      by (auto simp: decode_head [OF False Head] decode_body Let_def backlog_def split: if_splits)
  qed
qed

section \<open>A connection: the frames of a stream cut into chunks\<close>

text \<open>
  \<open>drain\<close> calls the decoder until it asks for more bytes or fails, as a framed transport
  does after each read; \<open>feed\<close> is a connection that reads the chunks one by one.
\<close>

function (sequential) drain ::
  "rust_desk_codec \<Rightarrow> bytes \<Rightarrow> bytes list \<times> io_error option \<times> rust_desk_codec \<times> bytes" where
  "drain c src =
     (case decode c src of
        (Inr (Some f), c', src') \<Rightarrow>
          (case drain c' src' of (fs, e, c'', src'') \<Rightarrow> (f # fs, e, c'', src''))
      | (Inr None, c', src') \<Rightarrow> ([], None, c', src')
      | (Inl e, c', src') \<Rightarrow> ([], Some e, c', src'))"
  by pat_completeness auto
termination
  by (relation "measure (\<lambda>(c, src). backlog c src)") (auto intro: decode_progress dest: sym)

declare drain.simps [simp del]

fun feed ::
  "rust_desk_codec \<Rightarrow> bytes \<Rightarrow> bytes list \<Rightarrow> bytes list \<times> io_error option \<times> rust_desk_codec \<times> bytes"
where
  "feed c buf [] = ([], None, c, buf)"
| "feed c buf (chunk # chunks) =
     (case drain c (buf @ chunk) of
        (fs, Some e, c', buf') \<Rightarrow> (fs, Some e, c', buf')
      | (fs, None, c', buf') \<Rightarrow>
          (case feed c' buf' chunks of (gs, e, c'', buf'') \<Rightarrow> (fs @ gs, e, c'', buf'')))"

lemma drain_cases:
  "decode c src = (Inr None, c', src') \<Longrightarrow> drain c src = ([], None, c', src')"
  "decode c src = (Inl e, c', src') \<Longrightarrow> drain c src = ([], Some e, c', src')"
  "decode c src = (Inr (Some f), c', src') \<Longrightarrow> drain c' src' = (fs, r, c'', src'') \<Longrightarrow>
     drain c src = (f # fs, r, c'', src'')"
  by (simp_all add: drain.simps [of c src])

lemma drain_append:
  assumes "\<not> raw c" "drain c src = (fs, None, c', src')" "drain c' (src' @ x) = (gs, r, c'', src'')"
  shows "drain c (src @ x) = (fs @ gs, r, c'', src'')"
  using assms
proof (induction c src arbitrary: fs rule: drain.induct)
  case (1 c src)
  obtain d c1 src1 where d: "decode c src = (d, c1, src1)" by (cases "decode c src")
  show ?case
  proof (cases d)
    case (Inl e)
    with "1.prems"(2) d show ?thesis by (simp add: drain.simps [of c src])
  next
    case (Inr o')
    show ?thesis
    proof (cases o')
      case None
      with "1.prems" d Inr have "c' = c1" "src' = src1" "fs = []"
        by (simp_all add: drain.simps [of c src])
      moreover have "decode c (src @ x) = decode c1 (src1 @ x)"
        using decode_append_none "1.prems"(1) d Inr None by simp
      ultimately show ?thesis
        using "1.prems"(3) by (simp add: drain.simps [of c "src @ x"] drain.simps [of c1 "src1 @ x"])
    next
      case (Some f)
      obtain fs1 r1 c2 src2 where r1: "drain c1 src1 = (fs1, r1, c2, src2)"
        by (cases "drain c1 src1")
      with "1.prems"(2) d Inr Some have eqs: "fs = f # fs1" "r1 = None" "c2 = c'" "src2 = src'"
        by (auto simp: drain.simps [of c src])
      have "drain c1 (src1 @ x) = (fs1 @ gs, r, c'', src'')"
        using "1.IH" d Inr Some r1 eqs "1.prems" decode_not_raw by auto
      moreover have "decode c (src @ x) = (Inr (Some f), c1, src1 @ x)"
        using decode_append_some "1.prems"(1) d Inr Some by simp
      ultimately show ?thesis by (simp add: drain_cases eqs)
    qed
  qed
qed

lemma drain_append_error:
  assumes "\<not> raw c" "drain c src = (fs, Some e, c', src')"
  shows "drain c (src @ x) = (fs, Some e, c', src' @ x)"
  using assms
proof (induction c src arbitrary: fs rule: drain.induct)
  case (1 c src)
  obtain d c1 src1 where d: "decode c src = (d, c1, src1)" by (cases "decode c src")
  show ?case
  proof (cases d)
    case (Inl e')
    with "1.prems" d show ?thesis
      using decode_append_error [of c src e' c1 src1 x]
      by (auto simp: drain.simps [of c src] drain.simps [of c "src @ x"])
  next
    case (Inr o')
    with "1.prems" d obtain f where Some: "o' = Some f"
      by (cases o') (auto simp: drain.simps [of c src])
    obtain fs1 r1 c2 src2 where r1: "drain c1 src1 = (fs1, r1, c2, src2)"
      by (cases "drain c1 src1")
    with "1.prems"(2) d Inr Some have eqs: "fs = f # fs1" "r1 = Some e" "c2 = c'" "src2 = src'"
      by (auto simp: drain.simps [of c src])
    have "drain c1 (src1 @ x) = (fs1, Some e, c', src' @ x)"
      using "1.IH" d Inr Some r1 eqs "1.prems" decode_not_raw by auto
    moreover have "decode c (src @ x) = (Inr (Some f), c1, src1 @ x)"
      using decode_append_some "1.prems"(1) d Inr Some by simp
    ultimately show ?thesis by (simp add: drain_cases eqs)
  qed
qed

text \<open>After a drain that met no error the decoder has nothing more to say about its buffer.\<close>

definition settled :: "rust_desk_codec \<Rightarrow> bytes \<Rightarrow> bool" where
  "settled c buf \<longleftrightarrow> \<not> raw c \<and> decode c buf = (Inr None, c, buf)"

lemma settled_new: "settled codec_new []"
  by (simp add: settled_def codec_new_def decode_head)

lemma decode_none_settled:
  assumes "\<not> raw c" "decode c src = (Inr None, c', src')"
  shows "settled c' src'"
  using assms decode_append_none [of c src c' src' "[]"] decode_not_raw [OF assms]
  by (simp add: settled_def)

lemma drain_settled:
  "\<not> raw c \<Longrightarrow> drain c src = (fs, None, c', src') \<Longrightarrow> settled c' src'"
proof (induction c src arbitrary: fs rule: drain.induct)
  case (1 c src)
  obtain d c1 src1 where d: "decode c src = (d, c1, src1)" by (cases "decode c src")
  show ?case
  proof (cases "\<exists>f. d = Inr (Some f)")
    case True
    then obtain f where f: "d = Inr (Some f)" by auto
    obtain fs1 r1 c2 src2 where r1: "drain c1 src1 = (fs1, r1, c2, src2)"
      by (cases "drain c1 src1")
    with "1.prems"(2) d f have "drain c1 src1 = (fs1, None, c', src')"
      by (auto simp: drain.simps [of c src])
    then show ?thesis
      using "1.IH" d f "1.prems"(1) decode_not_raw by auto
  next
    case False
    with "1.prems" d show ?thesis
      using decode_none_settled [of c src c1 src1]
      by (auto simp: drain.simps [of c src] split: sum.splits option.splits)
  qed
qed

lemma feed_drain:
  assumes "settled c buf" "feed c buf chunks = (fs, e, c', buf')"
  shows "\<exists>buf''. drain c (buf @ concat chunks) = (fs, e, c', buf'') \<and> (e = None \<longrightarrow> buf'' = buf')"
  using assms
proof (induction chunks arbitrary: c buf fs)
  case Nil
  then show ?case by (auto simp: settled_def drain_cases)
next
  case (Cons ch chs)
  obtain gs r c1 buf1 where r: "drain c (buf @ ch) = (gs, r, c1, buf1)"
    by (cases "drain c (buf @ ch)")
  have nr: "\<not> raw c" using Cons.prems(1) by (simp add: settled_def)
  show ?case
  proof (cases r)
    case (Some err)
    with r Cons.prems(2) have "fs = gs" "e = Some err" "c' = c1" by auto
    then show ?thesis
      using drain_append_error [OF nr r [unfolded Some], of "concat chs"] by simp
  next
    case None
    obtain hs r2 c2 buf2 where r2: "feed c1 buf1 chs = (hs, r2, c2, buf2)"
      by (cases "feed c1 buf1 chs")
    with r None Cons.prems(2) have eqs: "fs = gs @ hs" "e = r2" "c' = c2" "buf' = buf2" by auto
    have "settled c1 buf1" using drain_settled [OF nr] r None by simp
    then obtain b where b: "drain c1 (buf1 @ concat chs) = (hs, r2, c2, b)"
      "r2 = None \<longrightarrow> b = buf2"
      using Cons.IH [of c1 buf1 hs] r2 eqs by auto
    then show ?thesis
      using drain_append [OF nr r [unfolded None]] eqs by fastforce
  qed
qed

section \<open>Encoding, then decoding\<close>

lemma encode_eq:
  "encode c item dst =
     (if raw c then (Inr (), dst @ item)
      else if max_len c < length item then (Inl oversize_error, dst)
      else (Inr (), dst @ header_bytes (length item) @ item))"
  by (simp add: encode_def header_bytes_def Let_def)

lemma decode_encoded:
  assumes "\<not> raw c" "state c = Head" "max_len c = MAX_PACKET" "length item \<le> MAX_PACKET"
  shows "decode c (header_bytes (length item) @ item @ rest) = (Inr (Some item), c, rest)"
proof -
  let ?hb = "header_bytes (length item)"
  let ?src = "?hb @ item @ rest"
  have len: "0 < encode_head_len (length item)"
    using encode_head_len_bounds[of "length item"] by simp
  then have ne: "?hb \<noteq> []" by (metis length_header_bytes length_greater_0_conv)
  have 0: "?src ! 0 = ?hb ! 0" using len by (simp add: nth_append)
  have h1: "head_len_of (?src ! 0) = encode_head_len (length item)"
    unfolding 0 by (rule header_roundtrip(1) [OF assms(4)])
  have h2: "unat (header_value ?src (encode_head_len (length item))) = length item"
    by (rule header_roundtrip(2) [OF assms(4)])
  have "?src \<noteq> []" using ne by simp
  then show ?thesis
    using assms(2,3,4)
    unfolding decode_head [OF assms(1,2)] h1 Let_def h2 by simp
qed

fun encode_all :: "rust_desk_codec \<Rightarrow> bytes list \<Rightarrow> bytes \<Rightarrow> (io_error + unit) \<times> bytes" where
  "encode_all c [] dst = (Inr (), dst)"
| "encode_all c (item # items) dst =
     (case encode c item dst of
        (Inl e, dst') \<Rightarrow> (Inl e, dst')
      | (Inr _, dst') \<Rightarrow> encode_all c items dst')"


lemma encode_all_eq:
  assumes "\<not> raw c" "max_len c = MAX_PACKET" "\<forall>item \<in> set items. length item \<le> MAX_PACKET"
  shows "encode_all c items dst =
    (Inr (), dst @ concat (map (\<lambda>item. header_bytes (length item) @ item) items))"
  using assms(3)
  by (induction items arbitrary: dst) (simp_all add: encode_eq assms(1,2) not_less [symmetric])

lemma drain_encoded:
  assumes "\<not> raw c" "state c = Head" "max_len c = MAX_PACKET"
    "\<forall>item \<in> set items. length item \<le> MAX_PACKET"
  shows "drain c (concat (map (\<lambda>item. header_bytes (length item) @ item) items))
    = (items, None, c, [])"
  using assms(4)
proof (induction items)
  case Nil
  show ?case using assms(1,2) by (simp add: drain_cases decode_head)
next
  case (Cons item items)
  then show ?case
    using decode_encoded [OF assms(1-3), of item] by (simp add: drain_cases)
qed

lemma feed_encoded:
  assumes "\<forall>item \<in> set items. length item \<le> MAX_PACKET"
    and "encode_all codec_new items [] = (Inr (), stream)" "concat chunks = stream"
  shows "feed codec_new [] chunks = (items, None, codec_new, [])"
proof -
  have c: "\<not> raw codec_new" "state codec_new = Head" "max_len codec_new = MAX_PACKET"
    by (simp_all add: codec_new_def)
  obtain fs e c' buf' where f: "feed codec_new [] chunks = (fs, e, c', buf')"
    by (cases "feed codec_new [] chunks")
  obtain b where "drain codec_new (concat chunks) = (fs, e, c', b)" "e = None \<longrightarrow> b = buf'"
    using feed_drain [OF settled_new f] by auto
  moreover have "drain codec_new (concat chunks) = (items, None, codec_new, [])"
    using drain_encoded [OF c assms(1)] encode_all_eq [OF c(1,3) assms(1)] assms(2,3) by simp
  ultimately show ?thesis using f by simp
qed

section \<open>Properties\<close>

text \<open>
  C1. Round trip over a connection. Whatever list of payloads of at most 64 MiB the encoder
  writes, and however the transport cuts the resulting bytes into chunks, the decoder yields
  exactly these payloads in order, reports no error and ends in its initial state with an
  empty buffer.
\<close>

theorem codec_stream_roundtrip:
  assumes "\<forall>item \<in> set items. length item \<le> MAX_PACKET"
    and "encode_all codec_new items [] = (Inr (), stream)"
    and "concat chunks = stream"
  shows "feed codec_new [] chunks = (items, None, codec_new, [])"
  using assms by (rule feed_encoded)

theorem codec_stream_roundtrip_witness:
  "feed codec_new [] [[0x14, 104], [101, 108, 108, 111, 4], [7]]
     = ([[104, 101, 108, 108, 111], [7]], None, codec_new, [])"
proof (rule codec_stream_roundtrip)
  show "\<forall>item \<in> set [[104, 101, 108, 108, 111], [7 :: u8]]. length item \<le> MAX_PACKET"
    by (simp add: MAX_PACKET_def)
  show "encode_all codec_new [[104, 101, 108, 108, 111], [7]] []
    = (Inr (), [0x14, 104, 101, 108, 108, 111, 4, 7])"
    by (simp add: encode_def codec_new_def MAX_PACKET_def encode_header_def encode_head_len_def)
  show "concat [[0x14, 104], [101, 108, 108, 111, 4], [7]]
    = [0x14, 104, 101, 108, 108, 111, 4, 7 :: u8]"
    by simp
qed

text \<open>
  C3. Chunking is invisible, for any bytes and not only for what the encoder writes: two ways
  of cutting the same byte stream give the same frames and the same outcome (no error, or the
  same error after the same frames).
\<close>

theorem codec_chunking_invisible:
  assumes "concat chunks = concat chunks'"
    and "feed codec_new [] chunks = (fs, e, c, buf)"
    and "feed codec_new [] chunks' = (fs', e', c', buf')"
  shows "fs = fs' \<and> e = e' \<and> c = c' \<and> (e = None \<longrightarrow> buf = buf')"
  using feed_drain [OF settled_new assms(2)] feed_drain [OF settled_new assms(3)] assms(1) by auto

theorem codec_chunking_invisible_witness:
  "fst (feed codec_new [] [[4, 9]]) = fst (feed codec_new [] [[4], [], [9]])"
proof -
  obtain fs e c buf where a: "feed codec_new [] [[4, 9]] = (fs, e, c, buf)"
    by (cases "feed codec_new [] [[4, 9]]")
  obtain fs' e' c' buf' where b: "feed codec_new [] [[4], [], [9]] = (fs', e', c', buf')"
    by (cases "feed codec_new [] [[4], [], [9]]")
  have "concat [[4, 9]] = concat [[4], [], [9 :: u8]]" by simp
  from codec_chunking_invisible [OF this a b] a b show ?thesis by simp
qed

lemma decode_wf:
  assumes "codec_wf c" "decode c src = (r, c', src')"
  shows "codec_wf c'"
    and "\<not> raw c \<Longrightarrow> r = Inr (Some f) \<Longrightarrow> length f \<le> MAX_PACKET"
    and "r = Inl e \<Longrightarrow> c' = c \<and> src' = src \<and> e = oversize_error"
  using assms
  by (cases "raw c"; cases "state c";
      auto simp: decode_raw decode_head decode_body codec_wf_def Let_def split: if_splits)+

lemma drain_bound:
  assumes "codec_wf c" "\<not> raw c" "drain c src = (fs, e, c', src')"
  shows "codec_wf c' \<and> (\<forall>f \<in> set fs. length f \<le> MAX_PACKET)"
  using assms
proof (induction c src arbitrary: fs rule: drain.induct)
  case (1 c src)
  obtain d c1 src1 where d: "decode c src = (d, c1, src1)" by (cases "decode c src")
  note wf = decode_wf [OF "1.prems"(1) d] and nr = decode_not_raw [OF "1.prems"(2) d]
  show ?case
  proof (cases "\<exists>f. d = Inr (Some f)")
    case True
    then obtain f where f: "d = Inr (Some f)" by auto
    obtain fs1 r1 c2 src2 where r1: "drain c1 src1 = (fs1, r1, c2, src2)"
      by (cases "drain c1 src1")
    with "1.prems"(3) d f have "fs = f # fs1" "drain c1 src1 = (fs1, e, c', src')"
      by (auto simp: drain.simps [of c src])
    then show ?thesis
      using "1.IH" d f wf nr "1.prems"(2) by auto
  next
    case False
    with "1.prems" d wf show ?thesis
      by (auto simp: drain.simps [of c src] split: sum.splits option.splits)
  qed
qed

lemma drain_error:
  "codec_wf c \<Longrightarrow> drain c src = (fs, Some e, c', src') \<Longrightarrow> e = oversize_error"
proof (induction c src arbitrary: fs rule: drain.induct)
  case (1 c src)
  obtain d c1 src1 where d: "decode c src = (d, c1, src1)" by (cases "decode c src")
  obtain fs1 r1 c2 src2 where r1: "drain c1 src1 = (fs1, r1, c2, src2)"
    by (cases "drain c1 src1")
  show ?case
    using "1.prems" d r1 "1.IH" decode_wf [OF "1.prems"(1) d]
    by (auto simp: drain.simps [of c src] split: sum.splits option.splits)
qed

lemma settled_head:
  assumes "settled c buf" "state c = Head"
  shows "buf = [] \<or> length buf < head_len_of (buf ! 0)"
proof (rule ccontr)
  assume *: "\<not> ?thesis"
  have "\<not> raw c" "decode c buf = (Inr None, c, buf)" using assms(1) by (simp_all add: settled_def)
  with * decode_head [OF _ assms(2), of buf] have "c\<lparr>state := Body (unat (header_value buf (head_len_of (buf ! 0))))\<rparr> = c"
    by (auto simp: Let_def split: if_splits)
  from arg_cong [where f = state, OF this] assms(2) show False by simp
qed

text \<open>
  C4. The decoder is bounded on any input, hostile or not: every frame it hands up has at most
  64 MiB, a body it waits for has at most 64 MiB, and the only error it reports is the refusal of
  an oversize header. As long as it has met no error, what stays in its buffer once it has
  decoded all it can is short of what it waits for: of the header, which has at most four bytes, or
  of the body; so it is less than 64 MiB. After an error the connection is closed.
\<close>

theorem codec_decoder_bounded:
  assumes "feed codec_new [] chunks = (fs, e, c, buf)"
  shows "(\<forall>f \<in> set fs. length f \<le> MAX_PACKET)
    \<and> (e = None \<or> e = Some oversize_error)
    \<and> (state c = Head \<or> (\<exists>n \<le> MAX_PACKET. state c = Body n \<and> (e = None \<longrightarrow> length buf < n)))
    \<and> (e = None \<and> state c = Head \<longrightarrow> length buf \<le> 3 \<and> (buf = [] \<or> length buf < head_len_of (buf ! 0)))
    \<and> (e = None \<longrightarrow> length buf < MAX_PACKET)"
proof -
  obtain b where b: "drain codec_new (concat chunks) = (fs, e, c, b)" "e = None \<longrightarrow> b = buf"
    using feed_drain [OF settled_new assms] by auto
  have nr: "\<not> raw codec_new" by (simp add: codec_new_def)
  have wf: "codec_wf c" "\<forall>f \<in> set fs. length f \<le> MAX_PACKET"
    using drain_bound [OF codec_wf_new nr b(1)] by auto
  have "e = None \<or> e = Some oversize_error"
    using drain_error [OF codec_wf_new] b(1) by (cases e) auto
  moreover have "length buf < n" if "e = None" "state c = Body n" for n
  proof -
    have "settled c buf" using drain_settled [OF nr] b that(1) by auto
    then show ?thesis
      using that(2) decode_body [of c n buf] by (simp add: settled_def split: if_splits)
  qed
  moreover have head: "buf = [] \<or> length buf < head_len_of (buf ! 0)" if "e = None" "state c = Head"
  proof -
    have "settled c buf" using drain_settled [OF nr] b that(1) by auto
    then show ?thesis using that(2) by (rule settled_head)
  qed
  moreover have "length buf \<le> 3" if "e = None" "state c = Head"
    using head [OF that] head_len_of_bounds(2) [of "buf ! 0"] by auto
  ultimately show ?thesis
    using wf by (cases "state c") (auto simp: codec_wf_def MAX_PACKET_def)
qed

theorem codec_decoder_bounded_witness:
  "list_all (\<lambda>f. length f \<le> MAX_PACKET) (fst (feed codec_new [] [[0xff, 0xff, 0xff, 0xff, 1, 2]]))
   \<and> fst (snd (feed codec_new [] [[0xff, 0xff, 0xff, 0xff, 1, 2]])) \<in> {None, Some oversize_error}"
proof -
  obtain fs e c buf where a: "feed codec_new [] [[0xff, 0xff, 0xff, 0xff, 1, 2]] = (fs, e, c, buf)"
    by (cases "feed codec_new [] [[0xff, 0xff, 0xff, 0xff, 1, 2]]")
  from codec_decoder_bounded [OF a] a show ?thesis by (simp add: list_all_iff)
qed

lemma encode_head_len_minimal:
  assumes "1 \<le> h" "4 * n < 256 ^ h"
  shows "encode_head_len n \<le> h"
proof (rule ccontr)
  assume "\<not> encode_head_len n \<le> h"
  with assms(1) have "h = 1 \<or> h = 2 \<or> h = 3"
    using encode_head_len_bounds(2) [of n] by linarith
  with \<open>\<not> encode_head_len n \<le> h\<close> assms(2) show False
    by (auto simp: encode_head_len_def split: if_splits)
qed

text \<open>
  What the encoder does, on every branch. In framed mode a payload over 64 MiB is refused
  and the output buffer stays as it was; any other payload is appended behind a header of the
  least number of bytes that can hold its length and the two tag bits, so the overhead is one to
  four bytes. In raw mode the payload is appended as it is.
\<close>

theorem codec_encoder_spec:
  "(length item > MAX_PACKET \<longrightarrow> encode codec_new item dst = (Inl oversize_error, dst))
    \<and> (length item \<le> MAX_PACKET \<longrightarrow>
      (\<exists>hdr. encode codec_new item dst = (Inr (), dst @ hdr @ item)
        \<and> 1 \<le> length hdr \<and> length hdr \<le> 4
        \<and> (\<forall>h \<ge> 1. 4 * length item < 256 ^ h \<longrightarrow> length hdr \<le> h)))
    \<and> encode (set_raw c) item dst = (Inr (), dst @ item)"
proof (intro conjI impI)
  show "encode codec_new item dst = (Inl oversize_error, dst)" if "length item > MAX_PACKET"
    using that by (simp add: encode_eq codec_new_def)
  show "encode (set_raw c) item dst = (Inr (), dst @ item)"
    by (simp add: encode_eq set_raw_def)
  assume le: "length item \<le> MAX_PACKET"
  show "\<exists>hdr. encode codec_new item dst = (Inr (), dst @ hdr @ item)
        \<and> 1 \<le> length hdr \<and> length hdr \<le> 4
        \<and> (\<forall>h \<ge> 1. 4 * length item < 256 ^ h \<longrightarrow> length hdr \<le> h)"
    using le encode_head_len_bounds [of "length item"]
    by (intro exI [of _ "header_bytes (length item)"])
       (auto simp: encode_eq codec_new_def intro: encode_head_len_minimal)
qed

theorem codec_encoder_spec_witness:
  "\<exists>hdr. encode codec_new [1, 2, 3] [] = (Inr (), hdr @ [1, 2, 3]) \<and> length hdr \<le> 1"
proof -
  have "length [1, 2, 3 :: u8] \<le> MAX_PACKET" by (simp add: MAX_PACKET_def)
  with codec_encoder_spec [of "[1, 2, 3]" "[]" codec_new] obtain hdr where
    "encode codec_new [1, 2, 3] [] = (Inr (), [] @ hdr @ [1, 2, 3])"
    "\<forall>h \<ge> 1. 4 * length [1, 2, 3 :: u8] < 256 ^ h \<longrightarrow> length hdr \<le> h"
    by blast
  then show ?thesis by (intro exI [of _ hdr]) (auto dest: spec [of _ 1])
qed

end
