(* ===== verification/Messages.thy ===== *)
theory Messages
  imports Relay_Prelude
begin

text \<open>
  The messages of \<open>crates/proto/protos/rendezvous.proto\<close> as the generated Rust types have
  them: a record for each message the servers read or build, a positional datatype for each
  message they only name, the \<open>oneof\<close> as the datatype \<open>union\<close>, and the function \<open>tag\<close> of
  \<open>crates/rendezvous/src/server.rs\<close> that names a variant. An enum field is the \<open>i32\<close> the
  generated code stores. The protobuf wire encoding itself is generated code and a parameter
  of the servers' models.
\<close>

section \<open>Messages the rendezvous server reads or builds\<close>

record register_peer =
  rp_id :: string
  rp_serial :: int

record register_peer_response =
  rpr_request_pk :: bool

record register_pk =
  rk_id :: string
  rk_uuid :: bytes
  rk_pk :: bytes
  rk_old_id :: string
  rk_no_register_device :: bool

record register_pk_response =
  rkr_result :: int
  rkr_keep_alive :: int

record punch_hole_request =
  ph_id :: string
  ph_nat_type :: int
  ph_licence_key :: string
  ph_conn_type :: int
  ph_token :: string
  ph_version :: string
  ph_udp_port :: int
  ph_force_relay :: bool
  ph_upnp_port :: int
  ph_socket_addr_v6 :: bytes

record request_relay =
  rr_id :: string
  rr_uuid :: string
  rr_socket_addr :: bytes
  rr_relay_server :: string
  rr_secure :: bool
  rr_licence_key :: string
  rr_conn_type :: int
  rr_token :: string
  rr_control_permissions :: "u64 option"

datatype relay_response_union = RelayId string | RelayPk bytes

record relay_response =
  rs_socket_addr :: bytes
  rs_uuid :: string
  rs_relay_server :: string
  rs_union :: "relay_response_union option"
  rs_refuse_reason :: string
  rs_version :: string
  rs_feedback :: int
  rs_socket_addr_v6 :: bytes
  rs_upnp_port :: int

section \<open>Messages the server only names\<close>

datatype punch_hole = PunchHoleMsg bytes string int int bool int bytes "u64 option"

datatype punch_hole_sent = PunchHoleSentMsg bytes string string int string int bytes

datatype punch_hole_response_union = NatTypeIs int | IsLocal bool

datatype punch_hole_response =
  PunchHoleResponseMsg bytes bytes int string "punch_hole_response_union option" string int bool int bytes

datatype config_update = ConfigUpdateMsg int "string list"

datatype test_nat_response = TestNatResponseMsg int "config_update option"

datatype fetch_local_addr = FetchLocalAddrMsg bytes string bytes "u64 option"

datatype local_addr = LocalAddrMsg bytes bytes string string string bytes

datatype peer_discovery = PeerDiscoveryMsg string string string string string string string

datatype header_entry = HeaderEntry string string

datatype http_proxy_request = HttpProxyRequestMsg string string "header_entry list" bytes

datatype http_proxy_response = HttpProxyResponseMsg int "header_entry list" bytes string

section \<open>The \<open>oneof\<close>\<close>

datatype union =
    RegisterPeer register_peer
  | RegisterPeerResponse register_peer_response
  | PunchHoleRequest punch_hole_request
  | PunchHole punch_hole
  | PunchHoleSent punch_hole_sent
  | PunchHoleResponse punch_hole_response
  | FetchLocalAddr fetch_local_addr
  | LocalAddr local_addr
  | ConfigureUpdate config_update
  | RegisterPk register_pk
  | RegisterPkResponse register_pk_response
  | SoftwareUpdate string
  | RequestRelay request_relay
  | RelayResponse relay_response
  | TestNatRequest int
  | TestNatResponse test_nat_response
  | PeerDiscovery peer_discovery
  | OnlineRequest string "string list"
  | OnlineResponse bytes
  | KeyExchange "bytes list"
  | Hc string
  | HttpProxyRequest http_proxy_request
  | HttpProxyResponse http_proxy_response

record rendezvous_message =
  msg_union :: "union option"

definition rendezvous_message_default :: rendezvous_message where
  "rendezvous_message_default = \<lparr>msg_union = None\<rparr>"

definition request_relay_default :: request_relay where
  "request_relay_default = \<lparr>rr_id = [], rr_uuid = [], rr_socket_addr = [], rr_relay_server = [],
     rr_secure = False, rr_licence_key = [], rr_conn_type = 0, rr_token = [],
     rr_control_permissions = None\<rparr>"

definition relay_response_default :: relay_response where
  "relay_response_default = \<lparr>rs_socket_addr = [], rs_uuid = [], rs_relay_server = [],
     rs_union = None, rs_refuse_reason = [], rs_version = [], rs_feedback = 0,
     rs_socket_addr_v6 = [], rs_upnp_port = 0\<rparr>"

fun tag :: "union \<Rightarrow> string" where
  "tag (RegisterPeer _) = ''register_peer''"
| "tag (RegisterPeerResponse _) = ''register_peer_response''"
| "tag (PunchHoleRequest _) = ''punch_hole_request''"
| "tag (PunchHole _) = ''punch_hole''"
| "tag (PunchHoleSent _) = ''punch_hole_sent''"
| "tag (PunchHoleResponse _) = ''punch_hole_response''"
| "tag (FetchLocalAddr _) = ''fetch_local_addr''"
| "tag (LocalAddr _) = ''local_addr''"
| "tag (ConfigureUpdate _) = ''configure_update''"
| "tag (RegisterPk _) = ''register_pk''"
| "tag (RegisterPkResponse _) = ''register_pk_response''"
| "tag (SoftwareUpdate _) = ''software_update''"
| "tag (RequestRelay _) = ''request_relay''"
| "tag (RelayResponse _) = ''relay_response''"
| "tag (TestNatRequest _) = ''test_nat_request''"
| "tag (TestNatResponse _) = ''test_nat_response''"
| "tag (PeerDiscovery _) = ''peer_discovery''"
| "tag (OnlineRequest _ _) = ''online_request''"
| "tag (OnlineResponse _) = ''online_response''"
| "tag (KeyExchange _) = ''key_exchange''"
| "tag (Hc _) = ''hc''"
| "tag (HttpProxyRequest _) = ''http_proxy_request''"
| "tag (HttpProxyResponse _) = ''http_proxy_response''"

end
