(* ===== verification/Registry.thy ===== *)
theory Registry
  imports Messages
begin

text \<open>
  The peer registry of \<open>crates/rendezvous/src/registry.rs\<close>. The \<open>HashMap\<close> behind the
  \<open>RwLock\<close> is a map from ids to entries and each method is the function it computes while it
  holds the lock. An \<open>mpsc\<close> sender is the identity of its channel, which is what
  \<open>same_channel\<close> compares. The locale \<open>peer_directory\<close> is what the rendezvous server
  relies on; it is interpreted on the registry's own operations.
\<close>

section \<open>Entries\<close>

datatype socket_addr =
    SocketAddrV4 u32 u16
  | SocketAddrV6 "128 word" u16 u32 u32

type_synonym chan = nat

datatype reachable = Udp socket_addr | WsPush chan

record peer_entry =
  reach :: reachable
  last_seen :: nat

type_synonym registry = "string \<rightharpoonup> peer_entry"

section \<open>Operations\<close>

definition registry_new :: registry where
  "registry_new = Map.empty"

definition upsert :: "nat \<Rightarrow> string \<Rightarrow> reachable \<Rightarrow> registry \<Rightarrow> registry" where
  "upsert now i r m = m(i \<mapsto> \<lparr>reach = r, last_seen = now\<rparr>)"

definition registry_get :: "string \<Rightarrow> registry \<Rightarrow> reachable option" where
  "registry_get i m = map_option reach (m i)"

definition remove_if_ws :: "string \<Rightarrow> chan \<Rightarrow> registry \<Rightarrow> registry" where
  "remove_if_ws i sender m =
     (let drop_it = (case m i of
                       Some e \<Rightarrow> (case reach e of WsPush s \<Rightarrow> s = sender | Udp _ \<Rightarrow> False)
                     | None \<Rightarrow> False)
      in if drop_it then m(i := None) else m)"

section \<open>The interface the server relies on\<close>

text \<open>
  A directory maps ids to routes; a route may be owned by a channel. \<open>put\<close> replaces the
  route of one id; \<open>retire\<close> drops the route of one id if, and only if, the channel still
  owns it.
\<close>

datatype ('id, 'r, 'c) dir_op = Put nat 'id 'r | Retire 'id 'c

fun dir_run ::
  "(nat \<Rightarrow> 'id \<Rightarrow> 'r \<Rightarrow> 'm \<Rightarrow> 'm) \<Rightarrow> ('id \<Rightarrow> 'c \<Rightarrow> 'm \<Rightarrow> 'm) \<Rightarrow> ('id, 'r, 'c) dir_op list \<Rightarrow> 'm \<Rightarrow> 'm"
where
  "dir_run put retire [] m = m"
| "dir_run put retire (Put t i r # ops) m = dir_run put retire ops (put t i r m)"
| "dir_run put retire (Retire i c # ops) m = dir_run put retire ops (retire i c m)"

text \<open>The route an id ends up with, read off the history of operations alone.\<close>

fun route_after :: "('c \<Rightarrow> 'r) \<Rightarrow> 'id \<Rightarrow> ('id, 'r, 'c) dir_op list \<Rightarrow> 'r option \<Rightarrow> 'r option" where
  "route_after own i [] cur = cur"
| "route_after own i (Put t j r # ops) cur =
     route_after own i ops (if j = i then Some r else cur)"
| "route_after own i (Retire j c # ops) cur =
     route_after own i ops (if j = i \<and> cur = Some (own c) then None else cur)"

locale peer_directory =
  fixes put :: "nat \<Rightarrow> 'id \<Rightarrow> 'r \<Rightarrow> 'm \<Rightarrow> 'm"
    and look :: "'id \<Rightarrow> 'm \<Rightarrow> 'r option"
    and retire :: "'id \<Rightarrow> 'c \<Rightarrow> 'm \<Rightarrow> 'm"
    and own :: "'c \<Rightarrow> 'r"
  assumes look_put: "look i (put t j r m) = (if i = j then Some r else look i m)"
    and look_retire:
      "look i (retire j c m) = (if i = j \<and> look j m = Some (own c) then None else look i m)"
begin

lemma look_put_same [simp]: "look i (put t i r m) = Some r"
  by (simp add: look_put)

lemma retire_spares_takeover: "r \<noteq> own c \<Longrightarrow> look i (retire i c (put t i r m)) = Some r"
  by (simp add: look_put look_retire)

lemma retire_own: "look i (retire i c (put t i (own c) m)) = None"
  by (simp add: look_put look_retire)

lemma retired_not_owned: "look i (retire i c m) \<noteq> Some (own c)"
  by (simp add: look_retire)

lemma look_run: "look i (dir_run put retire ops m) = route_after own i ops (look i m)"
proof (induction ops arbitrary: m)
  case (Cons x ops)
  then show ?case by (cases x) (auto simp: look_put look_retire)
qed simp

end

interpretation reg: peer_directory upsert registry_get remove_if_ws WsPush
  by unfold_locales
    (auto simp: upsert_def registry_get_def remove_if_ws_def Let_def
      split: option.splits reachable.splits)

lemma registry_get_new [simp]: "registry_get i registry_new = None"
  by (simp add: registry_get_def registry_new_def)

lemmas registry_laws = reg.look_put reg.look_retire registry_get_new

text \<open>
  C5. The registry refines the history of its operations: after any sequence of registrations
  and disconnects, the route found for an id is the one the history determines (its last
  registration, unless that registration's own channel has since disconnected under that id).
\<close>

theorem registry_refines_history:
  "registry_get i (dir_run upsert remove_if_ws ops registry_new) = route_after WsPush i ops None"
  by (simp add: reg.look_run)

text \<open>
  A late disconnect never removes somebody else's registration: when an id has been taken
  over by another connection or a UDP client after channel \<open>old\<close> registered it, the cleanup
  of \<open>old\<close> leaves the new route in place, and the cleanup never leaves a route of \<open>old\<close>
  under that id.
\<close>

theorem registry_disconnect_safe:
  assumes "r \<noteq> WsPush old"
  shows "registry_get i (remove_if_ws i old (upsert t2 i r (upsert t1 i (WsPush old) m))) = Some r
    \<and> registry_get i (remove_if_ws i old m) \<noteq> Some (WsPush old)"
  using reg.retire_spares_takeover [OF assms] reg.retired_not_owned by blast

theorem registry_disconnect_safe_witness:
  "registry_get ''a'' (remove_if_ws ''a'' 1 (upsert 2 ''a'' (WsPush 7) (upsert 1 ''a'' (WsPush 1) registry_new)))
     = Some (WsPush 7)"
  by (rule registry_disconnect_safe [THEN conjunct1]) simp

end
