(* ===== verification/Rendezvous.thy ===== *)
theory Rendezvous
  imports Registry Codec
begin

text \<open>
  The handlers of \<open>crates/rendezvous/src/server.rs\<close> and the emitter of
  \<open>crates/rendezvous/src/audit.rs\<close>. A handler is a function of the shared state (registry and
  pending map) and of what the outside gives it; it returns the new state and the list of the
  actions it takes, in the order the code takes them. The parameters, bundled in \<open>env\<close>, are
  the generated protobuf codec, the rendering of a socket address, the JSON rendering of an
  event, and the configuration. \<open>keys().next()\<close> on a \<open>HashMap\<close> yields an arbitrary key: it is
  an argument, constrained by \<open>first_key\<close>.
\<close>

section \<open>The audit emitter\<close>

record event =
  ev_kind :: string
  ev_peer_id :: "string option"
  ev_controller_peer_id :: "string option"
  ev_addr :: "string option"
  ev_meta :: "(string \<times> string) list option"

record audit_inner =
  ai_url :: string
  ai_token :: string

type_synonym auditor = "audit_inner option"

definition auditor_new :: "string option \<Rightarrow> string option \<Rightarrow> auditor" where
  "auditor_new url token =
     (case (url, token) of
        (Some u, Some t) \<Rightarrow> Some \<lparr>ai_url = u, ai_token = t\<rparr>
      | _ \<Rightarrow> None)"

datatype action =
    Post string string string
  | SendUdp bytes socket_addr
  | Push chan rendezvous_message
  | WriteTcp bytes
  | WriteWs bytes
  | CloseWs

record env =
  relay_addr :: string
  show_addr :: "socket_addr \<Rightarrow> string"
  pb_encode :: "rendezvous_message \<Rightarrow> bytes option"
  pb_decode :: "bytes \<Rightarrow> rendezvous_message option"
  to_json :: "event \<Rightarrow> string option"
  env_auditor :: auditor

definition emit :: "env \<Rightarrow> event \<Rightarrow> action list" where
  "emit v ev =
     (case env_auditor v of
        None \<Rightarrow> []
      | Some inner \<Rightarrow>
          (case to_json v ev of
             None \<Rightarrow> []
           | Some body \<Rightarrow> [Post (ai_url inner) (ai_token inner) body]))"

definition audit_event ::
  "env \<Rightarrow> string \<Rightarrow> string option \<Rightarrow> socket_addr \<Rightarrow> string \<Rightarrow> action list" where
  "audit_event v kind pid addr transport =
     emit v \<lparr>ev_kind = kind, ev_peer_id = pid, ev_controller_peer_id = None,
             ev_addr = Some (show_addr v addr), ev_meta = Some [(''transport'', transport)]\<rparr>"

section \<open>Shared state and dispatch helpers\<close>

record server =
  peers :: registry
  pending :: "string \<rightharpoonup> chan"

definition server_new :: server where
  "server_new = \<lparr>peers = registry_new, pending = Map.empty\<rparr>"

definition send_udp :: "env \<Rightarrow> rendezvous_message \<Rightarrow> socket_addr \<Rightarrow> action list" where
  "send_udp v msg addr =
     (case pb_encode v msg of None \<Rightarrow> [] | Some buf \<Rightarrow> [SendUdp buf addr])"

definition request_relay_msg :: "env \<Rightarrow> rendezvous_message" where
  "request_relay_msg v =
     rendezvous_message_default\<lparr>msg_union :=
       Some (RequestRelay (request_relay_default\<lparr>rr_relay_server := relay_addr v\<rparr>))\<rparr>"

definition relay_response_msg :: "env \<Rightarrow> rendezvous_message" where
  "relay_response_msg v =
     rendezvous_message_default\<lparr>msg_union :=
       Some (RelayResponse (relay_response_default\<lparr>rs_relay_server := relay_addr v\<rparr>))\<rparr>"

definition register_peer_response_msg :: rendezvous_message where
  "register_peer_response_msg =
     rendezvous_message_default\<lparr>msg_union :=
       Some (RegisterPeerResponse \<lparr>rpr_request_pk = False\<rparr>)\<rparr>"

definition register_pk_response_msg :: rendezvous_message where
  "register_pk_response_msg =
     rendezvous_message_default\<lparr>msg_union :=
       Some (RegisterPkResponse \<lparr>rkr_result = 0, rkr_keep_alive = 0\<rparr>)\<rparr>"

text \<open>\<open>dispatch_punch\<close> in the three parts between which it can be suspended.\<close>

definition punch_lookup :: "string \<Rightarrow> server \<Rightarrow> reachable option" where
  "punch_lookup target s = registry_get target (peers s)"

definition punch_notify :: "env \<Rightarrow> reachable \<Rightarrow> action list" where
  "punch_notify v r =
     (case r of
        Udp addr \<Rightarrow> send_udp v (request_relay_msg v) addr
      | WsPush target_tx \<Rightarrow> [Push target_tx (request_relay_msg v)])"

definition punch_insert :: "string \<Rightarrow> chan \<Rightarrow> server \<Rightarrow> server" where
  "punch_insert target requester s = s\<lparr>pending := (pending s)(target \<mapsto> requester)\<rparr>"

definition dispatch_punch :: "env \<Rightarrow> string \<Rightarrow> chan \<Rightarrow> server \<Rightarrow> server \<times> action list" where
  "dispatch_punch v target requester s =
     (case punch_lookup target s of
        None \<Rightarrow> (s, [])
      | Some r \<Rightarrow> (punch_insert target requester s, punch_notify v r))"

definition first_key :: "('k \<rightharpoonup> 'a) \<Rightarrow> 'k option \<Rightarrow> bool" where
  "first_key m key \<longleftrightarrow> (case key of None \<Rightarrow> m = Map.empty | Some k \<Rightarrow> k \<in> dom m)"

definition dispatch_relay_ack :: "env \<Rightarrow> string option \<Rightarrow> server \<Rightarrow> server \<times> action list" where
  "dispatch_relay_ack v key s =
     (case key of
        None \<Rightarrow> (s, [])
      | Some k \<Rightarrow>
          (case pending s k of
             None \<Rightarrow> (s, [])
           | Some requester \<Rightarrow>
               (s\<lparr>pending := (pending s)(k := None)\<rparr>, [Push requester (relay_response_msg v)])))"

section \<open>UDP\<close>

datatype udp_recv = UdpRecvError | Datagram bytes socket_addr

definition udp_handle :: "env \<Rightarrow> nat \<Rightarrow> udp_recv \<Rightarrow> server \<Rightarrow> server \<times> action list" where
  "udp_handle v now r s =
     (case r of
        UdpRecvError \<Rightarrow> (s, [])
      | Datagram buf addr \<Rightarrow>
          (case pb_decode v buf of
             None \<Rightarrow> (s, [])
           | Some msg \<Rightarrow>
               (case msg_union msg of
                  Some (RegisterPeer rp) \<Rightarrow>
                    (s\<lparr>peers := upsert now (rp_id rp) (Udp addr) (peers s)\<rparr>,
                     audit_event v ''register'' (Some (rp_id rp)) addr ''udp''
                       @ send_udp v register_peer_response_msg addr)
                | Some (RegisterPk _) \<Rightarrow> (s, send_udp v register_pk_response_msg addr)
                | _ \<Rightarrow> (s, []))))"

fun udp_loop :: "env \<Rightarrow> (nat \<times> udp_recv) list \<Rightarrow> server \<Rightarrow> server \<times> action list" where
  "udp_loop v [] s = (s, [])"
| "udp_loop v ((now, r) # rs) s =
     (let (s', acts) = udp_handle v now r s; (s'', acts') = udp_loop v rs s'
      in (s'', acts @ acts'))"

section \<open>TCP\<close>

datatype first_frame = FrameTimeout | FrameErr | FrameEof | FrameOk bytes

datatype tcp_outcome = TcpFailed string | TcpFinished | TcpAwaiting

text \<open>
  The handler up to the wait for the pushed answer: \<open>ch\<close> is the channel it creates, \<open>key\<close> the
  pending key that \<open>dispatch_relay_ack\<close> meets first.
\<close>

definition handle_tcp_first ::
  "env \<Rightarrow> chan \<Rightarrow> socket_addr \<Rightarrow> string option \<Rightarrow> first_frame \<Rightarrow> server
     \<Rightarrow> server \<times> action list \<times> tcp_outcome" where
  "handle_tcp_first v ch peer_addr key frame s =
     (case frame of
        FrameTimeout \<Rightarrow> (s, [], TcpFailed ''first-frame timeout'')
      | FrameErr \<Rightarrow> (s, [], TcpFailed ''decode'')
      | FrameEof \<Rightarrow> (s, [], TcpFinished)
      | FrameOk bs \<Rightarrow>
          (case pb_decode v bs of
             None \<Rightarrow> (s, [], TcpFailed ''protobuf'')
           | Some msg \<Rightarrow>
               (case msg_union msg of
                  Some (PunchHoleRequest ph) \<Rightarrow>
                    (let (s', acts) = dispatch_punch v (ph_id ph) ch s
                     in (s', audit_event v ''punch_request'' (Some (ph_id ph)) peer_addr ''tcp'' @ acts,
                         TcpAwaiting))
                | Some (RelayResponse _) \<Rightarrow>
                    (let (s', acts) = dispatch_relay_ack v key s
                     in (s', audit_event v ''relay_ack'' None peer_addr ''tcp'' @ acts, TcpFinished))
                | _ \<Rightarrow> (s, [], TcpFinished))))"

text \<open>The end of the handler: one pushed message is framed onto the socket, then it returns.\<close>

definition handle_tcp_push :: "env \<Rightarrow> rendezvous_message option \<Rightarrow> action list" where
  "handle_tcp_push v received =
     (case received of
        None \<Rightarrow> []
      | Some msg \<Rightarrow>
          (case pb_encode v msg of
             None \<Rightarrow> []
           | Some buf \<Rightarrow>
               (case encode codec_new buf [] of
                  (Inl _, _) \<Rightarrow> []
                | (Inr _, out) \<Rightarrow> [WriteTcp out])))"

section \<open>WebSocket\<close>

datatype ws_item =
    WsBinary bytes | WsText string | WsPing bytes | WsPong bytes | WsFrame | WsClose | WsError

datatype ws_flow = Continue | Break

definition handle_ws_item ::
  "env \<Rightarrow> chan \<Rightarrow> socket_addr \<Rightarrow> nat \<Rightarrow> string option \<Rightarrow> ws_item \<Rightarrow> string option \<Rightarrow> server
     \<Rightarrow> ws_flow \<times> string option \<times> server \<times> action list" where
  "handle_ws_item v tx peer_addr now key item my_id s =
     (case item of
        WsBinary frame \<Rightarrow>
          (case pb_decode v frame of
             None \<Rightarrow> (Continue, my_id, s, [])
           | Some msg \<Rightarrow>
               (case msg_union msg of
                  Some (RegisterPeer rp) \<Rightarrow>
                    (Continue, Some (rp_id rp),
                     s\<lparr>peers := upsert now (rp_id rp) (WsPush tx) (peers s)\<rparr>,
                     audit_event v ''register'' (Some (rp_id rp)) peer_addr ''ws''
                       @ [Push tx register_peer_response_msg])
                | Some (RegisterPk rk) \<Rightarrow>
                    (if rk_id rk \<noteq> [] then
                       (Continue, Some (rk_id rk),
                        s\<lparr>peers := upsert now (rk_id rk) (WsPush tx) (peers s)\<rparr>,
                        [Push tx register_pk_response_msg])
                     else (Continue, my_id, s, [Push tx register_pk_response_msg]))
                | Some (PunchHoleRequest ph) \<Rightarrow>
                    (let (s', acts) = dispatch_punch v (ph_id ph) tx s
                     in (Continue, my_id, s',
                         audit_event v ''punch_request'' (Some (ph_id ph)) peer_addr ''ws'' @ acts))
                | Some (RelayResponse _) \<Rightarrow>
                    (let (s', acts) = dispatch_relay_ack v key s
                     in (Continue, my_id, s',
                         audit_event v ''relay_ack'' None peer_addr ''ws'' @ acts))
                | _ \<Rightarrow> (Continue, my_id, s, [])))
      | WsText _ \<Rightarrow> (Continue, my_id, s, [])
      | WsPing _ \<Rightarrow> (Continue, my_id, s, [])
      | WsPong _ \<Rightarrow> (Continue, my_id, s, [])
      | WsFrame \<Rightarrow> (Continue, my_id, s, [])
      | WsClose \<Rightarrow> (Break, my_id, s, [])
      | WsError \<Rightarrow> (Break, my_id, s, []))"

definition handle_ws_close :: "chan \<Rightarrow> string option \<Rightarrow> server \<Rightarrow> server" where
  "handle_ws_close tx my_id s =
     (case my_id of
        None \<Rightarrow> s
      | Some i \<Rightarrow> s\<lparr>peers := remove_if_ws i tx (peers s)\<rparr>)"

text \<open>
  The whole reader of one connection, on the items its socket yields; the end of the list is
  the end of the stream. Each item comes with the clock and the pending key it would meet. The
  connection is taken by itself: no other task touches the maps between two items. What the tasks
  do when they interleave is the matter of \<open>Rendezvous_System\<close>, which takes the items one by one.
\<close>

fun handle_ws ::
  "env \<Rightarrow> chan \<Rightarrow> socket_addr \<Rightarrow> (nat \<times> string option \<times> ws_item) list \<Rightarrow> string option \<Rightarrow> server
     \<Rightarrow> server \<times> action list" where
  "handle_ws v tx a [] my_id s = (handle_ws_close tx my_id s, [])"
| "handle_ws v tx a ((now, key, item) # items) my_id s =
     (case handle_ws_item v tx a now key item my_id s of
        (Break, my_id', s', acts) \<Rightarrow> (handle_ws_close tx my_id' s', acts)
      | (Continue, my_id', s', acts) \<Rightarrow>
          (case handle_ws v tx a items my_id' s' of (s'', acts') \<Rightarrow> (s'', acts @ acts')))"

text \<open>
  The writer task on the messages its channel delivers; each comes with whether the socket
  accepts the frame. It stops at the first message it cannot encode or send,
  and closes the socket whenever it stops.
\<close>

fun ws_writer :: "env \<Rightarrow> (rendezvous_message \<times> bool) list \<Rightarrow> action list" where
  "ws_writer v [] = [CloseWs]"
| "ws_writer v ((msg, sent_ok) # rest) =
     (case pb_encode v msg of
        None \<Rightarrow> [CloseWs]
      | Some buf \<Rightarrow> (if sent_ok then WriteWs buf # ws_writer v rest else [CloseWs]))"

text \<open>The writer forwards the longest prefix that it can encode and send, in order, and then closes.\<close>

lemma ws_writer_prefix:
  "ws_writer v msgs = map (\<lambda>(msg, ok). WriteWs (the (pb_encode v msg)))
     (takeWhile (\<lambda>(msg, ok). pb_encode v msg \<noteq> None \<and> ok) msgs) @ [CloseWs]"
  by (induction v msgs rule: ws_writer.induct) (auto split: option.splits)

section \<open>Lemmas on the helpers\<close>

lemma emit_no_send [simp]: "SendUdp b a \<notin> set (emit v ev)" "Push c m \<notin> set (emit v ev)"
  "WriteTcp b \<notin> set (emit v ev)"
  by (auto simp: emit_def split: option.splits)

lemma audit_event_no_send [simp]:
  "SendUdp b a \<notin> set (audit_event v k p x t)" "Push c m \<notin> set (audit_event v k p x t)"
  by (simp_all add: audit_event_def)

definition is_send_udp :: "action \<Rightarrow> bool" where
  "is_send_udp act = (case act of SendUdp _ _ \<Rightarrow> True | _ \<Rightarrow> False)"

lemma is_send_udp_simps [simp]:
  "is_send_udp (SendUdp b a)" "\<not> is_send_udp (Post u t j)" "\<not> is_send_udp (Push c m)"
  by (simp_all add: is_send_udp_def)

lemma audit_event_udp_free [simp]: "filter is_send_udp (audit_event v k p x t) = []"
  by (auto simp: audit_event_def emit_def split: option.splits)

lemma send_udp_cases: "send_udp v m a = [] \<or> (\<exists>b. send_udp v m a = [SendUdp b a])"
  by (auto simp: send_udp_def split: option.splits)

lemma dispatch_punch_simps:
  "registry_get target (peers s) = None \<Longrightarrow> dispatch_punch v target ch s = (s, [])"
  "registry_get target (peers s) = Some r \<Longrightarrow> dispatch_punch v target ch s
     = (s\<lparr>pending := (pending s)(target \<mapsto> ch)\<rparr>, punch_notify v r)"
  by (simp_all add: dispatch_punch_def punch_lookup_def punch_insert_def)

lemma dispatch_punch_peers [simp]: "peers (fst (dispatch_punch v target ch s)) = peers s"
  by (simp add: dispatch_punch_def punch_insert_def split: option.splits)

lemma dispatch_relay_ack_peers [simp]: "peers (fst (dispatch_relay_ack v key s)) = peers s"
  by (simp add: dispatch_relay_ack_def split: option.splits)

section \<open>UDP: what the loop does to the registry and whom it answers\<close>

text \<open>The registrations in a list of received datagrams, as directory operations.\<close>

fun udp_ops :: "env \<Rightarrow> (nat \<times> udp_recv) list \<Rightarrow> (string, reachable, chan) dir_op list" where
  "udp_ops v [] = []"
| "udp_ops v ((now, UdpRecvError) # rs) = udp_ops v rs"
| "udp_ops v ((now, Datagram buf addr) # rs) =
     (case map_option msg_union (pb_decode v buf) of
        Some (Some (RegisterPeer rp)) \<Rightarrow> Put now (rp_id rp) (Udp addr) # udp_ops v rs
      | _ \<Rightarrow> udp_ops v rs)"

lemma udp_handle_state:
  "peers (fst (udp_handle v now r s)) = dir_run upsert remove_if_ws (udp_ops v [(now, r)]) (peers s)"
  "pending (fst (udp_handle v now r s)) = pending s"
  by (auto simp: udp_handle_def split: udp_recv.splits option.splits union.splits)

lemma udp_handle_sends:
  "length (filter is_send_udp (snd (udp_handle v now r s))) \<le> 1"
  "SendUdp b a \<in> set (snd (udp_handle v now r s)) \<Longrightarrow> \<exists>buf. r = Datagram buf a"
  using send_udp_cases
  by (auto simp: udp_handle_def send_udp_def split: udp_recv.splits option.splits union.splits)

lemma dir_run_append:
  "dir_run put ret (xs @ ys) m = dir_run put ret ys (dir_run put ret xs m)"
  by (induction put ret xs m rule: dir_run.induct) auto

lemma udp_ops_Cons: "udp_ops v (x # rs) = udp_ops v [x] @ udp_ops v rs"
  by (cases x; cases "snd x") (auto split: option.splits union.splits)

lemma udp_loop_step:
  "peers (fst (udp_loop v rs s)) = dir_run upsert remove_if_ws (udp_ops v rs) (peers s)
    \<and> pending (fst (udp_loop v rs s)) = pending s
    \<and> {a. \<exists>b. SendUdp b a \<in> set (snd (udp_loop v rs s))}
        \<subseteq> {a. \<exists>now buf. (now, Datagram buf a) \<in> set rs}
    \<and> length (filter is_send_udp (snd (udp_loop v rs s))) \<le> length rs"
proof (induction rs arbitrary: s)
  case Nil
  show ?case by simp
next
  case (Cons x rs)
  obtain now r where x: "x = (now, r)" by (cases x)
  obtain s1 a1 where h: "udp_handle v now r s = (s1, a1)" by (cases "udp_handle v now r s")
  obtain s2 a2 where t: "udp_loop v rs s1 = (s2, a2)" by (cases "udp_loop v rs s1")
  note one = udp_handle_state[of v now r s] udp_handle_sends(1)[of v now r s]
    udp_handle_sends(2)[where v = v and now = now and r = r and s = s]
  have split: "udp_ops v (x # rs) = udp_ops v [(now, r)] @ udp_ops v rs"
    by (subst udp_ops_Cons) (simp add: x)
  show ?case
    unfolding split dir_run_append using Cons.IH[of s1] one
    by (auto simp: x h t subset_iff) blast+
qed

text \<open>
  C6. Native registration over UDP, for any sequence of datagrams, decodable or not: the
  registry ends up holding, for every id, the route the sequence of \<open>RegisterPeer\<close> messages
  determines, and the pending map is untouched; every datagram sent goes back to an address
  that sent one (a third party is never written to), and there are no more replies than
  datagrams.
\<close>

theorem udp_loop_spec:
  assumes "udp_loop v rs s = (s', acts)"
  shows "registry_get i (peers s') = route_after WsPush i (udp_ops v rs) (registry_get i (peers s))
    \<and> pending s' = pending s
    \<and> {a. \<exists>b. SendUdp b a \<in> set acts} \<subseteq> {a. \<exists>now buf. (now, Datagram buf a) \<in> set rs}
    \<and> length (filter is_send_udp acts) \<le> length rs"
  using udp_loop_step [of v rs s] assms by (simp add: reg.look_run)

section \<open>A punch session from end to end\<close>

definition union_msg :: "union \<Rightarrow> rendezvous_message" where
  "union_msg u = rendezvous_message_default\<lparr>msg_union := Some u\<rparr>"

lemma msg_union_union_msg [simp]: "msg_union (union_msg u) = Some u"
  by (simp add: union_msg_def)

lemma msg_union_server_msgs:
  "relay_response_msg v = union_msg (RelayResponse (relay_response_default\<lparr>rs_relay_server := relay_addr v\<rparr>))"
  "request_relay_msg v = union_msg (RequestRelay (request_relay_default\<lparr>rr_relay_server := relay_addr v\<rparr>))"
  by (simp_all add: relay_response_msg_def request_relay_msg_def union_msg_def)

lemma handle_tcp_push_framed:
  assumes "pb_encode v m = Some b" "length b \<le> MAX_PACKET"
  obtains out where "handle_tcp_push v (Some m) = [WriteTcp out]"
    and "encode_all codec_new [b] [] = (Inr (), out)"
proof -
  have "encode codec_new b [] = (Inr (), header_bytes (length b) @ b)"
    using assms(2) by (simp add: encode_eq codec_new_def)
  with assms(1) show ?thesis by (intro that) (auto simp: handle_tcp_push_def)
qed

lemma decode_union_handlers:
  "pb_decode v buf = Some (union_msg (RegisterPeer rp)) \<Longrightarrow>
    udp_handle v now (Datagram buf addr) s =
     (s\<lparr>peers := upsert now (rp_id rp) (Udp addr) (peers s)\<rparr>,
      audit_event v ''register'' (Some (rp_id rp)) addr ''udp''
        @ send_udp v register_peer_response_msg addr)"
  "pb_decode v bs = Some (union_msg (PunchHoleRequest ph)) \<Longrightarrow>
    handle_tcp_first v ch a key (FrameOk bs) s =
     (fst (dispatch_punch v (ph_id ph) ch s),
      audit_event v ''punch_request'' (Some (ph_id ph)) a ''tcp'' @ snd (dispatch_punch v (ph_id ph) ch s),
      TcpAwaiting)"
  "pb_decode v bs = Some (union_msg (RelayResponse rs)) \<Longrightarrow>
    handle_tcp_first v ch a key (FrameOk bs) s =
     (fst (dispatch_relay_ack v key s),
      audit_event v ''relay_ack'' None a ''tcp'' @ snd (dispatch_relay_ack v key s),
      TcpFinished)"
  by (simp_all add: udp_handle_def handle_tcp_first_def split_beta)

text \<open>
  C7. A relay session from end to end, down to the bytes. A native peer registers over UDP, a
  requester asks over TCP to punch it, the peer acknowledges over TCP. Then the peer's UDP
  address is sent the encoded \<open>RequestRelay\<close>; the requester's connection writes exactly one
  frame, and however the network cuts it, the requester's decoder recovers one frame that
  decodes to a \<open>RelayResponse\<close> naming the configured relay; no pending request is left.
  The hypotheses say that the protobuf codec decodes what the two clients sent and what the
  server encodes.
\<close>

theorem punch_session_end_to_end:
  assumes reg_dec: "pb_decode v b1 = Some (union_msg (RegisterPeer rp))"
    and punch_dec: "pb_decode v b2 = Some (union_msg (PunchHoleRequest ph))"
    and same_id: "ph_id ph = rp_id rp"
    and ack_dec: "pb_decode v b3 = Some (union_msg (RelayResponse ack))"
    and req_enc: "pb_encode v (request_relay_msg v) = Some q"
    and resp_enc: "pb_encode v (relay_response_msg v) = Some p"
    and resp_dec: "pb_decode v p = Some (relay_response_msg v)" "length p \<le> MAX_PACKET"
    and s1: "udp_handle v now (Datagram b1 target) server_new = (s1, acts1)"
    and s2: "handle_tcp_first v ch requester k (FrameOk b2) s1 = (s2, acts2, o2)"
    and key: "first_key (pending s2) key"
    and s3: "handle_tcp_first v ch' acker key (FrameOk b3) s2 = (s3, acts3, o3)"
  shows "SendUdp q target \<in> set acts2 \<and> o2 = TcpAwaiting
    \<and> filter (\<lambda>a. \<exists>c m. a = Push c m) acts3 = [Push ch (relay_response_msg v)] \<and> o3 = TcpFinished
    \<and> (\<exists>out. handle_tcp_push v (Some (relay_response_msg v)) = [WriteTcp out]
        \<and> (\<forall>chunks. concat chunks = out \<longrightarrow> feed codec_new [] chunks = ([p], None, codec_new, [])))
    \<and> pending s3 = Map.empty"
proof -
  have st1: "s1 = server_new\<lparr>peers := upsert now (rp_id rp) (Udp target) registry_new\<rparr>"
    using s1 by (simp add: decode_union_handlers(1) [OF reg_dec] server_new_def)
  then have route: "registry_get (ph_id ph) (peers s1) = Some (Udp target)"
    by (simp add: same_id)
  obtain out where out: "handle_tcp_push v (Some (relay_response_msg v)) = [WriteTcp out]"
    "encode_all codec_new [p] [] = (Inr (), out)"
    by (rule handle_tcp_push_framed [OF resp_enc resp_dec(2)])
  from route have d: "dispatch_punch v (ph_id ph) ch s1
      = (s1\<lparr>pending := [rp_id rp \<mapsto> ch]\<rparr>, [SendUdp q target])"
    using req_enc by (simp add: dispatch_punch_simps punch_notify_def send_udp_def same_id st1 server_new_def)
  then have st2: "s2 = s1\<lparr>pending := [rp_id rp \<mapsto> ch]\<rparr>" "SendUdp q target \<in> set acts2" "o2 = TcpAwaiting"
    using s2 by (auto simp: decode_union_handlers(2) [OF punch_dec])
  then have "key = Some (rp_id rp)"
    using key by (auto simp: first_key_def split: option.splits if_splits)
  then have "dispatch_relay_ack v key s2 = (s2\<lparr>pending := Map.empty\<rparr>, [Push ch (relay_response_msg v)])"
    using st2(1) by (simp add: dispatch_relay_ack_def)
  then have "s3 = s2\<lparr>pending := Map.empty\<rparr>" "o3 = TcpFinished"
    "acts3 = audit_event v ''relay_ack'' None acker ''tcp'' @ [Push ch (relay_response_msg v)]"
    using s3 by (auto simp: decode_union_handlers(3) [OF ack_dec])
  moreover have "filter (\<lambda>a. \<exists>c m. a = Push c m) (audit_event v ''relay_ack'' None acker ''tcp'') = []"
    by (auto simp: filter_empty_conv)
  moreover have "\<forall>chunks. concat chunks = out \<longrightarrow> feed codec_new [] chunks = ([p], None, codec_new, [])"
    using out(2) resp_dec(2) by (auto intro: feed_encoded [of "[p]" out])
  ultimately show ?thesis using st2 out(1) by auto
qed

definition demo_punch :: punch_hole_request where
  "demo_punch = \<lparr>ph_id = ''p'', ph_nat_type = 0, ph_licence_key = [], ph_conn_type = 0,
     ph_token = [], ph_version = [], ph_udp_port = 0, ph_force_relay = False, ph_upnp_port = 0,
     ph_socket_addr_v6 = []\<rparr>"

definition demo_env :: env where
  "demo_env = \<lparr>relay_addr = ''r'', show_addr = (\<lambda>a. ''a''),
     pb_encode = (\<lambda>m. case msg_union m of Some (RequestRelay _) \<Rightarrow> Some [20]
        | Some (RelayResponse _) \<Rightarrow> Some [30] | _ \<Rightarrow> Some [40]),
     pb_decode = (\<lambda>b.
        if b = [1] then Some (union_msg (RegisterPeer \<lparr>rp_id = ''p'', rp_serial = 0\<rparr>))
        else if b = [2] then Some (union_msg (PunchHoleRequest demo_punch))
        else if b = [3] then Some (union_msg (RelayResponse relay_response_default))
        else if b = [4] then Some (union_msg (RegisterPeer \<lparr>rp_id = ''q'', rp_serial = 0\<rparr>))
        else if b = [30] then
          Some (union_msg (RelayResponse (relay_response_default\<lparr>rs_relay_server := ''r''\<rparr>)))
        else None),
     to_json = (\<lambda>e. Some (ev_kind e)), env_auditor = auditor_new (Some ''u'') (Some ''t'')\<rparr>"

abbreviation "demo_addr \<equiv> SocketAddrV4 0x7f000001 5000"

theorem udp_loop_spec_witness:
  "registry_get ''p'' (peers (fst (udp_loop demo_env [(7, Datagram [1] demo_addr)] server_new)))
     = Some (Udp demo_addr)"
proof -
  obtain s' acts where u: "udp_loop demo_env [(7, Datagram [1] demo_addr)] server_new = (s', acts)"
    by (cases "udp_loop demo_env [(7, Datagram [1] demo_addr)] server_new")
  from udp_loop_spec [OF u, of "''p''"] u show ?thesis
    by (simp add: demo_env_def server_new_def)
qed

lemma demo_pb:
  "pb_decode demo_env [1] = Some (union_msg (RegisterPeer \<lparr>rp_id = ''p'', rp_serial = 0\<rparr>))"
  "pb_decode demo_env [2] = Some (union_msg (PunchHoleRequest demo_punch))"
  "pb_decode demo_env [3] = Some (union_msg (RelayResponse relay_response_default))"
  "pb_decode demo_env [4] = Some (union_msg (RegisterPeer \<lparr>rp_id = ''q'', rp_serial = 0\<rparr>))"
  "pb_encode demo_env (request_relay_msg demo_env) = Some [20]"
  "pb_encode demo_env (relay_response_msg demo_env) = Some [30]"
  "pb_decode demo_env [30] = Some (relay_response_msg demo_env)"
  by (simp_all add: demo_env_def msg_union_server_msgs)

theorem punch_session_end_to_end_witness:
  "\<exists>out. handle_tcp_push demo_env (Some (relay_response_msg demo_env)) = [WriteTcp out]
     \<and> feed codec_new [] [out] = ([[30]], None, codec_new, [])"
proof -
  have ph: "ph_id demo_punch = ''p''" by (simp add: demo_punch_def)
  obtain s1 a1 where s1: "udp_handle demo_env 7 (Datagram [1] demo_addr) server_new = (s1, a1)"
    by (cases "udp_handle demo_env 7 (Datagram [1] demo_addr) server_new")
  obtain s2 a2 o2 where s2: "handle_tcp_first demo_env 5 demo_addr None (FrameOk [2]) s1 = (s2, a2, o2)"
    by (cases "handle_tcp_first demo_env 5 demo_addr None (FrameOk [2]) s1")
  obtain s3 a3 o3 where s3: "handle_tcp_first demo_env 6 demo_addr (Some ''p'') (FrameOk [3]) s2 = (s3, a3, o3)"
    by (cases "handle_tcp_first demo_env 6 demo_addr (Some ''p'') (FrameOk [3]) s2")
  have "peers s1 = upsert 7 ''p'' (Udp demo_addr) registry_new"
    using s1 by (auto simp: decode_union_handlers(1) [OF demo_pb(1)] server_new_def)
  then have key: "first_key (pending s2) (Some ''p'')"
    using s2 by (auto simp: decode_union_handlers(2) [OF demo_pb(2)] ph dispatch_punch_simps first_key_def)
  have len: "length [30 :: u8] \<le> MAX_PACKET" by (simp add: MAX_PACKET_def)
  have "ph_id demo_punch = rp_id \<lparr>rp_id = ''p'', rp_serial = 0\<rparr>" by (simp add: ph)
  from punch_session_end_to_end [OF demo_pb(1,2) this demo_pb(3,5-7) len s1 s2 key s3]
  obtain out where "handle_tcp_push demo_env (Some (relay_response_msg demo_env)) = [WriteTcp out]"
    "\<forall>chunks. concat chunks = out \<longrightarrow> feed codec_new [] chunks = ([[30]], None, codec_new, [])"
    by auto
  moreover have "concat [out] = out" by simp
  ultimately show ?thesis by blast
qed

section \<open>What an acknowledgement does\<close>

abbreviation pushes :: "action list \<Rightarrow> action list" where
  "pushes acts \<equiv> filter (\<lambda>a. \<exists>c m. a = Push c m) acts"

lemma pushes_audit [simp]: "pushes (audit_event v k p x t) = []"
  by (auto simp: filter_empty_conv)

text \<open>
  An acknowledgement (\<open>RelayResponse\<close> over TCP) answers at most one requester: with no
  request pending it changes nothing and pushes nothing; otherwise exactly one pending request
  is removed, its requester alone is pushed the response, and every other request stays.
\<close>

theorem relay_ack_releases_one:
  assumes "pb_decode v bs = Some (union_msg (RelayResponse ack))"
    and "first_key (pending s) key"
    and "handle_tcp_first v ch a key (FrameOk bs) s = (s', acts, oc)"
  shows "if pending s = Map.empty then s' = s \<and> pushes acts = []
    else \<exists>k c. pending s k = Some c \<and> s' = s\<lparr>pending := (pending s)(k := None)\<rparr>
      \<and> pushes acts = [Push c (relay_response_msg v)]"
proof -
  have eqs: "s' = fst (dispatch_relay_ack v key s)"
    "pushes acts = pushes (snd (dispatch_relay_ack v key s))"
    using assms(3) by (auto simp: decode_union_handlers(3) [OF assms(1)])
  show ?thesis
  proof (cases key)
    case None
    with assms(2) show ?thesis by (simp add: eqs first_key_def dispatch_relay_ack_def)
  next
    case (Some k)
    with assms(2) obtain c where "pending s k = Some c" by (auto simp: first_key_def)
    with Some show ?thesis by (auto simp: eqs dispatch_relay_ack_def)
  qed
qed

theorem relay_ack_releases_one_witness:
  "pushes (fst (snd (handle_tcp_first demo_env 6 demo_addr (Some ''p'') (FrameOk [3])
     \<lparr>peers = registry_new, pending = [''p'' \<mapsto> 5]\<rparr>))) = [Push 5 (relay_response_msg demo_env)]"
proof -
  let ?s = "\<lparr>peers = registry_new, pending = [''p'' \<mapsto> 5 :: chan]\<rparr>"
  have d: "pb_decode demo_env [3] = Some (union_msg (RelayResponse relay_response_default))"
    by (simp add: demo_env_def)
  have k: "first_key (pending ?s) (Some ''p'')" by (simp add: first_key_def)
  obtain s' acts oc where h: "handle_tcp_first demo_env 6 demo_addr (Some ''p'') (FrameOk [3]) ?s = (s', acts, oc)"
    by (cases "handle_tcp_first demo_env 6 demo_addr (Some ''p'') (FrameOk [3]) ?s")
  from relay_ack_releases_one [OF d k h] h show ?thesis
    by (auto split: if_splits)
qed

text \<open>
  The acknowledgement is not matched to a request: when requests for two targets are
  pending, any acknowledgement, whoever sends it and whatever it contains, may release the
  requester of the other target, which is then told to relay although its target said nothing;
  the requester the acknowledgement was meant for stays pending.
\<close>

theorem relay_ack_unmatched:
  assumes "pb_decode v bs = Some (union_msg (RelayResponse ack))"
    and "pending s t1 = Some c1" "pending s t2 = Some c2" "t1 \<noteq> t2"
  shows "\<exists>key. first_key (pending s) key
    \<and> pushes (fst (snd (handle_tcp_first v ch a key (FrameOk bs) s))) = [Push c2 (relay_response_msg v)]
    \<and> pending (fst (handle_tcp_first v ch a key (FrameOk bs) s)) t1 = Some c1"
  using assms
  by (intro exI [of _ "Some t2"])
     (auto simp: first_key_def decode_union_handlers(3) [OF assms(1)] dispatch_relay_ack_def)

theorem relay_ack_unmatched_witness:
  "\<exists>key. first_key [''p'' \<mapsto> 5, ''q'' \<mapsto> (8 :: chan)] key
    \<and> pushes (fst (snd (handle_tcp_first demo_env 6 demo_addr key (FrameOk [3])
        \<lparr>peers = registry_new, pending = [''p'' \<mapsto> 5, ''q'' \<mapsto> 8]\<rparr>)))
      = [Push 8 (relay_response_msg demo_env)]"
proof -
  let ?s = "\<lparr>peers = registry_new, pending = [''p'' \<mapsto> 5, ''q'' \<mapsto> (8 :: chan)]\<rparr>"
  have d: "pb_decode demo_env [3] = Some (union_msg (RelayResponse relay_response_default))"
    by (simp add: demo_env_def)
  have p: "pending ?s ''p'' = Some 5" "pending ?s ''q'' = Some 8" "''p'' \<noteq> ''q''" by simp_all
  from relay_ack_unmatched [OF d p, of 6 demo_addr] show ?thesis by auto
qed

section \<open>A WebSocket connection and its registrations\<close>

text \<open>The ids a connection registers, in order.\<close>

fun ws_ids :: "env \<Rightarrow> (nat \<times> string option \<times> ws_item) list \<Rightarrow> string list" where
  "ws_ids v [] = []"
| "ws_ids v ((_, _, WsBinary frame) # items) =
     (case map_option msg_union (pb_decode v frame) of
        Some (Some (RegisterPeer rp)) \<Rightarrow> rp_id rp # ws_ids v items
      | Some (Some (RegisterPk rk)) \<Rightarrow> (if rk_id rk \<noteq> [] then rk_id rk # ws_ids v items else ws_ids v items)
      | _ \<Rightarrow> ws_ids v items)"
| "ws_ids v ((_, _, WsClose) # items) = []"
| "ws_ids v ((_, _, WsError) # items) = []"
| "ws_ids v (_ # items) = ws_ids v items"

lemma handle_ws_item_effect:
  assumes "handle_ws_item v tx a now key item my_id s = (fl, my_id', s', acts)"
  shows "(ws_ids v [(now, key, item)] = [] \<and> my_id' = my_id \<and> peers s' = peers s)
    \<or> (\<exists>i. fl = Continue \<and> ws_ids v [(now, key, item)] = [i] \<and> my_id' = Some i
        \<and> peers s' = upsert now i (WsPush tx) (peers s))"
  using assms
  by (auto simp: handle_ws_item_def split_beta dispatch_punch_def dispatch_relay_ack_def punch_insert_def
      split: ws_item.splits option.splits union.splits if_splits prod.splits)

lemma ws_ids_Cons:
  "handle_ws_item v tx a now key item my_id s = (Continue, my_id', s', acts) \<Longrightarrow>
    ws_ids v ((now, key, item) # items) = ws_ids v [(now, key, item)] @ ws_ids v items"
  "handle_ws_item v tx a now key item my_id s = (Break, my_id', s', acts) \<Longrightarrow>
    ws_ids v ((now, key, item) # items) = [] \<and> my_id' = my_id \<and> s' = s"
  by (cases item; auto simp: handle_ws_item_def split_beta split: option.splits union.splits if_splits)+

lemma handle_ws_close_routes:
  "registry_get j (peers (handle_ws_close tx my_id s)) =
     (if my_id = Some j \<and> registry_get j (peers s) = Some (WsPush tx) then None
      else registry_get j (peers s))"
  by (auto simp: handle_ws_close_def reg.look_retire split: option.splits)

lemma handle_ws_routes:
  assumes "handle_ws v tx a items my_id s = (s', acts)"
  shows "registry_get j (peers s') =
    (let ids = ws_ids v items;
         final = (if ids = [] then my_id else Some (last ids));
         cur = (if j \<in> set ids then Some (WsPush tx) else registry_get j (peers s))
     in if final = Some j \<and> cur = Some (WsPush tx) then None else cur)"
  using assms
proof (induction items arbitrary: my_id s acts)
  case Nil
  then show ?case by (auto simp: handle_ws_close_routes)
next
  case (Cons x items)
  obtain now key item where x: "x = (now, key, item)" by (cases x)
  obtain fl my1 s1 a1 where h: "handle_ws_item v tx a now key item my_id s = (fl, my1, s1, a1)"
    by (cases "handle_ws_item v tx a now key item my_id s")
  show ?case
  proof (cases fl)
    case Break
    with Cons.prems h ws_ids_Cons(2) [OF h [unfolded Break]] show ?thesis
      by (auto simp: x handle_ws_close_routes)
  next
    case Continue
    with Cons.prems h obtain a2 where r: "handle_ws v tx a items my1 s1 = (s', a2)"
      by (auto simp: x split: prod.splits)
    note ids = ws_ids_Cons(1) [OF h [unfolded Continue], of items]
    from handle_ws_item_effect [OF h] consider
      "ws_ids v [(now, key, item)] = []" "my1 = my_id" "peers s1 = peers s"
      | i where "ws_ids v [(now, key, item)] = [i]" "my1 = Some i"
          "peers s1 = upsert now i (WsPush tx) (peers s)"
      by blast
    then show ?thesis
      using Cons.IH [OF r]
      by cases (auto simp: x ids Let_def reg.look_put split: if_splits)
  qed
qed

text \<open>
  C8. What a WebSocket connection leaves behind in the registry, whatever it sends and
  whichever way it ends, when no other connection uses the same ids meanwhile: of the ids it registered, the last one is unregistered and every other
  one is still routed to the closed connection's channel; no other id is affected. So a
  connection that only ever uses one id cleans up after itself, and one that registers a second
  id leaves a dead route for the first.
\<close>

theorem ws_connection_routes:
  assumes "handle_ws v tx a items None s = (s', acts)"
  shows "registry_get j (peers s') =
    (if j \<notin> set (ws_ids v items) then registry_get j (peers s)
     else if j = last (ws_ids v items) then None
     else Some (WsPush tx))"
  using handle_ws_routes [OF assms, of j] by (auto simp: Let_def split: if_splits)

theorem ws_connection_routes_witness:
  "registry_get ''p'' (peers (fst (handle_ws demo_env 5 demo_addr
     [(1, None, WsBinary [1]), (2, None, WsBinary [4]), (3, None, WsClose)] None server_new)))
     = Some (WsPush 5)"
proof -
  let ?items = "[(1, None, WsBinary [1]), (2, None, WsBinary [4]), (3, None, WsClose)]"
  obtain s' acts where h: "handle_ws demo_env 5 demo_addr ?items None server_new = (s', acts)"
    by (cases "handle_ws demo_env 5 demo_addr ?items None server_new")
  from ws_connection_routes [OF h, of "''p''"] h show ?thesis by (simp add: demo_pb)
qed

end
