(* ===== verification/Rendezvous_System.thy ===== *)
theory Rendezvous_System
  imports Rendezvous
begin

text \<open>
  The rendezvous server as a whole: every TCP and WebSocket connection is a task, and a step is
  one task (or the UDP loop) running up to its next suspension point. The handlers are those of
  \<open>Rendezvous\<close>; only \<open>dispatch_punch\<close> is taken apart, because it awaits three times (registry
  read, send, pending insert) and other tasks run in between. A connection is named by the
  channel it creates. \<open>inbox\<close> holds the messages pushed to a channel and not yet received,
  \<open>written\<close> what a TCP connection has sent to its socket.
\<close>

section \<open>Configurations and steps\<close>

datatype tcp_pc =
    TcpUnused
  | TcpReading socket_addr
  | TcpNotifying string reachable
  | TcpInserting string
  | TcpWaiting
  | TcpClosed

datatype ws_pc =
    WsUnused
  | WsReading socket_addr
  | WsNotifying socket_addr string reachable
  | WsInserting socket_addr string
  | WsClosed

record rdv =
  srv :: server
  tcp_at :: "chan \<Rightarrow> tcp_pc"
  ws_at :: "chan \<Rightarrow> ws_pc"
  ws_my_id :: "chan \<Rightarrow> string option"
  inbox :: "chan \<Rightarrow> rendezvous_message list"
  written :: "chan \<Rightarrow> action list"

definition rdv_init :: rdv where
  "rdv_init = \<lparr>srv = server_new, tcp_at = (\<lambda>_. TcpUnused), ws_at = (\<lambda>_. WsUnused),
     ws_my_id = (\<lambda>_. None), inbox = (\<lambda>_. []), written = (\<lambda>_. [])\<rparr>"

fun msgs_to :: "chan \<Rightarrow> action list \<Rightarrow> rendezvous_message list" where
  "msgs_to c [] = []"
| "msgs_to c (Push d m # acts) = (if d = c then [m] else []) @ msgs_to c acts"
| "msgs_to c (_ # acts) = msgs_to c acts"

definition deliver ::
  "action list \<Rightarrow> (chan \<Rightarrow> rendezvous_message list) \<Rightarrow> chan \<Rightarrow> rendezvous_message list" where
  "deliver acts q = (\<lambda>c. q c @ msgs_to c acts)"

definition punch_of :: "env \<Rightarrow> bytes \<Rightarrow> punch_hole_request option" where
  "punch_of v bs =
     (case pb_decode v bs of
        Some msg \<Rightarrow> (case msg_union msg of Some (PunchHoleRequest ph) \<Rightarrow> Some ph | _ \<Rightarrow> None)
      | None \<Rightarrow> None)"

definition is_punch_frame :: "env \<Rightarrow> first_frame \<Rightarrow> bool" where
  "is_punch_frame v frame = (case frame of FrameOk bs \<Rightarrow> punch_of v bs \<noteq> None | _ \<Rightarrow> False)"

definition is_punch_item :: "env \<Rightarrow> ws_item \<Rightarrow> bool" where
  "is_punch_item v item = (case item of WsBinary bs \<Rightarrow> punch_of v bs \<noteq> None | _ \<Rightarrow> False)"

inductive rdv_step :: "env \<Rightarrow> rdv \<Rightarrow> rdv \<Rightarrow> bool" for v where
  udp: "udp_handle v now r (srv s) = (srv', acts) \<Longrightarrow>
    rdv_step v s (s\<lparr>srv := srv', inbox := deliver acts (inbox s)\<rparr>)"
| tcp_open: "tcp_at s c = TcpUnused \<Longrightarrow> ws_at s c = WsUnused \<Longrightarrow>
    rdv_step v s (s\<lparr>tcp_at := (tcp_at s)(c := TcpReading a)\<rparr>)"
| tcp_first: "tcp_at s c = TcpReading a \<Longrightarrow> \<not> is_punch_frame v frame \<Longrightarrow>
    first_key (pending (srv s)) key \<Longrightarrow>
    handle_tcp_first v c a key frame (srv s) = (srv', acts, oc) \<Longrightarrow>
    rdv_step v s (s\<lparr>srv := srv', inbox := deliver acts (inbox s), tcp_at := (tcp_at s)(c := TcpClosed)\<rparr>)"
| tcp_offline: "tcp_at s c = TcpReading a \<Longrightarrow> punch_of v bs = Some ph \<Longrightarrow>
    punch_lookup (ph_id ph) (srv s) = None \<Longrightarrow>
    rdv_step v s (s\<lparr>tcp_at := (tcp_at s)(c := TcpWaiting)\<rparr>)"
| tcp_found: "tcp_at s c = TcpReading a \<Longrightarrow> punch_of v bs = Some ph \<Longrightarrow>
    punch_lookup (ph_id ph) (srv s) = Some r \<Longrightarrow>
    rdv_step v s (s\<lparr>tcp_at := (tcp_at s)(c := TcpNotifying (ph_id ph) r)\<rparr>)"
| tcp_notify: "tcp_at s c = TcpNotifying t r \<Longrightarrow>
    rdv_step v s (s\<lparr>inbox := deliver (punch_notify v r) (inbox s), tcp_at := (tcp_at s)(c := TcpInserting t)\<rparr>)"
| tcp_insert: "tcp_at s c = TcpInserting t \<Longrightarrow>
    rdv_step v s (s\<lparr>srv := punch_insert t c (srv s), tcp_at := (tcp_at s)(c := TcpWaiting)\<rparr>)"
| tcp_push: "tcp_at s c = TcpWaiting \<Longrightarrow> inbox s c = m # ms \<Longrightarrow>
    rdv_step v s (s\<lparr>inbox := (inbox s)(c := ms), tcp_at := (tcp_at s)(c := TcpClosed),
      written := (written s)(c := written s c @ handle_tcp_push v (Some m))\<rparr>)"
| ws_open: "tcp_at s c = TcpUnused \<Longrightarrow> ws_at s c = WsUnused \<Longrightarrow>
    rdv_step v s (s\<lparr>ws_at := (ws_at s)(c := WsReading a)\<rparr>)"
| ws_item: "ws_at s c = WsReading a \<Longrightarrow> \<not> is_punch_item v item \<Longrightarrow>
    first_key (pending (srv s)) key \<Longrightarrow>
    handle_ws_item v c a now key item (ws_my_id s c) (srv s) = (Continue, my_id', srv', acts) \<Longrightarrow>
    rdv_step v s (s\<lparr>srv := srv', inbox := deliver acts (inbox s), ws_my_id := (ws_my_id s)(c := my_id')\<rparr>)"
| ws_offline: "ws_at s c = WsReading a \<Longrightarrow> punch_of v bs = Some ph \<Longrightarrow>
    punch_lookup (ph_id ph) (srv s) = None \<Longrightarrow> rdv_step v s s"
| ws_found: "ws_at s c = WsReading a \<Longrightarrow> punch_of v bs = Some ph \<Longrightarrow>
    punch_lookup (ph_id ph) (srv s) = Some r \<Longrightarrow>
    rdv_step v s (s\<lparr>ws_at := (ws_at s)(c := WsNotifying a (ph_id ph) r)\<rparr>)"
| ws_notify: "ws_at s c = WsNotifying a t r \<Longrightarrow>
    rdv_step v s (s\<lparr>inbox := deliver (punch_notify v r) (inbox s), ws_at := (ws_at s)(c := WsInserting a t)\<rparr>)"
| ws_insert: "ws_at s c = WsInserting a t \<Longrightarrow>
    rdv_step v s (s\<lparr>srv := punch_insert t c (srv s), ws_at := (ws_at s)(c := WsReading a)\<rparr>)"
| ws_end: "ws_at s c = WsReading a \<Longrightarrow>
    rdv_step v s (s\<lparr>srv := handle_ws_close c (ws_my_id s c) (srv s), ws_at := (ws_at s)(c := WsClosed)\<rparr>)"
| ws_write: "ws_at s c \<noteq> WsUnused \<Longrightarrow> inbox s c = m # ms \<Longrightarrow>
    rdv_step v s (s\<lparr>inbox := (inbox s)(c := ms)\<rparr>)"

inductive rdv_reachable :: "env \<Rightarrow> rdv \<Rightarrow> bool" for v where
  init: "rdv_reachable v rdv_init"
| step: "rdv_reachable v s \<Longrightarrow> rdv_step v s s' \<Longrightarrow> rdv_reachable v s'"

section \<open>What the handlers push and to whom\<close>

lemma msgs_to_append [simp]: "msgs_to c (xs @ ys) = msgs_to c xs @ msgs_to c ys"
  by (induction c xs rule: msgs_to.induct) auto

lemma msgs_to_audit [simp]: "msgs_to c (audit_event v k p x t) = []"
  by (auto simp: audit_event_def emit_def split: option.splits)

lemma msgs_to_send_udp [simp]: "msgs_to c (send_udp v m a) = []"
  by (auto simp: send_udp_def split: option.splits)

lemma msgs_to_notify: "msgs_to c (punch_notify v r) = (if r = WsPush c then [request_relay_msg v] else [])"
  by (auto simp: punch_notify_def split: reachable.splits)

lemma msgs_to_udp: "udp_handle v now r s = (s', acts) \<Longrightarrow> msgs_to c acts = []"
  by (auto simp: udp_handle_def split: udp_recv.splits option.splits union.splits)

lemma udp_routes:
  "udp_handle v now r s = (s', acts) \<Longrightarrow> registry_get i (peers s') = Some (WsPush c) \<Longrightarrow>
    registry_get i (peers s) = Some (WsPush c)"
  by (auto simp: udp_handle_def reg.look_put split: udp_recv.splits option.splits union.splits if_splits)

text \<open>Either nothing happens to the requests, or one is taken out and its requester answered.\<close>

inductive ack_effect ::
  "env \<Rightarrow> server \<Rightarrow> server \<Rightarrow> (chan \<Rightarrow> rendezvous_message list) \<Rightarrow> bool" for v s s' out where
  none: "pending s' = pending s \<Longrightarrow> (\<And>c. out c = []) \<Longrightarrow> ack_effect v s s' out"
| some: "pending s k = Some d \<Longrightarrow> pending s' = (pending s)(k := None) \<Longrightarrow>
    (\<And>c. out c = (if c = d then [relay_response_msg v] else [])) \<Longrightarrow> ack_effect v s s' out"

lemma dispatch_relay_ack_effect:
  assumes "dispatch_relay_ack v key s = (s', acts)"
  shows "ack_effect v s s' (\<lambda>c. msgs_to c acts)" and "peers s' = peers s"
  using assms
  by (auto simp: dispatch_relay_ack_def intro: ack_effect.intros split: option.splits)

lemma tcp_first_effect:
  assumes "handle_tcp_first v c a key frame s = (s', acts, oc)" "\<not> is_punch_frame v frame"
  shows "ack_effect v s s' (\<lambda>c. msgs_to c acts)" and "peers s' = peers s"
  using assms dispatch_relay_ack_effect
  by (auto simp: handle_tcp_first_def is_punch_frame_def punch_of_def intro: ack_effect.none
      split: first_frame.splits option.splits union.splits prod.splits)

text \<open>A WebSocket item pushes to its own connection, or acts as an acknowledgement.\<close>

lemma ws_item_effect:
  assumes "handle_ws_item v c a now key item my_id s = (fl, my_id', s', acts)" "\<not> is_punch_item v item"
  shows "(pending s' = pending s \<and> (\<forall>d. d \<noteq> c \<longrightarrow> msgs_to d acts = []))
    \<or> (ack_effect v s s' (\<lambda>c. msgs_to c acts) \<and> peers s' = peers s)"
    and "registry_get i (peers s') = Some (WsPush d) \<Longrightarrow>
      d = c \<or> registry_get i (peers s) = Some (WsPush d)"
  using assms dispatch_relay_ack_effect
  by (auto simp: handle_ws_item_def is_punch_item_def punch_of_def reg.look_put
      split: ws_item.splits option.splits union.splits prod.splits if_splits)

lemma handle_ws_close_effect:
  "pending (handle_ws_close c my_id s) = pending s"
  "registry_get i (peers (handle_ws_close c my_id s)) = Some r \<Longrightarrow> registry_get i (peers s) = Some r"
  by (auto simp: handle_ws_close_def reg.look_retire split: option.splits if_splits)

section \<open>The invariant\<close>

definition routes_ok :: "rdv \<Rightarrow> bool" where
  "routes_ok s \<longleftrightarrow>
     (\<forall>i d. registry_get i (peers (srv s)) = Some (WsPush d) \<longrightarrow> ws_at s d \<noteq> WsUnused)
     \<and> (\<forall>c t d. tcp_at s c = TcpNotifying t (WsPush d) \<longrightarrow> ws_at s d \<noteq> WsUnused)
     \<and> (\<forall>c a t d. ws_at s c = WsNotifying a t (WsPush d) \<longrightarrow> ws_at s d \<noteq> WsUnused)"

definition requests_of :: "rdv \<Rightarrow> chan \<Rightarrow> string set" where
  "requests_of s c = {t. pending (srv s) t = Some c}"

text \<open>One TCP connection: what may be pending for it, queued for it and written by it.\<close>

definition tcp_ok :: "env \<Rightarrow> rdv \<Rightarrow> chan \<Rightarrow> bool" where
  "tcp_ok v s c \<longleftrightarrow>
     (case tcp_at s c of
        TcpUnused \<Rightarrow> (ws_at s c = WsUnused \<longrightarrow> requests_of s c = {} \<and> inbox s c = []) \<and> written s c = []
      | TcpWaiting \<Rightarrow> ws_at s c = WsUnused \<and> written s c = []
          \<and> ((\<exists>t. requests_of s c \<subseteq> {t}) \<and> inbox s c = []
             \<or> requests_of s c = {} \<and> inbox s c = [relay_response_msg v])
      | TcpClosed \<Rightarrow> ws_at s c = WsUnused \<and> requests_of s c = {} \<and> inbox s c = []
          \<and> (written s c = [] \<or> written s c = handle_tcp_push v (Some (relay_response_msg v)))
      | _ \<Rightarrow> ws_at s c = WsUnused \<and> requests_of s c = {} \<and> inbox s c = [] \<and> written s c = [])"

lemma requests_of_update [simp]:
  "requests_of (s\<lparr>inbox := q\<rparr>) c = requests_of s c"
  "requests_of (s\<lparr>tcp_at := f\<rparr>) c = requests_of s c"
  "requests_of (s\<lparr>ws_at := g\<rparr>) c = requests_of s c"
  "requests_of (s\<lparr>ws_my_id := h\<rparr>) c = requests_of s c"
  "requests_of (s\<lparr>written := w\<rparr>) c = requests_of s c"
  by (simp_all add: requests_of_def)

lemma requests_of_insert:
  "requests_of (s\<lparr>srv := punch_insert t d (srv s)\<rparr>) c =
     (if c = d then insert t (requests_of s c) else requests_of s c - {t})"
  by (auto simp: requests_of_def punch_insert_def)

lemma requests_of_srv: "pending srv' = pending (srv s) \<Longrightarrow> requests_of (s\<lparr>srv := srv'\<rparr>) c = requests_of s c"
  by (simp add: requests_of_def)

text \<open>
  An acknowledgement keeps every connection's invariant: its requester had nothing queued and
  loses its only request.
\<close>

lemma ack_effect_channel:
  assumes "ack_effect v (srv s) srv' out"
  obtains (same) "requests_of (s\<lparr>srv := srv'\<rparr>) c = requests_of s c" "out c = []"
  | (answered) k where "k \<in> requests_of s c"
      "requests_of (s\<lparr>srv := srv'\<rparr>) c = requests_of s c - {k}" "out c = [relay_response_msg v]"
  using assms
proof cases
  case none
  then show thesis by (intro same) (simp_all add: requests_of_def)
next
  case (some k d)
  show thesis
  proof (cases "c = d")
    case True
    with some show thesis by (intro answered [of k]) (auto simp: requests_of_def)
  next
    case False
    with some show thesis by (intro same) (auto simp: requests_of_def)
  qed
qed

lemma tcp_ok_ack:
  assumes "ack_effect v (srv s) srv' out" "tcp_ok v s c"
  shows "tcp_ok v (s\<lparr>srv := srv', inbox := (\<lambda>c. inbox s c @ out c)\<rparr>) c"
  using assms(1)
proof (cases rule: ack_effect_channel [where c = c])
  case same
  with assms(2) show ?thesis by (simp add: tcp_ok_def requests_of_def split: tcp_pc.splits)
next
  case (answered k)
  then show ?thesis
  proof (cases "tcp_at s c")
    case TcpWaiting
    with answered(1) assms(2) have "requests_of s c = {k}" "inbox s c = []" "ws_at s c = WsUnused"
      "written s c = []"
      by (auto simp: tcp_ok_def)
    with answered TcpWaiting show ?thesis by (simp add: tcp_ok_def requests_of_def)
  qed (use answered(1) assms(2) in \<open>auto simp: tcp_ok_def\<close>)
qed

lemma tcp_ok_cong:
  "tcp_at s' x = tcp_at s x \<Longrightarrow> ws_at s' x = ws_at s x \<Longrightarrow> requests_of s' x = requests_of s x \<Longrightarrow>
    inbox s' x = inbox s x \<Longrightarrow> written s' x = written s x \<Longrightarrow> tcp_ok v s' x = tcp_ok v s x"
  by (simp add: tcp_ok_def split: tcp_pc.split)

lemma tcp_ok_ws:
  "ws_at s x \<noteq> WsUnused \<Longrightarrow> tcp_ok v s x \<longleftrightarrow> tcp_at s x = TcpUnused \<and> written s x = []"
  by (simp add: tcp_ok_def split: tcp_pc.splits)

lemma routes_ok_init: "routes_ok rdv_init"
  by (simp add: routes_ok_def rdv_init_def server_new_def)

lemma tcp_ok_init: "tcp_ok v rdv_init x"
  by (simp add: tcp_ok_def requests_of_def rdv_init_def server_new_def)

lemma routes_ok_step:
  assumes "rdv_step v s s'" "routes_ok s"
  shows "routes_ok s'"
  using assms(1)
proof cases
  case (udp now r srv' acts)
  with assms(2) show ?thesis by (auto simp: routes_ok_def dest: udp_routes)
next
  case (tcp_first c a frame key srv' acts oc)
  with assms(2) tcp_first_effect(2) show ?thesis by (fastforce simp: routes_ok_def)
next
  case (ws_item c a item key now my_id' srv' acts)
  with assms(2) ws_item_effect(2) [OF ws_item(5,3)] show ?thesis by (fastforce simp: routes_ok_def)
next
  case (ws_end c a)
  with assms(2) show ?thesis by (auto simp: routes_ok_def dest: handle_ws_close_effect(2))
qed (use assms(2) in \<open>auto simp: routes_ok_def punch_lookup_def punch_insert_def\<close>)

text \<open>A notification, and an item that acknowledges nothing, leave every TCP connection as it is.\<close>

lemma tcp_ok_notify:
  assumes "tcp_ok v s x" "\<And>d. r = WsPush d \<Longrightarrow> ws_at s d \<noteq> WsUnused"
  shows "tcp_ok v (s\<lparr>inbox := deliver (punch_notify v r) (inbox s)\<rparr>) x"
proof (cases "r = WsPush x")
  case True
  with assms show ?thesis by (simp add: tcp_ok_ws)
next
  case False
  then show ?thesis
    using assms(1) by (subst tcp_ok_cong [of _ _ s]) (simp_all add: deliver_def msgs_to_notify)
qed

lemma tcp_ok_quiet:
  assumes "tcp_ok v s x" "pending srv' = pending (srv s)" "\<And>d. d \<noteq> c \<Longrightarrow> msgs_to d acts = []"
    and "ws_at s c \<noteq> WsUnused"
  shows "tcp_ok v (s\<lparr>srv := srv', inbox := deliver acts (inbox s)\<rparr>) x"
proof (cases "x = c")
  case True
  with assms(1,4) show ?thesis by (simp add: tcp_ok_ws)
next
  case False
  with assms(1-3) show ?thesis
    by (subst tcp_ok_cong [of _ _ s]) (auto simp: deliver_def requests_of_def)
qed

lemma tcp_ok_step:
  assumes "rdv_step v s s'" "routes_ok s" "\<forall>c. tcp_ok v s c"
  shows "tcp_ok v s' x"
proof -
  have x: "tcp_ok v s x" using assms(3) by simp
  from assms(1) show ?thesis
  proof cases
    case (udp now r srv' acts)
    then show ?thesis
      using x udp_handle_state(2) [of v now r "srv s"]
      by (subst tcp_ok_cong [of _ _ s]) (auto simp: deliver_def msgs_to_udp requests_of_def)
  next
    case (tcp_first c a frame key srv' acts oc)
    let ?t = "s\<lparr>srv := srv', inbox := deliver acts (inbox s)\<rparr>"
    have t: "tcp_ok v ?t x"
      using tcp_ok_ack [OF tcp_first_effect(1) [OF tcp_first(5,3)] x] by (simp add: deliver_def)
    show ?thesis
    proof (cases "x = c")
      case False
      with t tcp_first(1) show ?thesis by (subst tcp_ok_cong [of _ _ ?t]) (simp_all add: requests_of_def)
    next
      case True
      with t tcp_first(1,2) show ?thesis by (auto simp: tcp_ok_def requests_of_def)
    qed
  next
    case (tcp_notify c t r)
    let ?t = "s\<lparr>inbox := deliver (punch_notify v r) (inbox s)\<rparr>"
    have t: "tcp_ok v ?t x"
      using tcp_notify(2) assms(2) by (intro tcp_ok_notify [OF x]) (auto simp: routes_ok_def)
    show ?thesis
    proof (cases "x = c")
      case False
      with t tcp_notify(1) show ?thesis by (subst tcp_ok_cong [of _ _ ?t]) simp_all
    next
      case True
      with t tcp_notify show ?thesis by (simp add: tcp_ok_def)
    qed
  next
    case (tcp_insert c t)
    then show ?thesis
      using x by (cases "x = c") (auto simp: tcp_ok_def requests_of_def punch_insert_def split: tcp_pc.splits)
  next
    case (tcp_push c m ms)
    then show ?thesis
      using x by (cases "x = c") (auto simp: tcp_ok_def requests_of_def split: tcp_pc.splits)
  next
    case (ws_item c a item key now my_id' srv' acts)
    let ?t = "s\<lparr>srv := srv', inbox := deliver acts (inbox s)\<rparr>"
    have "tcp_ok v ?t x"
    proof (cases "ack_effect v (srv s) srv' (\<lambda>c. msgs_to c acts)")
      case True
      then show ?thesis using tcp_ok_ack [OF True x] by (simp add: deliver_def)
    next
      case False
      then show ?thesis
        using ws_item_effect(1) [OF ws_item(5,3)] ws_item(2) by (intro tcp_ok_quiet [OF x, of _ c]) auto
    qed
    then show ?thesis
      using ws_item(1) by (subst tcp_ok_cong [of _ _ ?t]) (simp_all add: requests_of_def)
  next
    case (ws_notify c a t r)
    let ?t = "s\<lparr>inbox := deliver (punch_notify v r) (inbox s)\<rparr>"
    have t: "tcp_ok v ?t x"
      using ws_notify(2) assms(2) by (intro tcp_ok_notify [OF x]) (auto simp: routes_ok_def)
    show ?thesis
    proof (cases "x = c")
      case False
      with t ws_notify(1) show ?thesis by (subst tcp_ok_cong [of _ _ ?t]) simp_all
    next
      case True
      with x ws_notify show ?thesis by (simp add: tcp_ok_ws)
    qed
  next
    case (ws_insert c a t)
    then show ?thesis
      using x by (cases "x = c") (auto simp: tcp_ok_def requests_of_def punch_insert_def split: tcp_pc.splits)
  next
    case (ws_end c a)
    then show ?thesis
      using x by (cases "x = c")
        (auto simp: tcp_ok_def requests_of_def handle_ws_close_effect split: tcp_pc.splits)
  next
    case (ws_write c m ms)
    then show ?thesis
      using x by (cases "x = c") (auto simp: tcp_ok_def requests_of_def split: tcp_pc.splits)
  qed (use x in \<open>auto simp: tcp_ok_def requests_of_def split: tcp_pc.splits\<close>)
qed

interpretation rdv_sys: safe_system rdv_init "rdv_step v" "rdv_reachable v" "\<lambda>s. routes_ok s \<and> (\<forall>c. tcp_ok v s c)" for v
proof
  show "routes_ok rdv_init \<and> (\<forall>c. tcp_ok v rdv_init c)" by (simp add: routes_ok_init tcp_ok_init)
  show "P s" if "rdv_reachable v s" "P rdv_init" "\<And>t u. rdv_reachable v t \<Longrightarrow> P t \<Longrightarrow> rdv_step v t u \<Longrightarrow> P u"
    for s and P using that by (rule rdv_reachable.induct)
qed (blast intro: rdv_reachable.intros routes_ok_step tcp_ok_step)+

section \<open>Properties of the whole server\<close>

text \<open>A waiting requester that nobody has a reason to answer.\<close>

definition forgotten :: "rdv \<Rightarrow> chan \<Rightarrow> bool" where
  "forgotten s c \<longleftrightarrow> tcp_at s c = TcpWaiting \<and> requests_of s c = {} \<and> inbox s c = [] \<and> written s c = []"

lemma forgotten_step:
  assumes "rdv_step v s s'" "routes_ok s" "\<forall>c. tcp_ok v s c" "forgotten s x"
  shows "forgotten s' x"
proof -
  have x: "tcp_at s x = TcpWaiting" "requests_of s x = {}" "inbox s x = []" "written s x = []"
    using assms(4) by (auto simp: forgotten_def)
  have ws: "ws_at s x = WsUnused"
    using assms(3) x(1) by (auto simp: tcp_ok_def split: tcp_pc.splits dest: spec [of _ x])
  have no_route: "deliver (punch_notify v r) (inbox s) x = []" if "r \<noteq> WsPush x" for r
    using that x(3) by (simp add: deliver_def msgs_to_notify)
  have acked: "requests_of (s\<lparr>srv := srv'\<rparr>) x = {} \<and> out x = []"
    if "ack_effect v (srv s) srv' out" for srv' out
    using that by (rule ack_effect_channel [where c = x]) (use x(2) in auto)
  from assms(1) show ?thesis
  proof cases
    case (udp now r srv' acts)
    with x udp_handle_state(2) [of v now r "srv s"] show ?thesis
      by (auto simp: forgotten_def requests_of_def deliver_def msgs_to_udp)
  next
    case (tcp_first c a frame key srv' acts oc)
    with x acked [OF tcp_first_effect(1) [OF tcp_first(5,3)]] show ?thesis
      by (auto simp: forgotten_def requests_of_def deliver_def)
  next
    case (tcp_notify c t r)
    then have "r \<noteq> WsPush x" using assms(2) ws by (auto simp: routes_ok_def)
    with x tcp_notify no_route show ?thesis by (auto simp: forgotten_def requests_of_def)
  next
    case (ws_notify c a t r)
    then have "r \<noteq> WsPush x" using assms(2) ws by (auto simp: routes_ok_def)
    with x ws_notify no_route show ?thesis by (auto simp: forgotten_def requests_of_def)
  next
    case (ws_item c a item key now my_id' srv' acts)
    then have "c \<noteq> x" using ws by auto
    with ws_item_effect(1) [OF ws_item(5,3)] acked [of srv' "\<lambda>c. msgs_to c acts"] x ws_item(1)
    show ?thesis by (auto simp: forgotten_def requests_of_def deliver_def)
  next
    case (ws_end c a)
    with x show ?thesis by (auto simp: forgotten_def requests_of_def handle_ws_close_effect)
  qed (use x ws in \<open>auto simp: forgotten_def requests_of_def punch_insert_def\<close>)
qed

lemma forgotten_forever:
  assumes "rtranclp (rdv_step v) s s'" "rdv_reachable v s" "forgotten s x"
  shows "forgotten s' x"
  using assms by (rule rdv_sys.run_keeps) (use rdv_sys.reach_safe forgotten_step in blast)

text \<open>
  Connection \<open>c\<close> has asked for a registered target: at an earlier moment its task read a punch
  request and found a route for it.
\<close>

definition asked :: "env \<Rightarrow> chan \<Rightarrow> rdv \<Rightarrow> bool" where
  "asked v c s \<longleftrightarrow>
     (\<exists>a t u bs ph r. rdv_reachable v t \<and> tcp_at t c = TcpReading a
       \<and> punch_of v bs = Some ph \<and> registry_get (ph_id ph) (peers (srv t)) = Some r
       \<and> u = t\<lparr>tcp_at := (tcp_at t)(c := TcpNotifying (ph_id ph) r)\<rparr> \<and> rdv_step v t u \<and> rtranclp (rdv_step v) u s)"

lemma askedI:
  "rdv_reachable v t \<Longrightarrow> tcp_at t c = TcpReading a \<Longrightarrow> punch_of v bs = Some ph \<Longrightarrow>
    registry_get (ph_id ph) (peers (srv t)) = Some r \<Longrightarrow>
    rdv_step v t (t\<lparr>tcp_at := (tcp_at t)(c := TcpNotifying (ph_id ph) r)\<rparr>) \<Longrightarrow>
    rtranclp (rdv_step v) (t\<lparr>tcp_at := (tcp_at t)(c := TcpNotifying (ph_id ph) r)\<rparr>) s \<Longrightarrow> asked v c s"
  unfolding asked_def by blast

lemma asked_step:
  assumes "asked v c s" "rdv_step v s s'"
  shows "asked v c s'"
proof -
  obtain a t bs ph r where t: "rdv_reachable v t" "tcp_at t c = TcpReading a" "punch_of v bs = Some ph"
    "registry_get (ph_id ph) (peers (srv t)) = Some r"
    "rdv_step v t (t\<lparr>tcp_at := (tcp_at t)(c := TcpNotifying (ph_id ph) r)\<rparr>)"
    and run: "rtranclp (rdv_step v) (t\<lparr>tcp_at := (tcp_at t)(c := TcpNotifying (ph_id ph) r)\<rparr>) s"
    using assms(1) unfolding asked_def by blast
  show ?thesis by (rule askedI [OF t rtranclp.rtrancl_into_rtrancl [OF run assms(2)]])
qed

definition unasked :: "rdv \<Rightarrow> chan \<Rightarrow> bool" where
  "unasked s c \<longleftrightarrow> tcp_at s c = TcpUnused \<or> (\<exists>a. tcp_at s c = TcpReading a) \<or> forgotten s c
     \<or> tcp_at s c = TcpClosed \<and> written s c = []"

lemma unasked_other:
  assumes "unasked s x" "tcp_at s' x = tcp_at s x" "written s' x = written s x" "forgotten s x \<Longrightarrow> forgotten s' x"
  shows "unasked s' x"
  using assms by (auto simp: unasked_def)

lemma unasked_step:
  assumes "rdv_reachable v s" "rdv_step v s s'" "unasked s x" "routes_ok s" "\<forall>c. tcp_ok v s c"
  shows "unasked s' x \<or> asked v x s'"
proof -
  have ok: "tcp_ok v s x" using assms(5) by blast
  note other = unasked_other [OF assms(3) _ _ forgotten_step [OF assms(2,4,5)]]
  from assms(2) show ?thesis
  proof cases
    case (tcp_first c a frame key srv' acts oc)
    then show ?thesis
      using other ok by (cases "x = c") (auto simp: unasked_def tcp_ok_def)
  next
    case (tcp_offline c a bs ph)
    then show ?thesis
      using other ok by (cases "x = c") (auto simp: unasked_def tcp_ok_def forgotten_def)
  next
    case (tcp_found c a bs ph r)
    show ?thesis
    proof (cases "x = c")
      case True
      have "asked v c s'"
        unfolding tcp_found(1)
        by (rule askedI [OF assms(1) tcp_found(2,3) _ _ rtranclp.rtrancl_refl])
          (use assms(2) tcp_found(1,4) in \<open>simp_all add: punch_lookup_def\<close>)
      with True show ?thesis by simp
    qed (use other tcp_found in auto)
  next
    case (tcp_notify c t r)
    then show ?thesis using other assms(3) by (cases "x = c") (auto simp: unasked_def forgotten_def)
  next
    case (tcp_insert c t)
    then show ?thesis using other assms(3) by (cases "x = c") (auto simp: unasked_def forgotten_def)
  next
    case (tcp_push c m ms)
    then show ?thesis using other assms(3) by (cases "x = c") (auto simp: unasked_def forgotten_def)
  next
    case (tcp_open c a)
    then show ?thesis using other by (cases "x = c") (auto simp: unasked_def)
  qed (use other in auto)
qed

lemma answered_asked:
  assumes "rdv_reachable v s"
  shows "unasked s x \<or> asked v x s"
  using assms
proof induction
  case init
  show ?case by (simp add: unasked_def rdv_init_def)
next
  case (step s s')
  then show ?case using unasked_step [of v s s' x] asked_step rdv_sys.reach_safe by blast
qed

text \<open>
  C9. Whatever the connections send and however their tasks interleave, a TCP requester is
  written at most one frame, and that frame is the encoded \<open>RelayResponse\<close> with the configured
  relay address; it is written only to a connection whose own task, earlier in the run, had read
  a punch request and found its target registered, and before that (a connection that is still to
  send its first message, or was closed for sending another one) nothing is
  written, queued or pending for it; and every push route of the registry leads to a WebSocket
  connection, never to a TCP requester's channel.
\<close>

theorem tcp_requester_safe:
  assumes "rdv_reachable v s"
  shows "(written s c = [] \<or> written s c = handle_tcp_push v (Some (relay_response_msg v)))
    \<and> (written s c \<noteq> [] \<longrightarrow>
        (\<exists>a t u bs ph r. rdv_reachable v t \<and> tcp_at t c = TcpReading a
          \<and> punch_of v bs = Some ph \<and> registry_get (ph_id ph) (peers (srv t)) = Some r
          \<and> u = t\<lparr>tcp_at := (tcp_at t)(c := TcpNotifying (ph_id ph) r)\<rparr> \<and> rdv_step v t u \<and> rtranclp (rdv_step v) u s))
    \<and> (tcp_at s c = TcpReading a \<longrightarrow> written s c = [] \<and> inbox s c = [] \<and> (\<forall>k. pending (srv s) k \<noteq> Some c))
    \<and> (registry_get i (peers (srv s)) = Some (WsPush d) \<longrightarrow> ws_at s d \<noteq> WsUnused \<and> tcp_at s d = TcpUnused)"
proof (intro conjI impI)
  have ok: "routes_ok s" "tcp_ok v s c" "tcp_ok v s d"
    using rdv_sys.reach_safe [OF assms] by auto
  show "written s c = [] \<or> written s c = handle_tcp_push v (Some (relay_response_msg v))"
    using ok(2) by (auto simp: tcp_ok_def split: tcp_pc.splits)
  show "\<exists>a t u bs ph r. rdv_reachable v t \<and> tcp_at t c = TcpReading a
      \<and> punch_of v bs = Some ph \<and> registry_get (ph_id ph) (peers (srv t)) = Some r
      \<and> u = t\<lparr>tcp_at := (tcp_at t)(c := TcpNotifying (ph_id ph) r)\<rparr> \<and> rdv_step v t u \<and> rtranclp (rdv_step v) u s"
    if "written s c \<noteq> []"
  proof -
    have "\<not> unasked s c" using that ok(2) by (auto simp: unasked_def forgotten_def tcp_ok_def)
    with answered_asked [OF assms, of c] show ?thesis unfolding asked_def by simp
  qed
  show "written s c = []" "inbox s c = []" "\<forall>k. pending (srv s) k \<noteq> Some c" if "tcp_at s c = TcpReading a"
    using that ok(2) by (auto simp: tcp_ok_def requests_of_def)
  assume "registry_get i (peers (srv s)) = Some (WsPush d)"
  with ok(1) have "ws_at s d \<noteq> WsUnused" by (auto simp: routes_ok_def)
  then show "ws_at s d \<noteq> WsUnused" .
  with ok(3) show "tcp_at s d = TcpUnused" by (simp add: tcp_ok_ws)
qed

text \<open>
  C10. A requester that asks for a target which is not registered is never answered: its
  handler waits on a channel whose only sender it holds itself, so in no continuation of the
  run, whatever else connects, registers or acknowledges, does it write a byte or return.
\<close>

theorem offline_requester_hangs:
  assumes "rdv_reachable v s" "tcp_at s c = TcpReading a"
    and "punch_of v bs = Some ph" "registry_get (ph_id ph) (peers (srv s)) = None"
    and "rtranclp (rdv_step v) (s\<lparr>tcp_at := (tcp_at s)(c := TcpWaiting)\<rparr>) s'"
  shows "rdv_step v s (s\<lparr>tcp_at := (tcp_at s)(c := TcpWaiting)\<rparr>)
    \<and> tcp_at s' c = TcpWaiting \<and> written s' c = []"
proof -
  let ?t = "s\<lparr>tcp_at := (tcp_at s)(c := TcpWaiting)\<rparr>"
  have st: "rdv_step v s ?t"
    using assms(2-4) by (intro rdv_step.tcp_offline) (auto simp: punch_lookup_def)
  have "tcp_ok v s c" using rdv_sys.reach_safe [OF assms(1)] by auto
  with assms(2) have "forgotten ?t c" by (auto simp: tcp_ok_def forgotten_def requests_of_def)
  with forgotten_forever [OF assms(5)] rdv_reachable.step [OF assms(1) st] st show ?thesis
    by (auto simp: forgotten_def)
qed

text \<open>
  C11. A second request for the same target displaces the first: when connection \<open>d\<close> inserts
  its request for a target that \<open>c\<close> is waiting for, \<open>c\<close> is never answered in any continuation
  of the run.
\<close>

theorem displaced_requester_hangs:
  assumes "rdv_reachable v s" "tcp_at s c = TcpWaiting" "pending (srv s) t = Some c"
    and "tcp_at s d = TcpInserting t"
    and "rtranclp (rdv_step v)
      (s\<lparr>srv := punch_insert t d (srv s), tcp_at := (tcp_at s)(d := TcpWaiting)\<rparr>) s'"
  shows "tcp_at s' c = TcpWaiting \<and> written s' c = []"
proof -
  let ?t = "s\<lparr>srv := punch_insert t d (srv s), tcp_at := (tcp_at s)(d := TcpWaiting)\<rparr>"
  have st: "rdv_step v s ?t" using assms(4) by (rule rdv_step.tcp_insert)
  have "c \<noteq> d" using assms(2,4) by auto
  have "tcp_ok v s c" using rdv_sys.reach_safe [OF assms(1)] by auto
  with assms(2,3) have "requests_of s c = {t}" "inbox s c = []" "written s c = []"
    by (auto simp: tcp_ok_def requests_of_def)
  with \<open>c \<noteq> d\<close> assms(2) have "forgotten ?t c"
    by (auto simp: forgotten_def requests_of_def punch_insert_def)
  with forgotten_forever [OF assms(5)] rdv_reachable.step [OF assms(1) st] show ?thesis
    by (auto simp: forgotten_def)
qed

lemma ack_after_insert:
  assumes "tcp_at s c = TcpInserting t" "tcp_at s d = TcpReading a" "pending (srv s) = Map.empty"
    and "pb_decode v bs = Some (union_msg (RelayResponse ack))"
  shows "\<exists>s'. rtranclp (rdv_step v) s s' \<and> tcp_at s' c = TcpWaiting \<and> tcp_at s' d = TcpClosed
      \<and> pending (srv s') = Map.empty \<and> inbox s' c = inbox s c @ [relay_response_msg v]
      \<and> written s' = written s"
proof -
  have np: "\<not> is_punch_frame v (FrameOk bs)"
    using assms(4) by (simp add: is_punch_frame_def punch_of_def)
  have cd: "c \<noteq> d" using assms(1,2) by auto
  let ?ins = "s\<lparr>srv := punch_insert t c (srv s), tcp_at := (tcp_at s)(c := TcpWaiting)\<rparr>"
  have pins: "pending (srv ?ins) = [t \<mapsto> c]" using assms(3) by (simp add: punch_insert_def)
  have "rdv_step v s ?ins" using assms(1) by (rule rdv_step.tcp_insert)
  moreover obtain srv1 acts1 oc1 where h1: "handle_tcp_first v d a (Some t) (FrameOk bs) (srv ?ins) = (srv1, acts1, oc1)"
    by (cases "handle_tcp_first v d a (Some t) (FrameOk bs) (srv ?ins)")
  let ?fin = "?ins\<lparr>srv := srv1, inbox := deliver acts1 (inbox ?ins), tcp_at := (tcp_at ?ins)(d := TcpClosed)\<rparr>"
  have "rdv_step v ?ins ?fin"
    by (rule rdv_step.tcp_first [OF _ np _ h1]) (use assms(2) cd pins in \<open>auto simp: first_key_def\<close>)
  moreover have "pending srv1 = Map.empty" "msgs_to c acts1 = [relay_response_msg v]"
    using h1 pins by (auto simp: decode_union_handlers(3) [OF assms(4)] dispatch_relay_ack_def)
  ultimately show ?thesis
    using cd by (intro exI [of _ ?fin]) (auto simp: deliver_def)
qed

text \<open>
  The suspension points matter: while a requester's task is between notifying the target
  and recording the request, the target's acknowledgement may already arrive. If the insert
  comes first, the requester has its answer queued; if the acknowledgement comes first, it is
  dropped, and the requester waits with its request recorded but nothing queued.
\<close>

theorem ack_races_with_insert:
  assumes "tcp_at s c = TcpInserting t" "tcp_at s d = TcpReading a" "pending (srv s) = Map.empty"
    and "pb_decode v bs = Some (union_msg (RelayResponse ack))"
  shows "(\<exists>s'. rtranclp (rdv_step v) s s' \<and> tcp_at s' c = TcpWaiting \<and> tcp_at s' d = TcpClosed
      \<and> pending (srv s') = Map.empty \<and> inbox s' c = inbox s c @ [relay_response_msg v])
    \<and> (\<exists>s'. rtranclp (rdv_step v) s s' \<and> tcp_at s' c = TcpWaiting \<and> tcp_at s' d = TcpClosed
      \<and> pending (srv s') = [t \<mapsto> c] \<and> inbox s' c = inbox s c)"
proof
  show "\<exists>s'. rtranclp (rdv_step v) s s' \<and> tcp_at s' c = TcpWaiting \<and> tcp_at s' d = TcpClosed
      \<and> pending (srv s') = Map.empty \<and> inbox s' c = inbox s c @ [relay_response_msg v]"
    using ack_after_insert [OF assms] by blast
next
  have np: "\<not> is_punch_frame v (FrameOk bs)"
    using assms(4) by (simp add: is_punch_frame_def punch_of_def)
  have cd: "c \<noteq> d" using assms(1,2) by auto
  obtain srv1 acts1 oc1 where h1: "handle_tcp_first v d a None (FrameOk bs) (srv s) = (srv1, acts1, oc1)"
    by (cases "handle_tcp_first v d a None (FrameOk bs) (srv s)")
  let ?ack = "s\<lparr>srv := srv1, inbox := deliver acts1 (inbox s), tcp_at := (tcp_at s)(d := TcpClosed)\<rparr>"
  have "rdv_step v s ?ack"
    by (rule rdv_step.tcp_first [OF _ np _ h1]) (use assms(2,3) in \<open>auto simp: first_key_def\<close>)
  moreover have eff: "pending srv1 = Map.empty" "msgs_to c acts1 = []"
    using h1 assms(3) by (auto simp: decode_union_handlers(3) [OF assms(4)] dispatch_relay_ack_def)
  let ?fin = "?ack\<lparr>srv := punch_insert t c (srv ?ack), tcp_at := (tcp_at ?ack)(c := TcpWaiting)\<rparr>"
  have "rdv_step v ?ack ?fin"
    by (rule rdv_step.tcp_insert) (use assms(1) cd in simp)
  ultimately show "\<exists>s'. rtranclp (rdv_step v) s s' \<and> tcp_at s' c = TcpWaiting \<and> tcp_at s' d = TcpClosed
      \<and> pending (srv s') = [t \<mapsto> c] \<and> inbox s' c = inbox s c"
    using cd eff by (intro exI [of _ ?fin]) (auto simp: deliver_def punch_insert_def)
qed

text \<open>
  The steps refine the handler: run without interruption, a TCP task that reads a punch
  request reaches the state that the sequential handler \<open>handle_tcp_first\<close> computes, with the
  actions it takes delivered, and is then waiting.
\<close>

theorem tcp_punch_refines_handler:
  assumes "tcp_at s c = TcpReading a" "punch_of v bs = Some ph"
    and "handle_tcp_first v c a key (FrameOk bs) (srv s) = (srv', acts, oc)"
  shows "oc = TcpAwaiting \<and> rtranclp (rdv_step v) s
    (s\<lparr>srv := srv', inbox := deliver acts (inbox s), tcp_at := (tcp_at s)(c := TcpWaiting)\<rparr>)"
proof -
  have dec: "pb_decode v bs = Some (union_msg (PunchHoleRequest ph))"
    using assms(2) 
    by (auto simp: punch_of_def union_msg_def rendezvous_message_default_def
        split: option.splits union.splits intro: rendezvous_message.equality)
  have r: "srv' = fst (dispatch_punch v (ph_id ph) c (srv s))" "oc = TcpAwaiting"
    "deliver acts (inbox s) = deliver (snd (dispatch_punch v (ph_id ph) c (srv s))) (inbox s)"
    using assms(3) by (auto simp: decode_union_handlers(2) [OF dec] deliver_def)
  show ?thesis
  proof (cases "punch_lookup (ph_id ph) (srv s)")
    case None
    have "rdv_step v s (s\<lparr>tcp_at := (tcp_at s)(c := TcpWaiting)\<rparr>)"
      by (rule rdv_step.tcp_offline [OF assms(1,2) None])
    moreover have "srv' = srv s" "deliver acts (inbox s) = inbox s"
      using r None by (auto simp: dispatch_punch_def deliver_def)
    ultimately show ?thesis using r(2) by (simp add: r_into_rtranclp)
  next
    case (Some t)
    let ?s1 = "s\<lparr>tcp_at := (tcp_at s)(c := TcpNotifying (ph_id ph) t)\<rparr>"
    let ?s2 = "?s1\<lparr>inbox := deliver (punch_notify v t) (inbox ?s1),
      tcp_at := (tcp_at ?s1)(c := TcpInserting (ph_id ph))\<rparr>"
    let ?s3 = "?s2\<lparr>srv := punch_insert (ph_id ph) c (srv ?s2), tcp_at := (tcp_at ?s2)(c := TcpWaiting)\<rparr>"
    have "rdv_step v s ?s1" by (rule rdv_step.tcp_found [OF assms(1,2) Some])
    moreover have "rdv_step v ?s1 ?s2" by (rule rdv_step.tcp_notify) simp
    moreover have "rdv_step v ?s2 ?s3" by (rule rdv_step.tcp_insert) simp
    ultimately have "rtranclp (rdv_step v) s ?s3" by auto
    moreover have "?s3 = s\<lparr>srv := srv', inbox := deliver acts (inbox s), tcp_at := (tcp_at s)(c := TcpWaiting)\<rparr>"
      using r Some by (simp add: dispatch_punch_def)
    ultimately show ?thesis using r(2) by simp
  qed
qed

section \<open>Witnesses\<close>

lemma demo_punch_of: "punch_of demo_env [2] = Some demo_punch" "ph_id demo_punch = ''p''"
  by (simp_all add: punch_of_def demo_pb demo_punch_def)

lemma tcp_opened:
  assumes "rdv_reachable v s" "tcp_at s c = TcpUnused" "ws_at s c = WsUnused"
  shows "rdv_reachable v (s\<lparr>tcp_at := (tcp_at s)(c := TcpReading a)\<rparr>)"
  using assms by (blast intro: rdv_reachable.step rdv_step.tcp_open)

lemma reaches_inserting:
  assumes "rdv_reachable v s" "tcp_at s c = TcpUnused" "ws_at s c = WsUnused"
    and "punch_of v bs = Some ph" "registry_get (ph_id ph) (peers (srv s)) = Some (Udp a)"
  obtains s' where "rdv_reachable v s'" "srv s' = srv s" "ws_at s' = ws_at s" "inbox s' = inbox s"
    "tcp_at s' = (tcp_at s)(c := TcpInserting (ph_id ph))"
proof -
  let ?s1 = "s\<lparr>tcp_at := (tcp_at s)(c := TcpReading a)\<rparr>"
  let ?s2 = "?s1\<lparr>tcp_at := (tcp_at ?s1)(c := TcpNotifying (ph_id ph) (Udp a))\<rparr>"
  let ?s3 = "?s2\<lparr>inbox := deliver (punch_notify v (Udp a)) (inbox ?s2),
    tcp_at := (tcp_at ?s2)(c := TcpInserting (ph_id ph))\<rparr>"
  have "rdv_reachable v ?s1" using assms(1-3) by (rule tcp_opened)
  moreover have "rdv_step v ?s1 ?s2"
    by (rule rdv_step.tcp_found [OF _ assms(4)]) (use assms(5) in \<open>auto simp: punch_lookup_def\<close>)
  moreover have "rdv_step v ?s2 ?s3" by (rule rdv_step.tcp_notify) simp
  ultimately have "rdv_reachable v ?s3" by (blast intro: rdv_reachable.step)
  then show thesis by (rule that) (simp_all add: deliver_def punch_notify_def)
qed

lemma demo_registered:
  obtains s where "rdv_reachable demo_env s" "registry_get ''p'' (peers (srv s)) = Some (Udp demo_addr)"
    "pending (srv s) = Map.empty" "tcp_at s = (\<lambda>_. TcpUnused)" "ws_at s = (\<lambda>_. WsUnused)"
    "inbox s = (\<lambda>_. [])"
proof -
  obtain srv' acts where u: "udp_handle demo_env 7 (Datagram [1] demo_addr) (srv rdv_init) = (srv', acts)"
    by (cases "udp_handle demo_env 7 (Datagram [1] demo_addr) (srv rdv_init)")
  from u have "peers srv' = upsert 7 ''p'' (Udp demo_addr) registry_new" "pending srv' = Map.empty"
    by (auto simp: decode_union_handlers(1) [OF demo_pb(1)] server_new_def rdv_init_def)
  moreover have "rdv_reachable demo_env (rdv_init\<lparr>srv := srv', inbox := deliver acts (inbox rdv_init)\<rparr>)"
    using u by (blast intro: rdv_reachable.intros rdv_step.udp)
  ultimately show thesis
    by (intro that [of "rdv_init\<lparr>srv := srv', inbox := deliver acts (inbox rdv_init)\<rparr>"])
       (simp_all add: rdv_init_def deliver_def msgs_to_udp [OF u])
qed

theorem offline_requester_hangs_witness:
  "\<exists>s. rdv_reachable demo_env s \<and> tcp_at s 5 = TcpWaiting \<and> written s 5 = []"
proof -
  let ?s = "rdv_init\<lparr>tcp_at := (tcp_at rdv_init)(5 := TcpReading demo_addr)\<rparr>"
  have r: "rdv_reachable demo_env ?s"
    by (rule tcp_opened [OF rdv_reachable.init]) (simp_all add: rdv_init_def)
  have o: "registry_get (ph_id demo_punch) (peers (srv ?s)) = None"
    by (simp add: rdv_init_def server_new_def)
  have "tcp_at ?s 5 = TcpReading demo_addr" by simp
  from offline_requester_hangs [OF r this demo_punch_of(1) o rtranclp.rtrancl_refl]
  show ?thesis using r by (blast intro: rdv_reachable.step)
qed

theorem displaced_requester_hangs_witness:
  "\<exists>s. rdv_reachable demo_env s \<and> pending (srv s) ''p'' = Some 6 \<and> tcp_at s 5 = TcpWaiting \<and> written s 5 = []"
proof -
  obtain s0 where s0: "rdv_reachable demo_env s0"
    "registry_get ''p'' (peers (srv s0)) = Some (Udp demo_addr)"
    "tcp_at s0 = (\<lambda>_. TcpUnused)" "ws_at s0 = (\<lambda>_. WsUnused)"
    by (rule demo_registered)
  obtain s1 where s1: "rdv_reachable demo_env s1" "srv s1 = srv s0" "ws_at s1 = ws_at s0"
    "tcp_at s1 = (tcp_at s0)(5 := TcpInserting ''p'')"
    by (rule reaches_inserting [OF s0(1) _ _ demo_punch_of(1), where c = 5 and a = demo_addr])
       (use s0 in \<open>auto simp: demo_punch_of(2)\<close>)
  let ?s2 = "s1\<lparr>srv := punch_insert ''p'' 5 (srv s1), tcp_at := (tcp_at s1)(5 := TcpWaiting)\<rparr>"
  have s2: "rdv_reachable demo_env ?s2"
    using s1 by (intro rdv_reachable.step [OF s1(1)] rdv_step.tcp_insert) simp
  obtain s3 where s3: "rdv_reachable demo_env s3" "srv s3 = srv ?s2"
    "tcp_at s3 = (tcp_at ?s2)(6 := TcpInserting ''p'')"
    by (rule reaches_inserting [OF s2 _ _ demo_punch_of(1), where c = 6 and a = demo_addr])
       (use s0 s1 in \<open>auto simp: demo_punch_of(2) punch_insert_def\<close>)
  have w: "tcp_at s3 5 = TcpWaiting" "pending (srv s3) ''p'' = Some 5" "tcp_at s3 6 = TcpInserting ''p''"
    using s3 by (auto simp: punch_insert_def)
  let ?s4 = "s3\<lparr>srv := punch_insert ''p'' 6 (srv s3), tcp_at := (tcp_at s3)(6 := TcpWaiting)\<rparr>"
  from displaced_requester_hangs [OF s3(1) w rtranclp.rtrancl_refl]
  have "tcp_at ?s4 5 = TcpWaiting \<and> written ?s4 5 = []" .
  moreover have "rdv_reachable demo_env ?s4"
    by (rule rdv_reachable.step [OF s3(1) rdv_step.tcp_insert [OF w(3)]])
  moreover have "pending (srv ?s4) ''p'' = Some 6" by (simp add: punch_insert_def)
  ultimately show ?thesis by (intro exI [of _ ?s4] conjI) (simp_all only:)
qed

theorem ack_races_with_insert_witness:
  "\<exists>s. rdv_reachable demo_env s \<and> tcp_at s 5 = TcpWaiting \<and> tcp_at s 6 = TcpClosed
    \<and> pending (srv s) = [''p'' \<mapsto> 5] \<and> inbox s 5 = []"
proof -
  obtain s0 where s0: "rdv_reachable demo_env s0"
    "registry_get ''p'' (peers (srv s0)) = Some (Udp demo_addr)" "pending (srv s0) = Map.empty"
    "tcp_at s0 = (\<lambda>_. TcpUnused)" "ws_at s0 = (\<lambda>_. WsUnused)" "inbox s0 = (\<lambda>_. [])"
    by (rule demo_registered)
  obtain s1 where s1: "rdv_reachable demo_env s1" "srv s1 = srv s0" "ws_at s1 = ws_at s0"
    "inbox s1 = inbox s0" "tcp_at s1 = (tcp_at s0)(5 := TcpInserting ''p'')"
    by (rule reaches_inserting [OF s0(1) _ _ demo_punch_of(1), where c = 5 and a = demo_addr])
       (use s0 in \<open>auto simp: demo_punch_of(2)\<close>)
  let ?s2 = "s1\<lparr>tcp_at := (tcp_at s1)(6 := TcpReading demo_addr)\<rparr>"
  have s2: "rdv_reachable demo_env ?s2"
    by (rule tcp_opened [OF s1(1)]) (use s0 s1 in auto)
  have pc: "tcp_at ?s2 5 = TcpInserting ''p''" "tcp_at ?s2 6 = TcpReading demo_addr"
    "pending (srv ?s2) = Map.empty"
    using s0 s1 by auto
  from ack_races_with_insert [OF pc demo_pb(3), THEN conjunct2] obtain s' where
    "rtranclp (rdv_step demo_env) ?s2 s'" "tcp_at s' 5 = TcpWaiting" "tcp_at s' 6 = TcpClosed"
    "pending (srv s') = [''p'' \<mapsto> 5]" "inbox s' 5 = inbox ?s2 5"
    by blast
  then show ?thesis
    using rdv_sys.reach_run [OF _ s2] s0 s1 by (intro exI [of _ s']) auto
qed

theorem tcp_punch_refines_handler_witness:
  "\<exists>s'. rtranclp (rdv_step demo_env) (rdv_init\<lparr>tcp_at := (tcp_at rdv_init)(5 := TcpReading demo_addr)\<rparr>) s'
    \<and> tcp_at s' 5 = TcpWaiting"
proof -
  let ?s = "rdv_init\<lparr>tcp_at := (tcp_at rdv_init)(5 := TcpReading demo_addr)\<rparr>"
  obtain srv' acts oc where h: "handle_tcp_first demo_env 5 demo_addr None (FrameOk [2]) (srv ?s) = (srv', acts, oc)"
    by (cases "handle_tcp_first demo_env 5 demo_addr None (FrameOk [2]) (srv ?s)")
  have "tcp_at ?s 5 = TcpReading demo_addr" by simp
  from tcp_punch_refines_handler [OF this demo_punch_of(1) h] show ?thesis
    by (intro exI [of _ "?s\<lparr>srv := srv', inbox := deliver acts (inbox ?s), tcp_at := (tcp_at ?s)(5 := TcpWaiting)\<rparr>"])
       simp
qed

theorem tcp_requester_safe_witness:
  "\<exists>s. rdv_reachable demo_env s \<and> written s 5 = [WriteTcp [4, 30]]
    \<and> written s 5 = handle_tcp_push demo_env (Some (relay_response_msg demo_env))
    \<and> (\<exists>a t bs ph. rdv_reachable demo_env t \<and> tcp_at t 5 = TcpReading a \<and> punch_of demo_env bs = Some ph)"
proof -
  obtain s0 where s0: "rdv_reachable demo_env s0"
    "registry_get ''p'' (peers (srv s0)) = Some (Udp demo_addr)" "pending (srv s0) = Map.empty"
    "tcp_at s0 = (\<lambda>_. TcpUnused)" "ws_at s0 = (\<lambda>_. WsUnused)" "inbox s0 = (\<lambda>_. [])"
    by (rule demo_registered)
  obtain s1 where s1: "rdv_reachable demo_env s1" "srv s1 = srv s0" "ws_at s1 = ws_at s0"
    "inbox s1 = inbox s0" "tcp_at s1 = (tcp_at s0)(5 := TcpInserting ''p'')"
    by (rule reaches_inserting [OF s0(1) _ _ demo_punch_of(1), where c = 5 and a = demo_addr])
       (use s0 in \<open>auto simp: demo_punch_of(2)\<close>)
  let ?s2 = "s1\<lparr>tcp_at := (tcp_at s1)(6 := TcpReading demo_addr)\<rparr>"
  have s2: "rdv_reachable demo_env ?s2"
    by (rule tcp_opened [OF s1(1)]) (use s0 s1 in auto)
  have "tcp_at ?s2 5 = TcpInserting ''p''" "tcp_at ?s2 6 = TcpReading demo_addr"
    "pending (srv ?s2) = Map.empty"
    using s0 s1 by auto
  from ack_after_insert [OF this demo_pb(3)] obtain s3 where
    s3: "rtranclp (rdv_step demo_env) ?s2 s3" "tcp_at s3 5 = TcpWaiting"
    "inbox s3 5 = [relay_response_msg demo_env]" "written s3 = written s1"
    using s0 s1 by auto
  have r3: "rdv_reachable demo_env s3" using rdv_sys.reach_run [OF s3(1) s2] .
  let ?s4 = "s3\<lparr>inbox := (inbox s3)(5 := []), tcp_at := (tcp_at s3)(5 := TcpClosed),
    written := (written s3)(5 := written s3 5 @ handle_tcp_push demo_env (Some (relay_response_msg demo_env)))\<rparr>"
  have r4: "rdv_reachable demo_env ?s4"
    by (rule rdv_reachable.step [OF r3]) (rule rdv_step.tcp_push [OF s3(2,3)])
  have push: "handle_tcp_push demo_env (Some (relay_response_msg demo_env)) = [WriteTcp [4, 30]]"
    by (simp add: handle_tcp_push_def demo_pb encode_def encode_head_len_def encode_header_def codec_new_def MAX_PACKET_def)
  then have w: "written ?s4 5 \<noteq> []" by simp
  note safe = tcp_requester_safe [OF r4, of 5]
  have asked: "\<exists>a t bs ph. rdv_reachable demo_env t \<and> tcp_at t 5 = TcpReading a \<and> punch_of demo_env bs = Some ph"
    using safe w by blast
  have "written ?s4 5 = handle_tcp_push demo_env (Some (relay_response_msg demo_env))"
    using safe w by blast
  with r4 push asked show ?thesis by (intro exI [of _ ?s4] conjI) (simp_all only:)
qed

end
