(* ===== verification/Relay.thy ===== *)
theory Relay
  imports Relay_Prelude "HOL-Library.Multiset"
begin

text \<open>
  The relay of \<open>crates/relay/src/main.rs\<close>: the waiting slot and \<open>pair_or_wait\<close>, the two
  acceptor tasks that share the slot. \<open>pair_or_wait\<close> takes the slot's lock twice, so the
  acceptors are modelled with one step per lock acquisition, and one for the WebSocket
  handshake. What a pair then does is in \<open>Relay_Pumps\<close>.
\<close>

section \<open>Pairing\<close>

datatype side = Tcp nat | Ws nat

text \<open>\<open>slot.take()\<close> and \<open>slot.replace(side)\<close>: the value returned, and the new slot.\<close>

definition slot_take :: "side option \<Rightarrow> side option \<times> side option" where
  "slot_take slot = (slot, None)"

definition slot_replace :: "side \<Rightarrow> side option \<Rightarrow> side option \<times> side option" where
  "slot_replace side slot = (slot, Some side)"

datatype pairing = Spawned side side | Parked "side option"

text \<open>
  The second half of \<open>pair_or_wait\<close>: with a partner the pair is spawned; without one the
  connection is parked, and whatever \<open>replace\<close> returns is dropped.
\<close>

definition pair_finish :: "side \<Rightarrow> side option \<Rightarrow> side option \<Rightarrow> pairing \<times> side option" where
  "pair_finish side partner slot =
     (case partner of
        Some other \<Rightarrow> (Spawned side other, slot)
      | None \<Rightarrow> (let (old, slot') = slot_replace side slot in (Parked old, slot')))"

definition pair_or_wait :: "side \<Rightarrow> side option \<Rightarrow> pairing \<times> side option" where
  "pair_or_wait side slot = (let (partner, slot') = slot_take slot in pair_finish side partner slot')"

text \<open>An acceptor that is alone: the pairs spawned for a list of arriving connections.\<close>

fun serve :: "side option \<Rightarrow> side list \<Rightarrow> (side \<times> side) list \<times> side list \<times> side option" where
  "serve slot [] = ([], [], slot)"
| "serve slot (x # xs) =
     (case pair_or_wait x slot of
        (Spawned a b, slot') \<Rightarrow> (case serve slot' xs of (ps, ds, r) \<Rightarrow> ((a, b) # ps, ds, r))
      | (Parked old, slot') \<Rightarrow>
          (case serve slot' xs of (ps, ds, r) \<Rightarrow> (ps, (case old of None \<Rightarrow> ds | Some d \<Rightarrow> d # ds), r)))"

section \<open>The two acceptor tasks\<close>

datatype listener = TcpListener | WsListener

fun side_of :: "listener \<Rightarrow> nat \<Rightarrow> side" where
  "side_of TcpListener n = Tcp n"
| "side_of WsListener n = Ws n"

text \<open>
  An acceptor waits in \<open>accept\<close>, or is inside \<open>pair_or_wait\<close>; the one for WebSockets also waits
  for the handshake of the connection it accepted, before it accepts another.
\<close>

datatype acceptor = Accepting | Handshaking nat | Took side "side option"

record relay =
  slot :: "side option"
  acceptors :: "listener \<Rightarrow> acceptor"
  accepted :: "side list"
  paired :: "(side \<times> side) list"
  dropped :: "side list"

definition relay_init :: relay where
  "relay_init = \<lparr>slot = None, acceptors = (\<lambda>_. Accepting), accepted = [], paired = [], dropped = []\<rparr>"

definition accept_step :: "listener \<Rightarrow> nat \<Rightarrow> relay \<Rightarrow> relay" where
  "accept_step l n s =
     (let (partner, slot') = slot_take (slot s)
      in s\<lparr>slot := slot', acceptors := (acceptors s)(l := Took (side_of l n) partner),
           accepted := accepted s @ [side_of l n]\<rparr>)"

definition finish_step :: "listener \<Rightarrow> side \<Rightarrow> side option \<Rightarrow> relay \<Rightarrow> relay" where
  "finish_step l side partner s =
     (case pair_finish side partner (slot s) of
        (Spawned a b, slot') \<Rightarrow>
          s\<lparr>slot := slot', acceptors := (acceptors s)(l := Accepting), paired := paired s @ [(a, b)]\<rparr>
      | (Parked old, slot') \<Rightarrow>
          s\<lparr>slot := slot', acceptors := (acceptors s)(l := Accepting),
            dropped := dropped s @ (case old of None \<Rightarrow> [] | Some d \<Rightarrow> [d])\<rparr>)"

definition ws_acceptor_to :: "acceptor \<Rightarrow> relay \<Rightarrow> relay" where
  "ws_acceptor_to a s = s\<lparr>acceptors := (acceptors s)(WsListener := a)\<rparr>"

inductive relay_step :: "relay \<Rightarrow> relay \<Rightarrow> bool" where
  accept_error: "acceptors s l = Accepting \<Longrightarrow> relay_step s s"
| tcp_accept: "acceptors s TcpListener = Accepting \<Longrightarrow> Tcp n \<notin> set (accepted s) \<Longrightarrow>
    relay_step s (accept_step TcpListener n s)"
| ws_accept: "acceptors s WsListener = Accepting \<Longrightarrow>
    relay_step s (ws_acceptor_to (Handshaking n) s)"
| ws_refused: "acceptors s WsListener = Handshaking n \<Longrightarrow>
    relay_step s (ws_acceptor_to Accepting s)"
| ws_shaken: "acceptors s WsListener = Handshaking n \<Longrightarrow> Ws n \<notin> set (accepted s) \<Longrightarrow>
    relay_step s (accept_step WsListener n s)"
| finish: "acceptors s l = Took side partner \<Longrightarrow> relay_step s (finish_step l side partner s)"

text \<open>The same steps when the two acceptors are never both inside \<open>pair_or_wait\<close>.\<close>

definition took :: "relay \<Rightarrow> listener \<Rightarrow> bool" where
  "took s l = (case acceptors s l of Took _ _ \<Rightarrow> True | _ \<Rightarrow> False)"

definition relay_serial_step :: "relay \<Rightarrow> relay \<Rightarrow> bool" where
  "relay_serial_step s s' \<longleftrightarrow> relay_step s s' \<and> \<not> (took s' TcpListener \<and> took s' WsListener)"

section \<open>Pairing properties\<close>

lemma pair_or_wait_simps [simp]:
  "pair_or_wait x None = (Parked None, Some x)"
  "pair_or_wait x (Some y) = (Spawned x y, None)"
  by (simp_all add: pair_or_wait_def pair_finish_def slot_take_def slot_replace_def)

fun pair_up :: "side list \<Rightarrow> (side \<times> side) list" where
  "pair_up (x # y # rest) = (y, x) # pair_up rest"
| "pair_up _ = []"

text \<open>
  Served one after the other, the connections are paired first with second, third with
  fourth and so on, whatever their transports; an odd one out is the one left waiting, and no
  connection is dropped.
\<close>

theorem serve_pairs_in_order:
  "serve None xs = (pair_up xs, [], if even (length xs) then None else Some (last xs))"
  by (induction xs rule: pair_up.induct) auto

lemma distinct_mset_subset:
  assumes "mset xs \<subseteq># mset ys" "distinct ys"
  shows "distinct xs"
proof -
  have "count (mset ys) a \<le> 1" for a
    using assms(2) by (simp add: distinct_count_atmost_1)
  then have "count (mset xs) a \<le> 1" for a
    using mset_subset_eq_count [OF assms(1), of a] order_trans by blast
  then have "count (mset xs) a = (if a \<in> set xs then 1 else 0)" for a
    using count_greater_zero_iff [of "mset xs" a] by (auto simp: le_Suc_eq)
  then show ?thesis by (simp add: distinct_count_atmost_1)
qed

definition in_flight :: "acceptor \<Rightarrow> side multiset" where
  "in_flight a = (case a of Accepting \<Rightarrow> {#} | Handshaking _ \<Rightarrow> {#}
     | Took x p \<Rightarrow> {#x#} + (case p of None \<Rightarrow> {#} | Some y \<Rightarrow> {#y#}))"

definition held :: "relay \<Rightarrow> side multiset" where
  "held s = (case slot s of None \<Rightarrow> {#} | Some x \<Rightarrow> {#x#})
     + in_flight (acceptors s TcpListener) + in_flight (acceptors s WsListener)
     + mset (map fst (paired s)) + mset (map snd (paired s)) + mset (dropped s)"

lemma relay_step_held:
  assumes "relay_step s s'" "held s = mset (accepted s)" "distinct (accepted s)"
  shows "held s' = mset (accepted s') \<and> distinct (accepted s')"
  using assms(1)
proof cases
  case (accept_error l)
  with assms(2,3) show ?thesis by simp
next
  case (tcp_accept n)
  with assms(2,3) show ?thesis
    by (cases "slot s") (auto simp: held_def accept_step_def slot_take_def in_flight_def ac_simps)
next
  case (ws_accept n)
  with assms(2,3) show ?thesis by (auto simp: held_def ws_acceptor_to_def in_flight_def)
next
  case (ws_refused n)
  with assms(2,3) show ?thesis by (auto simp: held_def ws_acceptor_to_def in_flight_def)
next
  case (ws_shaken n)
  with assms(2,3) show ?thesis
    by (cases "slot s") (auto simp: held_def accept_step_def slot_take_def in_flight_def ac_simps)
next
  case (finish l side partner)
  with assms(2,3) show ?thesis
    by (cases l; cases partner; cases "slot s")
       (auto simp: held_def finish_step_def pair_finish_def slot_replace_def in_flight_def ac_simps
         add_mset_commute)
qed

lemma relay_step_shakes:
  assumes "relay_step s s'" "\<forall>k. acceptors s TcpListener \<noteq> Handshaking k"
  shows "\<forall>k. acceptors s' TcpListener \<noteq> Handshaking k"
  using assms(1)
proof cases
  case (finish l side partner)
  with assms(2) show ?thesis
    by (cases partner) (simp_all add: finish_step_def pair_finish_def slot_replace_def)
qed (use assms(2) in \<open>simp_all add: accept_step_def slot_take_def ws_acceptor_to_def\<close>)

definition relay_ok :: "relay \<Rightarrow> bool" where
  "relay_ok s \<longleftrightarrow> held s = mset (accepted s) \<and> distinct (accepted s)
     \<and> (\<forall>k. acceptors s TcpListener \<noteq> Handshaking k)"

interpretation relay_sys: safe_system relay_init relay_step "rtranclp relay_step relay_init" relay_ok
proof
  show "relay_ok relay_init" by (simp add: relay_ok_def held_def relay_init_def in_flight_def)
  show "relay_ok t" if "relay_ok s" "relay_step s t" for s t
    using that relay_step_held relay_step_shakes unfolding relay_ok_def by blast
qed (auto intro: rtranclp.rtrancl_into_rtrancl elim: run_least)

text \<open>
  C14. Every accepted connection is in exactly one place, under any interleaving of the two
  acceptors: the slot, the hands of an acceptor, one side of one pair, or dropped. In
  particular no connection is ever paired twice or with itself.
\<close>

theorem relay_conserves_connections:
  assumes "rtranclp relay_step relay_init s"
  shows "held s = mset (accepted s)
    \<and> distinct (map fst (paired s) @ map snd (paired s) @ dropped s)"
proof (intro conjI)
  from relay_sys.reach_safe [OF assms] show h: "held s = mset (accepted s)" by (simp add: relay_ok_def)
  have "mset (map fst (paired s) @ map snd (paired s) @ dropped s) \<subseteq># held s"
    unfolding held_def by (simp add: mset_subset_eq_add_right add.assoc)
  then have "mset (map fst (paired s) @ map snd (paired s) @ dropped s) \<subseteq># mset (accepted s)"
    by (simp add: h)
  moreover have "distinct (accepted s)" using relay_sys.reach_safe [OF assms] by (simp add: relay_ok_def)
  ultimately show "distinct (map fst (paired s) @ map snd (paired s) @ dropped s)"
    by (rule distinct_mset_subset)
qed

definition demo_paired :: relay where
  "demo_paired =
     finish_step WsListener (Ws 0) (Some (Tcp 0)) (accept_step WsListener 0
       (ws_acceptor_to (Handshaking 0) (finish_step TcpListener (Tcp 0) None (accept_step TcpListener 0 relay_init))))"

lemmas relay_eval = accept_step_def finish_step_def pair_finish_def slot_take_def slot_replace_def relay_init_def
  ws_acceptor_to_def

lemma demo_paired_reached: "rtranclp relay_step relay_init demo_paired"
proof -
  let ?s1 = "accept_step TcpListener 0 relay_init"
  let ?s2 = "finish_step TcpListener (Tcp 0) None ?s1"
  let ?s2' = "ws_acceptor_to (Handshaking 0) ?s2"
  let ?s3 = "accept_step WsListener 0 ?s2'"
  have "relay_step relay_init ?s1" by (rule relay_step.tcp_accept) (simp_all add: relay_eval)
  moreover have "relay_step ?s1 ?s2" by (rule relay_step.finish) (simp add: relay_eval)
  moreover have "relay_step ?s2 ?s2'" by (rule relay_step.ws_accept) (simp add: relay_eval)
  moreover have "relay_step ?s2' ?s3" by (rule relay_step.ws_shaken) (simp_all add: relay_eval)
  moreover have "relay_step ?s3 demo_paired"
    unfolding demo_paired_def by (rule relay_step.finish) (simp add: relay_eval)
  ultimately show ?thesis by simp
qed

theorem relay_conserves_connections_witness:
  "paired demo_paired = [(Ws 0, Tcp 0)] \<and> held demo_paired = mset [Tcp 0, Ws 0]
    \<and> distinct (map fst (paired demo_paired) @ map snd (paired demo_paired) @ dropped demo_paired)"
proof -
  have "paired demo_paired = [(Ws 0, Tcp 0)]" "accepted demo_paired = [Tcp 0, Ws 0]"
    by (simp_all add: demo_paired_def relay_eval)
  then show ?thesis using relay_conserves_connections [OF demo_paired_reached] by simp
qed

definition serial_inv :: "relay \<Rightarrow> bool" where
  "serial_inv s \<longleftrightarrow> dropped s = []
     \<and> (\<forall>l. took s l \<longrightarrow> slot s = None) \<and> \<not> (took s TcpListener \<and> took s WsListener)"

lemma serial_inv_step:
  assumes "relay_serial_step s s'" "serial_inv s"
  shows "serial_inv s'"
proof -
  have one: "\<not> (took s' TcpListener \<and> took s' WsListener)" and "relay_step s s'"
    using assms(1) by (simp_all add: relay_serial_step_def)
  from this(2) show ?thesis
  proof cases
    case (finish l side partner)
    then have "took s l" by (simp add: took_def)
    then have slot: "slot s = None" "dropped s = []" and one: "\<And>k. took s k \<Longrightarrow> k = l"
      using assms(2) unfolding serial_inv_def by (metis listener.exhaust)+
    have "took s' k = (took s k \<and> k \<noteq> l)" for k
      unfolding finish(1)
      by (cases partner) (simp_all add: took_def finish_step_def pair_finish_def slot_replace_def)
    with one have "\<not> took s' k" for k by blast
    with slot show ?thesis
      unfolding finish(1)
      by (cases partner) (simp_all add: serial_inv_def finish_step_def pair_finish_def slot_replace_def)
  qed (use assms(2) one in \<open>auto simp: serial_inv_def took_def accept_step_def slot_take_def
      ws_acceptor_to_def split: if_splits acceptor.splits\<close>)
qed

interpretation serial_sys: safe_system relay_init relay_serial_step "rtranclp relay_serial_step relay_init" serial_inv
proof
  show "serial_inv relay_init" by (simp add: serial_inv_def took_def relay_init_def)
qed (auto intro: rtranclp.rtrancl_into_rtrancl serial_inv_step elim: run_least)

text \<open>
  When the two acceptors never overlap inside \<open>pair_or_wait\<close>, no connection is ever
  dropped, and a connection is only parked in a slot that is empty.
\<close>

theorem relay_serial_drops_nothing:
  assumes "rtranclp relay_serial_step relay_init s"
  shows "dropped s = []"
  using serial_sys.reach_safe [OF assms] by (simp add: serial_inv_def)

theorem relay_serial_drops_nothing_witness:
  "dropped (finish_step TcpListener (Tcp 0) None (accept_step TcpListener 0 relay_init)) = []"
proof (rule relay_serial_drops_nothing)
  let ?s = "accept_step TcpListener 0 relay_init"
  have "relay_step relay_init ?s"
    by (rule relay_step.tcp_accept) (simp_all add: relay_init_def)
  then have "relay_serial_step relay_init ?s"
    by (simp add: relay_serial_step_def took_def relay_eval)
  moreover have "relay_step ?s (finish_step TcpListener (Tcp 0) None ?s)"
    by (rule relay_step.finish) (simp add: relay_eval)
  then have "relay_serial_step ?s (finish_step TcpListener (Tcp 0) None ?s)"
    by (simp add: relay_serial_step_def took_def relay_eval)
  ultimately show "rtranclp relay_serial_step relay_init (finish_step TcpListener (Tcp 0) None ?s)"
    by auto
qed

text \<open>
  C16. The lock is released between looking and parking, so the two acceptors race: from any
  state with an empty slot and both acceptors idle, a TCP and a WebSocket connection that
  arrive together can both find the slot empty; then the one parked first is dropped when the
  second is parked, although they should have been paired.
\<close>

theorem relay_race_drops_connection:
  assumes "slot s = None" "acceptors s = (\<lambda>_. Accepting)"
    and "Tcp n \<notin> set (accepted s)" "Ws m \<notin> set (accepted s)"
  shows "\<exists>s'. rtranclp relay_step s s' \<and> dropped s' = dropped s @ [Tcp n] \<and> slot s' = Some (Ws m)
    \<and> paired s' = paired s \<and> acceptors s' = (\<lambda>_. Accepting)"
proof -
  let ?s0 = "ws_acceptor_to (Handshaking m) s"
  let ?s1 = "accept_step TcpListener n ?s0"
  let ?s2 = "accept_step WsListener m ?s1"
  let ?s3 = "finish_step TcpListener (Tcp n) None ?s2"
  let ?s4 = "finish_step WsListener (Ws m) None ?s3"
  note defs = accept_step_def finish_step_def pair_finish_def slot_take_def slot_replace_def
    ws_acceptor_to_def
  have "relay_step s ?s0"
    by (rule relay_step.ws_accept) (use assms in simp)
  moreover have "relay_step ?s0 ?s1"
    by (rule relay_step.tcp_accept) (use assms in \<open>simp_all add: defs\<close>)
  moreover have "relay_step ?s1 ?s2"
    by (rule relay_step.ws_shaken) (use assms in \<open>simp_all add: defs\<close>)
  moreover have "relay_step ?s2 ?s3"
    by (rule relay_step.finish) (use assms in \<open>simp add: defs\<close>)
  moreover have "relay_step ?s3 ?s4"
    by (rule relay_step.finish) (use assms in \<open>simp add: defs\<close>)
  ultimately have "rtranclp relay_step s ?s4" by auto
  moreover have "dropped ?s4 = dropped s @ [Tcp n]" "slot ?s4 = Some (Ws m)" "paired ?s4 = paired s"
    "acceptors ?s4 = (\<lambda>_. Accepting)"
    using assms by (auto simp: defs fun_eq_iff elim: listener.exhaust)
  ultimately show ?thesis by blast
qed

theorem relay_race_drops_connection_witness:
  "\<exists>s'. rtranclp relay_step relay_init s' \<and> dropped s' = [Tcp 0] \<and> slot s' = Some (Ws 0)"
proof -
  have "slot relay_init = None" "acceptors relay_init = (\<lambda>_. Accepting)"
    "Tcp 0 \<notin> set (accepted relay_init)" "Ws 0 \<notin> set (accepted relay_init)"
    by (simp_all add: relay_init_def)
  from relay_race_drops_connection [OF this] show ?thesis by (auto simp: relay_init_def)
qed

section \<open>A handshake that is never finished\<close>

fun is_ws :: "side \<Rightarrow> bool" where
  "is_ws (Ws _) = True"
| "is_ws (Tcp _) = False"

text \<open>The steps taken while the acceptor is in the handshake of connection \<open>n\<close>.\<close>

definition stalled_step :: "nat \<Rightarrow> relay \<Rightarrow> relay \<Rightarrow> bool" where
  "stalled_step n s s' \<longleftrightarrow> relay_step s s' \<and> acceptors s' WsListener = Handshaking n"

lemma stalled_step_ws:
  assumes "stalled_step n s s'" "acceptors s WsListener = Handshaking n"
  shows "filter is_ws (accepted s') = filter is_ws (accepted s)"
  using assms(1) unfolding stalled_step_def
proof (elim conjE)
  assume "relay_step s s'" and keeps: "acceptors s' WsListener = Handshaking n"
  then show ?thesis
  proof cases
    case (finish l side partner)
    then show ?thesis
      by (cases partner) (simp_all add: finish_step_def pair_finish_def slot_replace_def)
  qed (use assms(2) keeps in \<open>auto simp: accept_step_def slot_take_def ws_acceptor_to_def\<close>)
qed

lemma stalled_run_ws:
  assumes "rtranclp (stalled_step n) s s'" "acceptors s WsListener = Handshaking n"
  shows "filter is_ws (accepted s') = filter is_ws (accepted s) \<and> acceptors s' WsListener = Handshaking n"
  using assms by (induction rule: rtranclp_induct) (auto simp: stalled_step_ws, simp add: stalled_step_def)

lemma stalled_serves_tcp:
  assumes "acceptors s WsListener = Handshaking n" "Tcp m \<notin> set (accepted s)"
    and "\<And>k. acceptors s TcpListener \<noteq> Handshaking k"
  shows "\<exists>s'. rtranclp (stalled_step n) s s' \<and> accepted s' = accepted s @ [Tcp m]"
proof -
  have ready: "\<exists>t. rtranclp (stalled_step n) s t \<and> acceptors t TcpListener = Accepting
      \<and> acceptors t WsListener = Handshaking n \<and> accepted t = accepted s"
  proof (cases "acceptors s TcpListener")
    case Accepting
    with assms(1) show ?thesis by blast
  next
    case (Handshaking k)
    with assms(3) [of k] show ?thesis by simp
  next
    case (Took x p)
    let ?t = "finish_step TcpListener x p s"
    have "acceptors ?t TcpListener = Accepting \<and> acceptors ?t WsListener = Handshaking n
        \<and> accepted ?t = accepted s"
      using assms(1) by (cases p) (simp_all add: finish_step_def pair_finish_def slot_replace_def)
    moreover from this relay_step.finish [OF Took] have "stalled_step n s ?t"
      by (simp add: stalled_step_def)
    ultimately show ?thesis by blast
  qed
  then obtain t where t: "rtranclp (stalled_step n) s t" "acceptors t TcpListener = Accepting"
    "acceptors t WsListener = Handshaking n" "accepted t = accepted s" by blast
  let ?u = "accept_step TcpListener m t"
  have "relay_step t ?u" using t assms(2) by (intro relay_step.tcp_accept) simp_all
  with t have "stalled_step n t ?u"
    by (simp add: stalled_step_def accept_step_def slot_take_def)
  with t(1) have "rtranclp (stalled_step n) s ?u" by (rule rtranclp.rtrancl_into_rtrancl)
  moreover have "accepted ?u = accepted s @ [Tcp m]"
    using t(4) by (simp add: accept_step_def slot_take_def)
  ultimately show ?thesis by blast
qed

text \<open>
  C17. The WebSocket acceptor awaits the handshake of one connection before it accepts the next.
  While a client that has connected says nothing, no other WebSocket client is served, whatever
  else happens and however long; TCP clients go on being served meanwhile.
\<close>

theorem stalled_handshake_blocks:
  assumes "rtranclp relay_step relay_init s" "acceptors s WsListener = Handshaking n"
    and "rtranclp (stalled_step n) s s'"
  shows "filter is_ws (accepted s') = filter is_ws (accepted s)
    \<and> (\<forall>m. Tcp m \<in> set (accepted s')
          \<or> (\<exists>t. rtranclp (stalled_step n) s' t \<and> accepted t = accepted s' @ [Tcp m]))"
proof -
  have run: "rtranclp relay_step relay_init s'"
    using assms(3,1) by (induction rule: rtranclp_induct) (auto simp: stalled_step_def)
  from stalled_run_ws [OF assms(3,2)]
  show ?thesis using stalled_serves_tcp relay_sys.reach_safe [OF run] unfolding relay_ok_def by blast
qed

theorem stalled_handshake_blocks_witness:
  "filter is_ws (accepted (accept_step TcpListener 0 (ws_acceptor_to (Handshaking 7) relay_init))) = []"
proof -
  let ?s = "ws_acceptor_to (Handshaking 7) relay_init"
  let ?t = "accept_step TcpListener 0 ?s"
  have "relay_step relay_init ?s" by (rule relay_step.ws_accept) (simp add: relay_eval)
  then have r: "rtranclp relay_step relay_init ?s" by simp
  have h: "acceptors ?s WsListener = Handshaking 7" by (simp add: relay_eval)
  have "relay_step ?s ?t" by (rule relay_step.tcp_accept) (simp_all add: relay_eval)
  then have "rtranclp (stalled_step 7) ?s ?t" by (simp add: stalled_step_def relay_eval r_into_rtranclp)
  from stalled_handshake_blocks [OF r h this] show ?thesis by (simp add: relay_eval)
qed

end
