(* ===== verification/Sockets.thy ===== *)
theory Sockets
  imports Relay_Prelude
begin

text \<open>
  Binding sockets, as every server of the program does it in its \<open>main\<close>: on all interfaces, at
  the configured port, one socket after the other, each with the error context of its own.
\<close>

definition any_addr :: "nat \<Rightarrow> string" where
  "any_addr port = ''0.0.0.0:'' @ show_nat port"

datatype protocol = UDP | TCP

text \<open>
  Binding one after the other: \<open>free\<close> says which ports the machine lets be bound, and a port bound
  before is not free any more, except for port 0, which asks for any free one. The first
  failure is the result.
\<close>

fun bind_all ::
  "(protocol \<times> nat \<Rightarrow> bool) \<Rightarrow> (protocol \<times> nat \<times> string) list \<Rightarrow> string + unit" where
  "bind_all free [] = Inr ()"
| "bind_all free ((p, port, ctx) # rest) =
     (if free (p, port)
      then bind_all (if port = 0 then free else free((p, port) := False)) rest
      else Inl ctx)"

end
