(* ===== verification/Startup.thy ===== *)
theory Startup
  imports Rendezvous_System Relay Sockets
begin

text \<open>
  How the rendezvous server starts and ends: \<open>main\<close> of \<open>crates/rendezvous/src/main.rs\<close> and \<open>run\<close> of
  \<open>server.rs\<close>, with the configuration of \<open>crates/common/src/lib.rs\<close>, and the start of the relay. \<open>run\<close> binds three
  sockets in order, spawns the three loops and waits for them with \<open>try_join!\<close>; the tasks in
  between are the steps of \<open>Rendezvous_System\<close>. Whether a socket can be bound is a parameter.
\<close>

section \<open>Arguments and defaults\<close>

record rendezvous_config =
  rc_relay_addr :: string
  rc_port :: nat
  rc_relay_port :: nat

definition rendezvous_config_default :: rendezvous_config where
  "rendezvous_config_default =
     \<lparr>rc_relay_addr = ''127.0.0.1'', rc_port = 21116, rc_relay_port = 21117\<rparr>"

record rendezvous_args =
  ra_relay_addr :: string
  ra_port :: nat
  ra_ws_port :: nat
  ra_audit_url :: "string option"
  ra_audit_token :: "string option"

definition rendezvous_args_default :: rendezvous_args where
  "rendezvous_args_default =
     \<lparr>ra_relay_addr = ''127.0.0.1'', ra_port = 21116, ra_ws_port = 21118,
      ra_audit_url = None, ra_audit_token = None\<rparr>"

record relay_args =
  rl_port :: nat
  rl_ws_port :: nat

definition relay_args_default :: relay_args where
  "relay_args_default = \<lparr>rl_port = 21117, rl_ws_port = 21119\<rparr>"

text \<open>Without flags the two servers agree with the shared configuration and share no port.\<close>

lemma defaults_agree:
  "ra_relay_addr rendezvous_args_default = rc_relay_addr rendezvous_config_default"
  "ra_port rendezvous_args_default = rc_port rendezvous_config_default"
  "rl_port relay_args_default = rc_relay_port rendezvous_config_default"
  "distinct [ra_port rendezvous_args_default, ra_ws_port rendezvous_args_default,
     rl_port relay_args_default, rl_ws_port relay_args_default]"
  by (simp_all add: rendezvous_args_default_def rendezvous_config_default_def relay_args_default_def)

section \<open>Binding\<close>

text \<open>The sockets of \<open>run\<close>, in the order in which they are bound, each with its error context.\<close>

definition run_sockets :: "nat \<Rightarrow> nat \<Rightarrow> (protocol \<times> nat \<times> string) list" where
  "run_sockets port ws_port =
     [(UDP, port, ''bind UDP '' @ any_addr port),
      (TCP, port, ''bind TCP '' @ any_addr port),
      (TCP, ws_port, ''bind WS '' @ any_addr ws_port)]"

definition relay_sockets :: "relay_args \<Rightarrow> (protocol \<times> nat \<times> string) list" where
  "relay_sockets a =
     [(TCP, rl_port a, ''bind '' @ any_addr (rl_port a)),
      (TCP, rl_ws_port a, ''bind '' @ any_addr (rl_ws_port a))]"

text \<open>The relay's start: its two sockets, then the two acceptors, which end only by a panic.\<close>

definition relay_main :: "(protocol \<times> nat \<Rightarrow> bool) \<Rightarrow> relay_args \<Rightarrow> string + relay" where
  "relay_main free a =
     (case bind_all free (relay_sockets a) of Inl e \<Rightarrow> Inl e | Inr _ \<Rightarrow> Inr relay_init)"

section \<open>Running\<close>

datatype 'a join = JoinOk 'a | JoinPanic string

definition flatten :: "(string + 'a) join \<Rightarrow> string + 'a" where
  "flatten h = (case h of JoinOk r \<Rightarrow> r | JoinPanic e \<Rightarrow> Inl (''task panicked: '' @ e))"

text \<open>
  The running server, or the result with which \<open>run\<close> has returned. \<open>main\<close> then returns too and
  the runtime drops every task, so nothing moves any more.
\<close>

record service =
  system :: rdv
  exited :: "(string + unit) option"

definition rendezvous_main ::
  "(protocol \<times> nat \<Rightarrow> bool) \<Rightarrow> rendezvous_args \<Rightarrow> service" where
  "rendezvous_main free args =
     \<lparr>system = rdv_init,
      exited = (case bind_all free (run_sockets (ra_port args) (ra_ws_port args)) of
                  Inl e \<Rightarrow> Some (Inl e) | Inr _ \<Rightarrow> None)\<rparr>"

text \<open>The environment of the handlers: the arguments give the relay address and the auditor.\<close>

definition env_of_args :: "rendezvous_args \<Rightarrow> env \<Rightarrow> env" where
  "env_of_args args v =
     v\<lparr>relay_addr := ra_relay_addr args, env_auditor := auditor_new (ra_audit_url args) (ra_audit_token args)\<rparr>"

text \<open>
  What can happen while \<open>try_join!\<close> waits: a task moves (an accepted connection, a datagram or
  a failed receive among them), \<open>accept\<close> fails in the TCP or in the WebSocket loop, whose
  question mark returns the error, or one of the loops panics.
\<close>

datatype service_event = Work | TcpAcceptFails string | WsAcceptFails string | Panics string

fun loop_result :: "service_event \<Rightarrow> (string + unit) join option" where
  "loop_result Work = None"
| "loop_result (TcpAcceptFails e) = Some (JoinOk (Inl e))"
| "loop_result (WsAcceptFails e) = Some (JoinOk (Inl e))"
| "loop_result (Panics m) = Some (JoinPanic m)"

inductive service_step :: "env \<Rightarrow> service \<Rightarrow> service_event \<Rightarrow> service \<Rightarrow> bool" for v where
  work: "exited s = None \<Longrightarrow> rdv_step v (system s) c \<Longrightarrow> service_step v s Work (s\<lparr>system := c\<rparr>)"
| loop_ends: "exited s = None \<Longrightarrow> loop_result ev = Some h \<Longrightarrow>
    service_step v s ev (s\<lparr>exited := Some (flatten h)\<rparr>)"

inductive service_run :: "env \<Rightarrow> service \<Rightarrow> service_event list \<Rightarrow> service \<Rightarrow> bool" for v where
  none: "service_run v s [] s"
| more: "service_run v s evs t \<Longrightarrow> service_step v t ev u \<Longrightarrow> service_run v s (evs @ [ev]) u"

inductive_cases service_stepE: "service_step v s ev t"

section \<open>Lemmas\<close>

lemma flatten_loop_result: "loop_result ev = Some h \<Longrightarrow> \<exists>e. flatten h = Inl e"
  by (cases ev) (auto simp: flatten_def)

lemma service_run_exited:
  assumes "service_run v s evs t" "exited s = None"
  shows "(exited t = None \<longrightarrow> set evs \<subseteq> {Work})
    \<and> (exited t \<noteq> None \<longrightarrow> (\<exists>before ev h. evs = before @ [ev] \<and> set before \<subseteq> {Work}
          \<and> loop_result ev = Some h \<and> exited t = Some (flatten h)))"
  using assms
proof (induction rule: service_run.induct)
  case (more s evs t ev u)
  from more.hyps(2) show ?case
  proof cases
    case (work c)
    with more.IH more.prems show ?thesis by auto
  next
    case (loop_ends h)
    with more.IH more.prems have "set evs \<subseteq> {Work}" by simp
    with loop_ends show ?thesis by auto
  qed
qed simp

lemma service_run_system:
  assumes "service_run v s evs t" "rdv_reachable v (system s)"
  shows "rdv_reachable v (system t)"
  using assms
proof (induction rule: service_run.induct)
  case (more s evs t ev u)
  from more.hyps(2) more.IH [OF more.prems] show ?case
    by cases (auto intro: rdv_reachable.step)
qed

lemma exited_stuck: "exited s = Some r \<Longrightarrow> \<not> service_step v s ev t"
  by (auto elim: service_stepE)

section \<open>The life of the server\<close>

text \<open>
  C12. The server comes up exactly when its three sockets can be bound, so never with one fixed port
  for both TCP and WebSocket. Then it runs until the first time \<open>accept\<close> fails on either listener
  (or a loop panics), whatever registrations and sessions are in progress: that error is what
  \<open>run\<close> returns, never success, and nothing moves afterwards. Errors of the UDP socket and of single connections do
  not end it, and while it runs its tasks are in a reachable state of the system.
\<close>

theorem rendezvous_lifetime:
  assumes "service_run v (rendezvous_main free args) evs t"
  shows "(exited (rendezvous_main free args) = None \<longleftrightarrow>
      free (UDP, ra_port args) \<and> free (TCP, ra_port args) \<and> free (TCP, ra_ws_port args)
      \<and> (ra_port args = ra_ws_port args \<longrightarrow> ra_port args = 0))
    \<and> (exited t = None \<longleftrightarrow> exited (rendezvous_main free args) = None \<and> set evs \<subseteq> {Work})
    \<and> (\<forall>r. exited t = Some r \<longrightarrow> (\<exists>e. r = Inl e) \<and> (\<forall>ev u. \<not> service_step v t ev u))
    \<and> rdv_reachable v (system t)"
proof -
  let ?s = "rendezvous_main free args"
  have start: "exited ?s = None \<longleftrightarrow>
      free (UDP, ra_port args) \<and> free (TCP, ra_port args) \<and> free (TCP, ra_ws_port args)
      \<and> (ra_port args = ra_ws_port args \<longrightarrow> ra_port args = 0)"
    by (auto simp: rendezvous_main_def run_sockets_def)
  have never: "evs = [] \<and> t = ?s" if "exited ?s \<noteq> None"
    using assms that
  proof (induction rule: service_run.induct)
    case (more s evs t ev u)
    then show ?case using exited_stuck by fastforce
  qed simp
  have failed: "\<exists>e. exited ?s = Some (Inl e)" if "exited ?s \<noteq> None"
    using that by (auto simp: rendezvous_main_def split: sum.splits)
  have ended: "exited t = None \<longleftrightarrow> exited ?s = None \<and> set evs \<subseteq> {Work}"
  proof (cases "exited ?s = None")
    case True
    from service_run_exited [OF assms True] show ?thesis by (cases "exited t") (auto simp: True)
  qed (use never in auto)
  have err: "\<exists>e. r = Inl e" if "exited t = Some r" for r
  proof (cases "exited ?s = None")
    case True
    from service_run_exited [OF assms True] that show ?thesis using flatten_loop_result by fastforce
  next
    case False
    from never [OF False] failed [OF False] that show ?thesis by auto
  qed
  have "rdv_reachable v (system t)"
    by (rule service_run_system [OF assms]) (simp add: rendezvous_main_def rdv_reachable.init)
  with start ended err show ?thesis by (auto dest: exited_stuck)
qed

theorem rendezvous_lifetime_witness:
  "\<exists>t. service_run demo_env (rendezvous_main (\<lambda>_. True) rendezvous_args_default)
      [Work, TcpAcceptFails ''too many open files''] t
    \<and> exited t = Some (Inl ''too many open files'')
    \<and> (\<forall>ev u. \<not> service_step demo_env t ev u)"
proof -
  let ?s = "rendezvous_main (\<lambda>_. True) rendezvous_args_default"
  have up: "exited ?s = None"
    by (simp add: rendezvous_main_def run_sockets_def rendezvous_args_default_def)
  obtain c acts where h: "udp_handle demo_env 0 UdpRecvError (srv (system ?s)) = (c, acts)" by fastforce
  let ?t = "?s\<lparr>system := (system ?s)\<lparr>srv := c, inbox := deliver acts (inbox (system ?s))\<rparr>\<rparr>"
  let ?u = "?t\<lparr>exited := Some (Inl ''too many open files'')\<rparr>"
  have "service_step demo_env ?s Work ?t" by (rule service_step.work [OF up rdv_step.udp [OF h]])
  from service_run.more [OF service_run.none this] have "service_run demo_env ?s [Work] ?t" by simp
  moreover have "service_step demo_env ?t (TcpAcceptFails ''too many open files'') ?u"
    using up service_step.loop_ends [of ?t "TcpAcceptFails ''too many open files''" _ demo_env]
    by (simp add: flatten_def)
  ultimately have "service_run demo_env ?s ([Work] @ [TcpAcceptFails ''too many open files'']) ?u"
    by (rule service_run.more)
  then have r: "service_run demo_env ?s [Work, TcpAcceptFails ''too many open files''] ?u" by simp
  from rendezvous_lifetime [OF this] have "\<forall>ev u. \<not> service_step demo_env ?u ev u" by auto
  with r show ?thesis by (intro exI [of _ ?u]) simp
qed

end
