(* ===== verification/Relay_Arrivals.thy ===== *)
theory Relay_Arrivals
  imports Relay
begin

text \<open>
  Who is joined with whom: \<open>pair_or_wait\<close> of \<open>crates/relay/src/main.rs\<close> has no key, so the order of
  arrival alone decides. \<open>pair_up\<close> is the reference; the runs are those of \<open>Relay\<close> in which the two
  acceptors do not overlap between their lock sections.
\<close>

definition leftover :: "side list \<Rightarrow> side option" where
  "leftover xs = (if even (length xs) then None else Some (last xs))"

lemma leftover_simps [simp]:
  "leftover [] = None"
  "leftover (xs @ [x]) = (case leftover xs of None \<Rightarrow> Some x | Some _ \<Rightarrow> None)"
  by (simp_all add: leftover_def)

lemma pair_up_snoc:
  "pair_up (xs @ [x]) = pair_up xs @ (case leftover xs of None \<Rightarrow> [] | Some y \<Rightarrow> [(x, y)])"
  by (induction xs rule: pair_up.induct) (auto simp: leftover_def split: if_splits)

lemma serve_pair_up: "serve None xs = (pair_up xs, [], leftover xs)"
  by (induction xs rule: pair_up.induct) (auto simp: leftover_def)

section \<open>The invariant\<close>

text \<open>
  With both acceptors outside \<open>pair_or_wait\<close> everything is as the arrivals demand; while one of them
  is inside, the other is not, the slot is empty and the partner was the one left over.
\<close>

definition arrived :: "relay \<Rightarrow> bool" where
  "arrived s \<longleftrightarrow>
     (\<forall>l x p. acceptors s l = Took x p \<longrightarrow> slot s = None \<and> (\<forall>k. took s k \<longrightarrow> k = l)
        \<and> (\<exists>xs. accepted s = xs @ [x] \<and> p = leftover xs \<and> paired s = pair_up xs))
     \<and> ((\<forall>l. \<not> took s l) \<longrightarrow> slot s = leftover (accepted s) \<and> paired s = pair_up (accepted s))"

lemma took_eq: "took s l \<longleftrightarrow> (\<exists>x p. acceptors s l = Took x p)"
  by (cases "acceptors s l") (simp_all add: took_def)

lemma arrived_accept:
  assumes "arrived s" "\<not> took s l" "\<And>k. took (accept_step l n s) k \<Longrightarrow> k = l"
  shows "arrived (accept_step l n s)"
proof -
  have none: "\<not> took s k" for k
    using assms(2) assms(3) [of k] by (cases "k = l") (auto simp: took_eq accept_step_def slot_take_def)
  with assms(1) have "slot s = leftover (accepted s)" "paired s = pair_up (accepted s)" by (simp_all add: arrived_def)
  moreover have "acceptors (accept_step l n s) k = Took x p \<longleftrightarrow>
      (if k = l then x = side_of l n \<and> p = slot s else acceptors s k = Took x p)" for k x p
    by (auto simp: accept_step_def slot_take_def)
  moreover have "acceptors s k \<noteq> Took x p" for k x p using none [of k] by (auto simp: took_eq)
  moreover have "took (accept_step l n s) l" by (simp add: took_eq accept_step_def slot_take_def)
  ultimately show ?thesis
    unfolding arrived_def using assms(3) by (auto simp: accept_step_def slot_take_def)
qed

lemma arrived_finish:
  assumes "arrived s" "acceptors s l = Took x p"
  shows "arrived (finish_step l x p s)"
proof -
  obtain xs where xs: "slot s = None" "accepted s = xs @ [x]" "p = leftover xs" "paired s = pair_up xs"
    and one: "\<And>k. took s k \<Longrightarrow> k = l"
    using assms unfolding arrived_def by blast
  have "\<not> took (finish_step l x p s) k" for k
    using one by (cases p) (auto simp: took_eq finish_step_def pair_finish_def slot_replace_def)
  moreover have "slot (finish_step l x p s) = leftover (accepted (finish_step l x p s))
      \<and> paired (finish_step l x p s) = pair_up (accepted (finish_step l x p s))"
    using xs by (cases "leftover xs") (simp_all add: finish_step_def pair_finish_def slot_replace_def pair_up_snoc)
  ultimately show ?thesis by (auto simp: arrived_def took_eq)
qed

lemma arrived_ws: "arrived s \<Longrightarrow> \<not> took s WsListener \<Longrightarrow> (\<And>x p. a \<noteq> Took x p) \<Longrightarrow> arrived (ws_acceptor_to a s)"
proof -
  assume a: "arrived s" "\<not> took s WsListener" "\<And>x p. a \<noteq> Took x p"
  have "took (ws_acceptor_to a s) k = took s k" for k
    using a(2,3) by (auto simp: took_eq ws_acceptor_to_def)
  with a(1,3) show ?thesis unfolding arrived_def by (auto simp: ws_acceptor_to_def)
qed

lemma arrived_step:
  assumes "relay_serial_step s s'" "arrived s"
  shows "arrived s'"
proof -
  have one: "took s' k \<Longrightarrow> took s' l \<Longrightarrow> k = l" for k l
    using assms(1) by (cases k; cases l) (auto simp: relay_serial_step_def)
  from assms(1) have "relay_step s s'" by (simp add: relay_serial_step_def)
  then show ?thesis
  proof cases
    case accept_error
    with assms(2) show ?thesis by simp
  next
    case (tcp_accept n)
    have "took s' TcpListener" unfolding tcp_accept by (simp add: took_eq accept_step_def slot_take_def)
    then show ?thesis
      using assms(2) one tcp_accept(2) unfolding tcp_accept(1) by (intro arrived_accept) (auto simp: took_eq)
  next
    case (ws_accept n)
    with assms(2) show ?thesis by (auto intro: arrived_ws simp: took_eq)
  next
    case (ws_refused n)
    with assms(2) show ?thesis by (auto intro: arrived_ws simp: took_eq)
  next
    case (ws_shaken n)
    have "took s' WsListener" unfolding ws_shaken by (simp add: took_eq accept_step_def slot_take_def)
    then show ?thesis
      using assms(2) one ws_shaken(2) unfolding ws_shaken(1) by (intro arrived_accept) (auto simp: took_eq)
  next
    case (finish l x p)
    with assms(2) show ?thesis by (simp add: arrived_finish)
  qed
qed

interpretation arrival_sys: safe_system relay_init relay_serial_step "rtranclp relay_serial_step relay_init" arrived
proof
  show "arrived relay_init" by (simp add: arrived_def took_eq relay_init_def)
qed (auto intro: rtranclp.rtrancl_into_rtrancl arrived_step elim: run_least)

section \<open>Every order of arrival is possible\<close>

definition idle :: "relay \<Rightarrow> bool" where
  "idle s \<longleftrightarrow> acceptors s = (\<lambda>_. Accepting)"

definition listener_of :: "side \<Rightarrow> listener" where
  "listener_of x = (case x of Tcp _ \<Rightarrow> TcpListener | Ws _ \<Rightarrow> WsListener)"

definition number_of :: "side \<Rightarrow> nat" where
  "number_of x = (case x of Tcp n \<Rightarrow> n | Ws n \<Rightarrow> n)"

text \<open>A connection that is accepted, shakes hands if it has to, and goes through \<open>pair_or_wait\<close>.\<close>

definition arrive :: "side \<Rightarrow> relay \<Rightarrow> relay" where
  "arrive x s = finish_step (listener_of x) x (slot s) (accept_step (listener_of x) (number_of x) s)"

lemma arrive_effect:
  assumes "idle s"
  shows "idle (arrive x s)" "accepted (arrive x s) = accepted s @ [x]"
  using assms
  by (cases x; cases "slot s"; simp add: idle_def arrive_def listener_of_def number_of_def finish_step_def
      pair_finish_def slot_replace_def accept_step_def slot_take_def fun_eq_iff)+

lemma arrive_steps:
  assumes "idle s" "x \<notin> set (accepted s)"
  shows "rtranclp relay_serial_step s (arrive x s)"
proof (cases x)
  case (Tcp n)
  let ?t = "accept_step TcpListener n s"
  have "relay_step s ?t"
    by (rule relay_step.tcp_accept) (use assms in \<open>simp_all add: idle_def Tcp\<close>)
  then have "relay_serial_step s ?t"
    using assms(1) by (simp add: relay_serial_step_def took_eq idle_def accept_step_def slot_take_def)
  moreover have "relay_step ?t (finish_step TcpListener x (slot s) ?t)"
    by (rule relay_step.finish) (simp add: accept_step_def slot_take_def Tcp)
  then have "relay_serial_step ?t (arrive x s)"
    using arrive_effect(1) [OF assms(1), of x]
    by (simp add: relay_serial_step_def took_eq idle_def arrive_def listener_of_def number_of_def Tcp)
  ultimately show ?thesis by auto
next
  case (Ws n)
  let ?h = "ws_acceptor_to (Handshaking n) s"
  let ?t = "accept_step WsListener n ?h"
  have t: "accept_step WsListener n s = ?t"
    using assms(1) by (simp add: accept_step_def ws_acceptor_to_def slot_take_def)
  have "relay_step s ?h"
    by (rule relay_step.ws_accept) (use assms in \<open>simp add: idle_def\<close>)
  then have "relay_serial_step s ?h"
    using assms(1) by (simp add: relay_serial_step_def took_eq idle_def ws_acceptor_to_def)
  moreover have "relay_step ?h ?t"
    by (rule relay_step.ws_shaken) (use assms in \<open>simp_all add: ws_acceptor_to_def Ws\<close>)
  then have "relay_serial_step ?h ?t"
    using assms(1) by (simp add: relay_serial_step_def took_eq idle_def ws_acceptor_to_def accept_step_def slot_take_def)
  moreover have "relay_step ?t (finish_step WsListener x (slot s) ?t)"
    by (rule relay_step.finish) (simp add: accept_step_def slot_take_def ws_acceptor_to_def Ws)
  then have "relay_serial_step ?t (arrive x s)"
    using arrive_effect(1) [OF assms(1), of x]
    by (simp add: relay_serial_step_def took_eq idle_def arrive_def listener_of_def number_of_def Ws t)
  ultimately show ?thesis
    by (meson converse_rtranclp_into_rtranclp rtranclp.rtrancl_refl)
qed

lemma arrivals_reach:
  assumes "distinct xs"
  shows "rtranclp relay_serial_step relay_init (fold arrive xs relay_init) \<and> idle (fold arrive xs relay_init)
    \<and> accepted (fold arrive xs relay_init) = xs"
  using assms
proof (induction xs rule: rev_induct)
  case Nil
  show ?case by (simp add: idle_def relay_init_def)
next
  case (snoc x xs)
  let ?s = "fold arrive xs relay_init"
  from snoc have s: "rtranclp relay_serial_step relay_init ?s" "idle ?s" "accepted ?s = xs" by simp_all
  have "rtranclp relay_serial_step ?s (arrive x ?s)"
    by (rule arrive_steps) (use s snoc.prems in simp_all)
  with s arrive_effect [OF s(2), of x] show ?case by (auto intro: rtranclp_trans)
qed

section \<open>Properties\<close>

lemma pair_up_pairs:
  "(\<forall>(b, a) \<in> set (pair_up xs). f a = f b)
    \<longleftrightarrow> (\<forall>k. Suc (2 * k) < length xs \<longrightarrow> f (xs ! (2 * k)) = f (xs ! Suc (2 * k)))"
proof (induction xs rule: pair_up.induct)
  case (1 x y rest)
  have "(\<forall>k. Suc (2 * k) < length (x # y # rest) \<longrightarrow> f ((x # y # rest) ! (2 * k)) = f ((x # y # rest) ! Suc (2 * k)))
      \<longleftrightarrow> f x = f y \<and> (\<forall>k. Suc (2 * k) < length rest \<longrightarrow> f (rest ! (2 * k)) = f (rest ! Suc (2 * k)))"
    (is "?all \<longleftrightarrow> ?first \<and> ?rest")
  proof
    assume a: ?all
    from a [rule_format, of 0] have ?first by simp
    moreover have ?rest using a [rule_format, of "Suc k" for k] by simp
    ultimately show "?first \<and> ?rest" ..
  next
    assume b: "?first \<and> ?rest"
    show ?all
    proof (intro allI impI)
      fix k assume "Suc (2 * k) < length (x # y # rest)"
      with b show "f ((x # y # rest) ! (2 * k)) = f ((x # y # rest) ! Suc (2 * k))" by (cases k) simp_all
    qed
  qed
  with 1 show ?case by auto
qed simp_all

text \<open>
  C15. The order of arrival decides who is joined. Whenever no acceptor is inside \<open>pair_or_wait\<close>, after any
  run in which the two did not overlap there, the pairs are the first arrival with the second, the third
  with the fourth and so on, over both transports, with nobody dropped, and an odd last one waits. So,
  whatever sessions the connections belong to, every peer is joined with its own partner exactly
  when the two of each pair arrive next to each other: two sessions that set up at the same time can be
  joined crosswise.
\<close>

theorem relay_joins_by_arrival:
  assumes "rtranclp relay_serial_step relay_init s" "\<not> took s TcpListener" "\<not> took s WsListener"
  shows "(paired s, dropped s, slot s) = serve None (accepted s)
    \<and> paired s = pair_up (accepted s) \<and> slot s = leftover (accepted s)
    \<and> ((\<forall>(b, a) \<in> set (paired s). session a = session b) \<longleftrightarrow>
        (\<forall>k. Suc (2 * k) < length (accepted s) \<longrightarrow> session (accepted s ! (2 * k)) = session (accepted s ! Suc (2 * k))))"
proof -
  have "\<not> took s l" for l using assms(2,3) by (cases l) simp_all
  with arrival_sys.reach_safe [OF assms(1)]
  have "paired s = pair_up (accepted s)" "slot s = leftover (accepted s)" by (simp_all add: arrived_def)
  moreover have "dropped s = []" using serial_sys.reach_safe [OF assms(1)] by (simp add: serial_inv_def)
  ultimately show ?thesis using pair_up_pairs [of "accepted s" session] by (simp add: serve_pair_up)
qed

text \<open>Two sessions over TCP and WebSockets, set up at the same time: both ends of each are joined with a stranger.\<close>

theorem relay_joins_by_arrival_witness:
  "\<exists>s. rtranclp relay_serial_step relay_init s \<and> paired s = [(Tcp 1, Tcp 0), (Ws 1, Ws 0)]
    \<and> \<not> (\<forall>(b, a) \<in> set (paired s). number_of a = number_of b)"
proof -
  let ?xs = "[Tcp 0, Tcp 1, Ws 0, Ws 1]"
  let ?s = "fold arrive ?xs relay_init"
  have "distinct ?xs" by simp
  from arrivals_reach [OF this] have s: "rtranclp relay_serial_step relay_init ?s" "idle ?s" "accepted ?s = ?xs"
    by blast+
  have "\<not> took ?s l" for l using s(2) by (simp add: idle_def took_eq del: fold.simps)
  with relay_joins_by_arrival [OF s(1), of number_of]
  have p: "paired ?s = pair_up ?xs" unfolding s(3) by blast
  have "paired ?s = [(Tcp 1, Tcp 0), (Ws 1, Ws 0)]" unfolding p by simp
  moreover from this have "\<not> (\<forall>(b, a) \<in> set (paired ?s). number_of a = number_of b)"
    by (simp add: number_of_def del: fold.simps)
  ultimately show ?thesis using s(1) by blast
qed

end
