(* ===== verification/Relay_Pumps.thy ===== *)
theory Relay_Pumps
  imports Relay
begin

text \<open>
  The pumps of \<open>crates/relay/src/main.rs\<close>: what each of their two loops does to the results its
  reads and sends return, one iteration at a time and as a whole, and the two loops of a pair
  running side by side until \<open>try_join!\<close> returns.
\<close>

section \<open>The pumps\<close>

datatype ws_message =
    MText string | MBinary bytes | MPing bytes | MPong bytes | MClose | MFrame

datatype ws_in = WsGot ws_message | WsFail

datatype pump_end = PumpOk | PumpErr

text \<open>
  One direction of \<open>pump_ws_ws\<close>, as a whole: each item the socket yields, with whether the send to the
  other side succeeds; the end of the list is the end of the stream.
\<close>

fun ws_to_ws :: "(ws_in \<times> bool) list \<Rightarrow> ws_message list \<times> pump_end" where
  "ws_to_ws [] = ([], PumpOk)"
| "ws_to_ws ((WsFail, _) # _) = ([], PumpErr)"
| "ws_to_ws ((WsGot m, ok) # rest) =
     (case m of
        MClose \<Rightarrow> ([], PumpOk)
      | _ \<Rightarrow> (if ok then (case ws_to_ws rest of (out, e) \<Rightarrow> (m # out, e)) else ([], PumpErr)))"

definition PUMP_BUF :: nat where
  "PUMP_BUF = 32 * 1024"

datatype tcp_in = TcpRead bytes | TcpReadError

text \<open>\<open>pump_tcp_ws\<close>, from TCP: a read of no bytes is the end of the stream.\<close>

fun tcp_to_ws :: "(tcp_in \<times> bool) list \<Rightarrow> ws_message list \<times> pump_end" where
  "tcp_to_ws [] = ([], PumpOk)"
| "tcp_to_ws ((TcpReadError, _) # _) = ([], PumpErr)"
| "tcp_to_ws ((TcpRead buf, ok) # rest) =
     (if buf = [] then ([], PumpOk)
      else if ok then (case tcp_to_ws rest of (out, e) \<Rightarrow> (MBinary buf # out, e))
      else ([], PumpErr))"

text \<open>\<open>pump_tcp_ws\<close>, towards TCP: the chunks written.\<close>

fun ws_to_tcp :: "(ws_in \<times> bool) list \<Rightarrow> bytes list \<times> pump_end" where
  "ws_to_tcp [] = ([], PumpOk)"
| "ws_to_tcp ((WsFail, _) # _) = ([], PumpErr)"
| "ws_to_tcp ((WsGot m, ok) # rest) =
     (case m of
        MBinary b \<Rightarrow> (if ok then (case ws_to_tcp rest of (out, e) \<Rightarrow> (b # out, e)) else ([], PumpErr))
      | MClose \<Rightarrow> ([], PumpOk)
      | _ \<Rightarrow> ws_to_tcp rest)"

datatype pump = PumpTcpTcp nat nat | PumpWsWs nat nat | PumpTcpWs nat nat

fun pump_of :: "side \<Rightarrow> side \<Rightarrow> pump" where
  "pump_of (Tcp a) (Tcp b) = PumpTcpTcp a b"
| "pump_of (Ws a) (Ws b) = PumpWsWs a b"
| "pump_of (Tcp t) (Ws w) = PumpTcpWs t w"
| "pump_of (Ws w) (Tcp t) = PumpTcpWs t w"

lemma tcp_to_ws_binary: "m \<in> set (fst (tcp_to_ws ins)) \<Longrightarrow> \<exists>b. m = MBinary b \<and> b \<noteq> []"
  by (induction ins rule: tcp_to_ws.induct) (auto split: if_splits prod.splits)

lemma tcp_to_ws_prefix:
  "\<exists>rest. concat (map (\<lambda>r. case r of (TcpRead b, _) \<Rightarrow> b | _ \<Rightarrow> []) ins)
     = concat (map (\<lambda>m. case m of MBinary b \<Rightarrow> b | _ \<Rightarrow> []) (fst (tcp_to_ws ins))) @ rest"
  by (induction ins rule: tcp_to_ws.induct) (auto split: prod.splits)

lemma ws_to_tcp_sound:
  "\<forall>i \<in> set ins. (\<exists>b. i = (WsGot (MBinary b), True)) \<Longrightarrow>
    ws_to_tcp ins = (map (\<lambda>i. case i of (WsGot (MBinary b), _) \<Rightarrow> b | _ \<Rightarrow> []) ins, PumpOk)"
  by (induction ins rule: ws_to_tcp.induct) auto

lemma ws_to_ws_binary:
  "\<forall>m \<in> set ms. m \<noteq> MClose \<Longrightarrow> ws_to_ws (map (\<lambda>m. (WsGot m, True)) ms) = (ms, PumpOk)"
  by (induction ms) (auto split: ws_message.splits)

lemma tcp_to_ws_all:
  "\<forall>r \<in> set reads. r \<noteq> [] \<Longrightarrow>
    tcp_to_ws (map (\<lambda>r. (TcpRead r, True)) reads) = (map MBinary reads, PumpOk)"
  by (induction reads) auto

text \<open>
  Transparent rewrapping: bytes read from a TCP side in any chunks, sent as WebSocket
  frames, forwarded across a WebSocket pair and written to a TCP side again, arrive complete
  and in order, and no pump reports an error when no read or send fails.
\<close>

theorem pump_chain_transparent:
  assumes "\<forall>r \<in> set reads. r \<noteq> []"
    and "tcp_to_ws (map (\<lambda>r. (TcpRead r, True)) reads) = (frames, e1)"
    and "ws_to_ws (map (\<lambda>m. (WsGot m, True)) frames) = (frames', e2)"
    and "ws_to_tcp (map (\<lambda>m. (WsGot m, True)) frames') = (writes, e3)"
  shows "concat writes = concat reads \<and> e1 = PumpOk \<and> e2 = PumpOk \<and> e3 = PumpOk"
proof -
  have f: "frames = map MBinary reads" "e1 = PumpOk"
    using tcp_to_ws_all [OF assms(1)] assms(2) by auto
  then have g: "frames' = frames" "e2 = PumpOk"
    using ws_to_ws_binary [of frames] assms(3) by auto
  have "ws_to_tcp (map (\<lambda>m. (WsGot m, True)) (map MBinary reads)) = (reads, PumpOk)"
    by (subst ws_to_tcp_sound) (auto simp: comp_def)
  with f g assms(4) show ?thesis by auto
qed

theorem pump_chain_transparent_witness:
  "concat (fst (ws_to_tcp (map (\<lambda>m. (WsGot m, True))
     (fst (ws_to_ws (map (\<lambda>m. (WsGot m, True))
       (fst (tcp_to_ws (map (\<lambda>r. (TcpRead r, True)) [[1, 2], [3]])))))))))
   = [1, 2, 3]"
proof -
  have r: "\<forall>r \<in> set [[1, 2], [3 :: u8]]. r \<noteq> []" by simp
  from pump_chain_transparent [OF r prod.collapse [symmetric] prod.collapse [symmetric] prod.collapse [symmetric]]
  show ?thesis by simp
qed

fun live_prefix :: "(ws_in \<times> bool) list \<Rightarrow> ws_message list" where
  "live_prefix [] = []"
| "live_prefix ((WsFail, _) # _) = []"
| "live_prefix ((WsGot m, ok) # rest) =
     (if m = MClose \<or> (\<exists>b. m = MBinary b) \<and> \<not> ok then [] else m # live_prefix rest)"

text \<open>
  What reaches the TCP side of a mixed pair, for any behaviour of the WebSocket: exactly
  the payloads of the binary messages before the first close, failure or failed write, in
  order; text, ping and pong messages are never written to the byte stream.
\<close>

theorem ws_to_tcp_binary_only:
  "fst (ws_to_tcp ins) = [b. MBinary b \<leftarrow> live_prefix ins]"
  by (induction ins rule: ws_to_tcp.induct) (auto split: ws_message.splits prod.splits)

section \<open>The two loops of a pair, side by side\<close>

text \<open>
  One iteration of each loop: what it sends, and how the loop ends if it ends there. The
  condition of a \<open>while let\<close>, the end of the stream, is \<open>None\<close> below.
\<close>

fun ws_ws_iter :: "ws_in \<times> bool \<Rightarrow> ws_message list \<times> pump_end option" where
  "ws_ws_iter (WsFail, _) = ([], Some PumpErr)"
| "ws_ws_iter (WsGot m, ok) =
     (if m = MClose then ([], Some PumpOk)
      else if ok then ([m], None) else ([], Some PumpErr))"

fun tcp_ws_iter :: "tcp_in \<times> bool \<Rightarrow> ws_message list \<times> pump_end option" where
  "tcp_ws_iter (TcpReadError, _) = ([], Some PumpErr)"
| "tcp_ws_iter (TcpRead buf, ok) =
     (if buf = [] then ([], Some PumpOk)
      else if ok then ([MBinary buf], None) else ([], Some PumpErr))"

fun ws_tcp_iter :: "ws_in \<times> bool \<Rightarrow> bytes list \<times> pump_end option" where
  "ws_tcp_iter (WsFail, _) = ([], Some PumpErr)"
| "ws_tcp_iter (WsGot m, ok) =
     (case m of
        MBinary b \<Rightarrow> (if ok then ([b], None) else ([], Some PumpErr))
      | MClose \<Rightarrow> ([], Some PumpOk)
      | _ \<Rightarrow> ([], None))"

text \<open>
  \<open>try_join!\<close> returns the first error as soon as there is one, and success when both loops have
  succeeded; then the pair's sockets are dropped.
\<close>

definition try_join :: "pump_end option \<Rightarrow> pump_end option \<Rightarrow> pump_end option" where
  "try_join a b =
     (if a = Some PumpErr \<or> b = Some PumpErr then Some PumpErr
      else if a = Some PumpOk \<and> b = Some PumpOk then Some PumpOk
      else None)"

record ('a, 'b) duplex =
  fwd_end :: "pump_end option"
  bwd_end :: "pump_end option"
  fwd_out :: "'a list"
  bwd_out :: "'b list"

definition duplex_init :: "('a, 'b) duplex" where
  "duplex_init = \<lparr>fwd_end = None, bwd_end = None, fwd_out = [], bwd_out = []\<rparr>"

datatype ('i, 'j) duplex_event = Fwd "'i option" | Bwd "'j option"

definition turn :: "('i \<Rightarrow> 'a list \<times> pump_end option) \<Rightarrow> 'i option \<Rightarrow> 'a list \<times> pump_end option" where
  "turn f i = (case i of None \<Rightarrow> ([], Some PumpOk) | Some x \<Rightarrow> f x)"

definition duplex_step ::
  "('i \<Rightarrow> 'a list \<times> pump_end option) \<Rightarrow> ('j \<Rightarrow> 'b list \<times> pump_end option)
     \<Rightarrow> ('i, 'j) duplex_event \<Rightarrow> ('a, 'b) duplex \<Rightarrow> ('a, 'b) duplex" where
  "duplex_step f g ev s =
     (if try_join (fwd_end s) (bwd_end s) \<noteq> None then s
      else case ev of
        Fwd i \<Rightarrow>
          (if fwd_end s \<noteq> None then s
           else let (out, e) = turn f i in s\<lparr>fwd_out := fwd_out s @ out, fwd_end := e\<rparr>)
      | Bwd i \<Rightarrow>
          (if bwd_end s \<noteq> None then s
           else let (out, e) = turn g i in s\<lparr>bwd_out := bwd_out s @ out, bwd_end := e\<rparr>))"

definition duplex_run ::
  "('i \<Rightarrow> 'a list \<times> pump_end option) \<Rightarrow> ('j \<Rightarrow> 'b list \<times> pump_end option)
     \<Rightarrow> ('i, 'j) duplex_event list \<Rightarrow> ('a, 'b) duplex \<Rightarrow> ('a, 'b) duplex" where
  "duplex_run f g evs s = fold (duplex_step f g) evs s"

text \<open>The inputs of the forward and of the backward loop, up to the end of its stream.\<close>

fun fwd_ins :: "('i, 'j) duplex_event list \<Rightarrow> 'i list" where
  "fwd_ins [] = []"
| "fwd_ins (Fwd (Some x) # evs) = x # fwd_ins evs"
| "fwd_ins (Fwd None # evs) = []"
| "fwd_ins (Bwd _ # evs) = fwd_ins evs"

fun bwd_ins :: "('i, 'j) duplex_event list \<Rightarrow> 'j list" where
  "bwd_ins [] = []"
| "bwd_ins (Bwd (Some x) # evs) = x # bwd_ins evs"
| "bwd_ins (Bwd None # evs) = []"
| "bwd_ins (Fwd _ # evs) = bwd_ins evs"

lemma duplex_run_simps [simp]:
  "duplex_run f g [] s = s"
  "duplex_run f g (ev # evs) s = duplex_run f g evs (duplex_step f g ev s)"
  by (simp_all add: duplex_run_def)

lemma duplex_run_joined:
  "try_join (fwd_end s) (bwd_end s) \<noteq> None \<Longrightarrow> duplex_run f g evs s = s"
  by (induction evs) (simp_all add: duplex_step_def)

section \<open>A loop on its own, and in a pair\<close>

text \<open>
  What the two loops of a pair have in common: an iteration and the loop as a whole, which
  ends with the iteration that says so and sends nothing there.
\<close>

locale pump_loop =
  fixes iter :: "'i \<Rightarrow> 'a list \<times> pump_end option" and whole :: "'i list \<Rightarrow> 'a list \<times> pump_end"
  assumes whole_Nil: "whole [] = ([], PumpOk)"
    and whole_more: "iter i = (out, None) \<Longrightarrow> fst (whole (i # rest)) = out @ fst (whole rest)"
    and whole_last: "iter i = (out, Some e) \<Longrightarrow> out = [] \<and> whole (i # rest) = ([], e)"
begin

definition pending_out :: "('i, 'j) duplex_event list \<Rightarrow> ('a, 'b) duplex \<Rightarrow> 'a list" where
  "pending_out evs s = (if fwd_end s = None then fst (whole (fwd_ins evs)) else [])"

lemma step_pending_out:
  assumes "try_join (fwd_end s) (bwd_end s) = None"
  shows "fwd_out s @ pending_out (ev # evs) s
    = fwd_out (duplex_step iter g ev s) @ pending_out evs (duplex_step iter g ev s)"
proof (cases ev)
  case (Bwd j)
  then show ?thesis
    using assms by (auto simp: duplex_step_def pending_out_def split: prod.splits)
next
  case (Fwd i)
  show ?thesis
  proof (cases i)
    case None
    with Fwd assms show ?thesis
      by (auto simp: duplex_step_def pending_out_def turn_def whole_Nil)
  next
    case (Some x)
    obtain out e where x: "iter x = (out, e)" by (cases "iter x")
    with Fwd Some assms whole_last [of x out _ "fwd_ins evs"] show ?thesis
      by (cases e) (auto simp: duplex_step_def pending_out_def turn_def whole_more)
  qed
qed

lemma run_pending_out:
  "(\<exists>rest. fwd_out s @ pending_out evs s = fwd_out (duplex_run iter g evs s) @ rest)
    \<and> (bwd_end (duplex_run iter g evs s) \<noteq> Some PumpErr
        \<longrightarrow> fwd_out s @ pending_out evs s = fwd_out (duplex_run iter g evs s))"
proof (induction evs arbitrary: s)
  case Nil
  show ?case by (simp add: pending_out_def whole_Nil)
next
  case (Cons ev evs)
  show ?case
  proof (cases "try_join (fwd_end s) (bwd_end s) = None")
    case False
    then show ?thesis
      by (auto simp: duplex_run_joined pending_out_def try_join_def simp del: duplex_run_simps split: if_splits)
  next
    case True
    with Cons.IH [of "duplex_step iter g ev s"] show ?thesis
      by (simp add: step_pending_out [OF True, of ev evs g])
  qed
qed

lemma loop_outputs:
  "(\<exists>rest. fst (whole (fwd_ins evs)) = fwd_out (duplex_run iter g evs duplex_init) @ rest)
    \<and> (bwd_end (duplex_run iter g evs duplex_init) \<noteq> Some PumpErr
        \<longrightarrow> fst (whole (fwd_ins evs)) = fwd_out (duplex_run iter g evs duplex_init))"
  using run_pending_out [of duplex_init evs g] by (simp add: pending_out_def duplex_init_def)

end

text \<open>The backward loop is the forward loop of the pair seen from the other side.\<close>

definition mirror :: "('a, 'b) duplex \<Rightarrow> ('b, 'a) duplex" where
  "mirror s = \<lparr>fwd_end = bwd_end s, bwd_end = fwd_end s, fwd_out = bwd_out s, bwd_out = fwd_out s\<rparr>"

fun mirror_event :: "('i, 'j) duplex_event \<Rightarrow> ('j, 'i) duplex_event" where
  "mirror_event (Fwd i) = Bwd i"
| "mirror_event (Bwd i) = Fwd i"

lemma try_join_commute: "try_join a b = try_join b a"
  by (auto simp: try_join_def)

lemma duplex_step_mirror:
  "duplex_step g f (mirror_event ev) (mirror s) = mirror (duplex_step f g ev s)"
  by (cases ev) (auto simp: duplex_step_def mirror_def try_join_commute split: prod.splits)

lemma duplex_run_mirror:
  "duplex_run g f (map mirror_event evs) (mirror s) = mirror (duplex_run f g evs s)"
  by (induction evs arbitrary: s) (simp_all add: duplex_step_mirror)

lemma fwd_ins_mirror [simp]: "fwd_ins (map mirror_event evs) = bwd_ins evs"
  by (induction evs rule: bwd_ins.induct) auto

interpretation ws_loop: pump_loop ws_ws_iter ws_to_ws
proof
  show "ws_ws_iter i = (out, None) \<Longrightarrow> fst (ws_to_ws (i # rest)) = out @ fst (ws_to_ws rest)" for i out rest
    by (cases i rule: ws_ws_iter.cases) (auto split: ws_message.splits prod.splits if_splits)
  show "ws_ws_iter i = (out, Some e) \<Longrightarrow> out = [] \<and> ws_to_ws (i # rest) = ([], e)" for i out e rest
    by (cases i rule: ws_ws_iter.cases) (auto split: ws_message.splits prod.splits if_splits)
qed simp

interpretation tcp_loop: pump_loop tcp_ws_iter tcp_to_ws
proof
  show "tcp_ws_iter i = (out, None) \<Longrightarrow> fst (tcp_to_ws (i # rest)) = out @ fst (tcp_to_ws rest)" for i out rest
    by (cases i rule: tcp_ws_iter.cases) (auto split: prod.splits if_splits)
  show "tcp_ws_iter i = (out, Some e) \<Longrightarrow> out = [] \<and> tcp_to_ws (i # rest) = ([], e)" for i out e rest
    by (cases i rule: tcp_ws_iter.cases) (auto split: prod.splits if_splits)
qed simp

interpretation mixed_loop: pump_loop ws_tcp_iter ws_to_tcp
proof
  show "ws_tcp_iter i = (out, None) \<Longrightarrow> fst (ws_to_tcp (i # rest)) = out @ fst (ws_to_tcp rest)" for i out rest
    by (cases i rule: ws_tcp_iter.cases) (auto split: ws_message.splits prod.splits if_splits)
  show "ws_tcp_iter i = (out, Some e) \<Longrightarrow> out = [] \<and> ws_to_tcp (i # rest) = ([], e)" for i out e rest
    by (cases i rule: ws_tcp_iter.cases) (auto split: ws_message.splits prod.splits if_splits)
qed simp

section \<open>The pumps of the three kinds of pair\<close>

text \<open>\<open>tokio::io::copy\<close> between two raw sockets is a parameter: its iteration is \<open>copy\<close>.\<close>

definition pump_tcp_tcp ::
  "('i \<Rightarrow> bytes list \<times> pump_end option) \<Rightarrow> ('i, 'i) duplex_event list \<Rightarrow> (bytes, bytes) duplex" where
  "pump_tcp_tcp copy evs = duplex_run copy copy evs duplex_init"

definition pump_ws_ws ::
  "(ws_in \<times> bool, ws_in \<times> bool) duplex_event list \<Rightarrow> (ws_message, ws_message) duplex" where
  "pump_ws_ws evs = duplex_run ws_ws_iter ws_ws_iter evs duplex_init"

definition pump_tcp_ws ::
  "(tcp_in \<times> bool, ws_in \<times> bool) duplex_event list \<Rightarrow> (ws_message, bytes) duplex" where
  "pump_tcp_ws evs = duplex_run tcp_ws_iter ws_tcp_iter evs duplex_init"

abbreviation pump_result :: "('a, 'b) duplex \<Rightarrow> pump_end option" where
  "pump_result s \<equiv> try_join (fwd_end s) (bwd_end s)"

lemma mirror_init [simp]: "mirror duplex_init = duplex_init"
  by (simp add: mirror_def duplex_init_def)

lemma mirror_sel:
  "bwd_out s = fwd_out (mirror s)" "fwd_end s = bwd_end (mirror s)"
  by (simp_all add: mirror_def)

lemmas run_mirrored = duplex_run_mirror [where s = duplex_init, unfolded mirror_init, symmetric]

lemma bwd_out_run: "bwd_out (duplex_run f g evs duplex_init)
    = fwd_out (duplex_run g f (map mirror_event evs) duplex_init)"
  by (simp only: mirror_sel run_mirrored)

lemma fwd_end_run: "fwd_end (duplex_run f g evs duplex_init)
    = bwd_end (duplex_run g f (map mirror_event evs) duplex_init)"
  by (simp only: mirror_sel run_mirrored)

lemma no_error_in_result:
  "try_join a b \<noteq> Some PumpErr \<longleftrightarrow> a \<noteq> Some PumpErr \<and> b \<noteq> Some PumpErr"
  by (simp add: try_join_def)

text \<open>
  C18. For every interleaving of what the two sockets of a pair do, each side is sent a prefix of
  what the loop towards it would send on its own, and all of it unless the pump ends with an
  error: the loops disturb each other only when one fails. This for two WebSockets and for
  the mixed pair.
\<close>

theorem pumps_do_not_interfere:
  "(\<exists>r. fst (ws_to_ws (fwd_ins evs)) = fwd_out (pump_ws_ws evs) @ r)
    \<and> (\<exists>r. fst (ws_to_ws (bwd_ins evs)) = bwd_out (pump_ws_ws evs) @ r)
    \<and> (pump_result (pump_ws_ws evs) \<noteq> Some PumpErr \<longrightarrow>
         fwd_out (pump_ws_ws evs) = fst (ws_to_ws (fwd_ins evs))
         \<and> bwd_out (pump_ws_ws evs) = fst (ws_to_ws (bwd_ins evs)))
    \<and> (\<exists>r. fst (tcp_to_ws (fwd_ins evs')) = fwd_out (pump_tcp_ws evs') @ r)
    \<and> (\<exists>r. fst (ws_to_tcp (bwd_ins evs')) = bwd_out (pump_tcp_ws evs') @ r)
    \<and> (pump_result (pump_tcp_ws evs') \<noteq> Some PumpErr \<longrightarrow>
         fwd_out (pump_tcp_ws evs') = fst (tcp_to_ws (fwd_ins evs'))
         \<and> bwd_out (pump_tcp_ws evs') = fst (ws_to_tcp (bwd_ins evs')))"
  using ws_loop.loop_outputs [of evs ws_ws_iter]
    ws_loop.loop_outputs [of "map mirror_event evs" ws_ws_iter]
    tcp_loop.loop_outputs [of evs' ws_tcp_iter]
    mixed_loop.loop_outputs [of "map mirror_event evs'" tcp_ws_iter]
  unfolding no_error_in_result
  by (simp add: pump_ws_ws_def pump_tcp_ws_def bwd_out_run fwd_end_run)

theorem pumps_do_not_interfere_witness:
  "fwd_out (pump_tcp_ws [Fwd (Some (TcpRead [7], True)), Bwd None, Fwd None]) = [MBinary [7]]
    \<and> pump_result (pump_tcp_ws [Fwd (Some (TcpRead [7], True)), Bwd None, Fwd None]) = Some PumpOk"
proof -
  let ?evs = "[Fwd (Some (TcpRead [7], True)), Bwd None, Fwd None]"
  have r: "pump_result (pump_tcp_ws ?evs) = Some PumpOk"
    by (simp add: pump_tcp_ws_def duplex_step_def duplex_init_def turn_def try_join_def)
  with pumps_do_not_interfere [where evs' = ?evs and evs = "[]"]
  have "fwd_out (pump_tcp_ws ?evs) = fst (tcp_to_ws (fwd_ins ?evs))" by simp
  with r show ?thesis by simp
qed

section \<open>One side hangs up\<close>

lemma bwd_goes_on:
  assumes "fwd_end s = Some PumpOk" "bwd_end s = None" "\<forall>i \<in> set later. snd (g i) = None"
  shows "fwd_end (duplex_run f g (map (\<lambda>i. Bwd (Some i)) later) s) = Some PumpOk
    \<and> bwd_end (duplex_run f g (map (\<lambda>i. Bwd (Some i)) later) s) = None
    \<and> fwd_out (duplex_run f g (map (\<lambda>i. Bwd (Some i)) later) s) = fwd_out s"
  using assms
proof (induction later arbitrary: s)
  case (Cons i later)
  then obtain out where "g i = (out, None)" by (cases "g i") auto
  then have "duplex_step f g (Bwd (Some i)) s = s\<lparr>bwd_out := bwd_out s @ out, bwd_end := None\<rparr>"
    using Cons.prems by (simp add: duplex_step_def turn_def try_join_def)
  with Cons show ?case by simp
qed simp

lemma hangup_lingers:
  assumes "fwd_end s = None" "bwd_end s = None" "turn f x = ([], Some PumpOk)"
    and "\<forall>i \<in> set later. snd (g i) = None"
  shows "fwd_out (duplex_run f g (Fwd x # map (\<lambda>i. Bwd (Some i)) later) s) = fwd_out s
    \<and> pump_result (duplex_run f g (Fwd x # map (\<lambda>i. Bwd (Some i)) later) s) = None"
proof -
  have "duplex_step f g (Fwd x) s = s\<lparr>fwd_end := Some PumpOk\<rparr>"
    using assms by (simp add: duplex_step_def try_join_def)
  then show ?thesis
    using bwd_goes_on [of "duplex_step f g (Fwd x) s" later g f] assms(2,4)
    by (simp add: try_join_def)
qed

text \<open>
  When one peer of a running pair hangs up, by closing its WebSocket or by the end of its TCP
  stream, the other peer is sent nothing, no close frame and no end of stream, and the pump
  does not end as long as the other peer goes on as before: whatever it still sends, or if it
  sends nothing. Only its own hanging up or a failing send ends the session.
\<close>

theorem hangup_not_forwarded:
  assumes "fwd_end s = None" "bwd_end s = None" "fwd_end u = None" "bwd_end u = None"
    and "\<forall>i \<in> set later. snd (ws_ws_iter i) = None" "\<forall>i \<in> set later'. snd (ws_tcp_iter i) = None"
    and "x \<in> {None, Some (WsGot MClose, ok)}" "y \<in> {None, Some (TcpRead [], ok)}"
  shows "fwd_out (duplex_run ws_ws_iter ws_ws_iter (Fwd x # map (\<lambda>i. Bwd (Some i)) later) s) = fwd_out s
    \<and> pump_result (duplex_run ws_ws_iter ws_ws_iter (Fwd x # map (\<lambda>i. Bwd (Some i)) later) s) = None
    \<and> fwd_out (duplex_run tcp_ws_iter ws_tcp_iter (Fwd y # map (\<lambda>i. Bwd (Some i)) later') u) = fwd_out u
    \<and> pump_result (duplex_run tcp_ws_iter ws_tcp_iter (Fwd y # map (\<lambda>i. Bwd (Some i)) later') u) = None"
proof -
  have "turn ws_ws_iter x = ([], Some PumpOk)" "turn tcp_ws_iter y = ([], Some PumpOk)"
    using assms(7,8) by (auto simp: turn_def)
  with assms show ?thesis by (simp only: hangup_lingers)
qed

theorem hangup_not_forwarded_witness:
  "pump_result (duplex_run ws_ws_iter ws_ws_iter
      [Fwd (Some (WsGot MClose, True)), Bwd (Some (WsGot (MBinary [5]), True))] duplex_init) = None"
proof -
  have "\<forall>i \<in> set [(WsGot (MBinary [5]), True)]. snd (ws_ws_iter i) = None"
    "\<forall>i \<in> set []. snd (ws_tcp_iter i) = None" by simp_all
  from hangup_not_forwarded [where s = duplex_init and u = duplex_init, OF _ _ _ _ this,
      where x = "Some (WsGot MClose, True)" and y = None and ok = True]
  show ?thesis by (simp add: duplex_init_def del: duplex_run_simps)
qed

end
