(* ===== verification/Warmup.thy ===== *)
theory Warmup
  imports Relay_Prelude "HOL-Library.AList"
begin

text \<open>
  NAL classification and the warm-up cache of \<open>crates/stream/src/main.rs\<close>: \<open>classify_nal\<close>
  and \<open>WarmupWindow\<close> with \<open>record\<close> and \<open>snapshot\<close>. A frame is the list of its bytes. The
  \<open>HashMap\<close> of parameter sets is an association list with distinct keys; \<open>snapshot\<close> sorts the
  keys, so the order of the list never shows. The abstract cache at the end has no counters and
  no lists to clear; the concrete one refines it.
\<close>

section \<open>Classification\<close>

datatype codec = Hevc | H264

datatype nal_kind = ParamSet codec u8 | Keyframe | Delta | Unknown

definition NAL_TIMESTAMP_PREFIX :: nat where
  "NAL_TIMESTAMP_PREFIX = 8"

definition WARMUP_DELTA_MAX_BYTES :: nat where
  "WARMUP_DELTA_MAX_BYTES = 16 * 1024 * 1024"

definition WARMUP_KEY_MAX_BYTES :: nat where
  "WARMUP_KEY_MAX_BYTES = 8 * 1024 * 1024"

definition classify_known :: "codec \<Rightarrow> u8 \<Rightarrow> nal_kind" where
  "classify_known c first =
     (let h264_type = first AND 0x1f; hevc_type = drop_bit 1 first AND 0x3f
      in case c of
           Hevc \<Rightarrow>
             (if hevc_type = 32 \<or> hevc_type = 33 \<or> hevc_type = 34 then ParamSet Hevc hevc_type
              else if 16 \<le> hevc_type \<and> hevc_type \<le> 23 then Keyframe
              else Delta)
         | H264 \<Rightarrow>
             (if h264_type = 7 \<or> h264_type = 8 then ParamSet H264 h264_type
              else if h264_type = 5 then Keyframe
              else Delta))"

definition classify_discovery :: "u8 \<Rightarrow> nal_kind" where
  "classify_discovery first =
     (let h264_type = first AND 0x1f; hevc_type = drop_bit 1 first AND 0x3f
      in if hevc_type = 32 \<or> hevc_type = 33 \<or> hevc_type = 34 then ParamSet Hevc hevc_type
         else if h264_type = 7 \<or> h264_type = 8 then ParamSet H264 h264_type
         else Unknown)"

definition classify_nal :: "bytes \<Rightarrow> codec option \<Rightarrow> nal_kind" where
  "classify_nal stamped known_codec =
     (if length stamped \<le> NAL_TIMESTAMP_PREFIX then Unknown
      else
        let body = drop NAL_TIMESTAMP_PREFIX stamped in
        case (if starts_with body [0, 0, 0, 1] then Some 4
              else if starts_with body [0, 0, 1] then Some 3
              else None) of
          None \<Rightarrow> Unknown
        | Some off \<Rightarrow>
            (if length body \<le> off then Unknown
             else case known_codec of
                    Some c \<Rightarrow> classify_known c (body ! off)
                  | None \<Rightarrow> classify_discovery (body ! off)))"

section \<open>The window\<close>

record warmup_window =
  win_codec :: "codec option"
  param_sets :: "(u8 \<times> bytes) list"
  keyframe :: "bytes list"
  keyframe_total_bytes :: nat
  since_keyframe :: "bytes list"
  since_keyframe_total_bytes :: nat

definition warmup_default :: warmup_window where
  "warmup_default = \<lparr>win_codec = None, param_sets = [], keyframe = [], keyframe_total_bytes = 0,
     since_keyframe = [], since_keyframe_total_bytes = 0\<rparr>"

definition snapshot :: "warmup_window \<Rightarrow> bytes list" where
  "snapshot w =
     (if keyframe w = [] then []
      else
        let keys = sort (map fst (param_sets w));
            sets = concat (map (\<lambda>k. case map_of (param_sets w) k of Some b \<Rightarrow> [b] | None \<Rightarrow> []) keys)
        in sets @ keyframe w @ since_keyframe w)"

definition record_nal :: "bytes \<Rightarrow> warmup_window \<Rightarrow> bool \<times> warmup_window" where
  "record_nal frame w =
     (case classify_nal frame (win_codec w) of
        ParamSet c nal_type \<Rightarrow>
          (let w1 = (if win_codec w = None then w\<lparr>win_codec := Some c\<rparr> else w)
           in (False, w1\<lparr>param_sets := AList.update nal_type frame (param_sets w1)\<rparr>))
      | Keyframe \<Rightarrow>
          (let w1 = w\<lparr>keyframe := [], keyframe_total_bytes := 0,
                     since_keyframe := [], since_keyframe_total_bytes := 0\<rparr>;
               len = length frame
           in (True,
               if len \<le> WARMUP_KEY_MAX_BYTES
               then w1\<lparr>keyframe_total_bytes := len, keyframe := keyframe w1 @ [frame]\<rparr>
               else w1))
      | _ \<Rightarrow>
          (if keyframe w = [] then (False, w)
           else
             let projected = saturating_add (since_keyframe_total_bytes w) (length frame)
             in if WARMUP_DELTA_MAX_BYTES < projected
                then (False, w\<lparr>since_keyframe := [], since_keyframe_total_bytes := 0,
                              keyframe := [], keyframe_total_bytes := 0\<rparr>)
                else (False, w\<lparr>since_keyframe_total_bytes := projected,
                              since_keyframe := since_keyframe w @ [frame]\<rparr>)))"

fun record_all :: "bytes list \<Rightarrow> warmup_window \<Rightarrow> warmup_window" where
  "record_all [] w = w"
| "record_all (f # fs) w = record_all fs (snd (record_nal f w))"

section \<open>The abstract cache\<close>

text \<open>
  The codec lock, the latest blob of each parameter-set type, and the anchor: the keyframe a
  replay starts from with everything that is neither keyframe nor parameter set since.
\<close>

record cache =
  lock :: "codec option"
  sets :: "u8 \<rightharpoonup> bytes"
  anchor :: "(bytes \<times> bytes list) option"

definition cache_empty :: cache where
  "cache_empty = \<lparr>lock = None, sets = Map.empty, anchor = None\<rparr>"

definition total :: "bytes list \<Rightarrow> nat" where
  "total fs = sum_list (map length fs)"

definition cache_step :: "bytes \<Rightarrow> cache \<Rightarrow> cache" where
  "cache_step f c =
     (case classify_nal f (lock c) of
        ParamSet cd t \<Rightarrow>
          c\<lparr>lock := (case lock c of None \<Rightarrow> Some cd | Some x \<Rightarrow> Some x), sets := (sets c)(t \<mapsto> f)\<rparr>
      | Keyframe \<Rightarrow>
          c\<lparr>anchor := (if length f \<le> WARMUP_KEY_MAX_BYTES then Some (f, []) else None)\<rparr>
      | _ \<Rightarrow>
          c\<lparr>anchor := (case anchor c of
             None \<Rightarrow> None
           | Some (k, ds) \<Rightarrow>
               if total ds + length f \<le> WARMUP_DELTA_MAX_BYTES then Some (k, ds @ [f]) else None)\<rparr>)"

fun cache_run :: "bytes list \<Rightarrow> cache \<Rightarrow> cache" where
  "cache_run [] c = c"
| "cache_run (f # fs) c = cache_run fs (cache_step f c)"

definition param_types :: "u8 list" where
  "param_types = [7, 8, 32, 33, 34]"

definition replay :: "cache \<Rightarrow> bytes list" where
  "replay c =
     (case anchor c of
        None \<Rightarrow> []
      | Some (k, ds) \<Rightarrow>
          concat (map (\<lambda>t. case sets c t of Some b \<Rightarrow> [b] | None \<Rightarrow> []) param_types) @ [k] @ ds)"

section \<open>The window's invariant\<close>

definition types_of :: "codec \<Rightarrow> u8 set" where
  "types_of c = (case c of Hevc \<Rightarrow> {32, 33, 34} | H264 \<Rightarrow> {7, 8})"

definition warmup_wf :: "warmup_window \<Rightarrow> bool" where
  "warmup_wf w \<longleftrightarrow>
     distinct (map fst (param_sets w))
     \<and> since_keyframe_total_bytes w = total (since_keyframe w)
     \<and> since_keyframe_total_bytes w \<le> WARMUP_DELTA_MAX_BYTES
     \<and> keyframe_total_bytes w = total (keyframe w)
     \<and> keyframe_total_bytes w \<le> WARMUP_KEY_MAX_BYTES
     \<and> length (keyframe w) \<le> 1
     \<and> (keyframe w = [] \<longrightarrow> since_keyframe w = [])
     \<and> (case win_codec w of
          None \<Rightarrow> param_sets w = [] \<and> keyframe w = []
        | Some c \<Rightarrow>
            (\<forall>(t, f) \<in> set (param_sets w). t \<in> types_of c \<and> classify_nal f (Some c) = ParamSet c t)
            \<and> (\<forall>f \<in> set (keyframe w). classify_nal f (Some c) = Keyframe)
            \<and> (\<forall>f \<in> set (since_keyframe w). classify_nal f (Some c) \<in> {Delta, Unknown}))"

lemma total_simps [simp]: "total [] = 0" "total (fs @ gs) = total fs + total gs" "total (f # fs) = length f + total fs"
  by (simp_all add: total_def)

lemma warmup_wf_default: "warmup_wf warmup_default"
  by (simp add: warmup_wf_def warmup_default_def)

lemma classify_known_param: "classify_known c b = ParamSet d t \<Longrightarrow> d = c \<and> t \<in> types_of c"
  by (auto simp: classify_known_def types_of_def Let_def split: codec.splits if_splits)

lemma classify_discovery_param:
  "classify_discovery b = ParamSet c t \<Longrightarrow> t \<in> types_of c \<and> classify_known c b = ParamSet c t"
  by (auto simp: classify_discovery_def classify_known_def types_of_def Let_def split: if_splits)

lemma classify_discovery_kinds: "classify_discovery b \<noteq> Keyframe" "classify_discovery b \<noteq> Delta"
  by (simp_all add: classify_discovery_def Let_def)

lemma classify_nal_param:
  "classify_nal f (Some c) = ParamSet d t \<Longrightarrow> d = c \<and> t \<in> types_of c"
  by (auto simp: classify_nal_def Let_def dest: classify_known_param split: if_splits option.splits)

lemma classify_nal_discovery:
  "classify_nal f None = ParamSet c t \<Longrightarrow> t \<in> types_of c \<and> classify_nal f (Some c) = ParamSet c t"
  "classify_nal f None \<noteq> Keyframe" "classify_nal f None \<noteq> Delta"
  using classify_discovery_kinds
  by (auto simp: classify_nal_def Let_def dest: classify_discovery_param split: if_splits option.splits)

lemma delta_cap: "WARMUP_DELTA_MAX_BYTES < usize_max"
  by (simp add: WARMUP_DELTA_MAX_BYTES_def usize_max_def)

lemma set_update_subset: "set (AList.update k v xs) \<subseteq> insert (k, v) (set xs)"
  by (induction xs) (auto split: if_splits)

lemma distinct_update: "distinct (map fst xs) \<Longrightarrow> distinct (map fst (AList.update k v xs))"
  by (rule distinct_update)

lemma record_param:
  assumes "classify_nal f (win_codec w) = ParamSet c t"
  shows "record_nal f w = (False, w\<lparr>win_codec := (case win_codec w of None \<Rightarrow> Some c | Some x \<Rightarrow> Some x),
    param_sets := AList.update t f (param_sets w)\<rparr>)"
  using assms by (auto simp: record_nal_def Let_def split: option.splits)

lemma record_key:
  assumes "classify_nal f (win_codec w) = Keyframe"
  shows "record_nal f w = (True, w\<lparr>keyframe := (if length f \<le> WARMUP_KEY_MAX_BYTES then [f] else []),
    keyframe_total_bytes := (if length f \<le> WARMUP_KEY_MAX_BYTES then length f else 0),
    since_keyframe := [], since_keyframe_total_bytes := 0\<rparr>)"
  using assms by (simp add: record_nal_def Let_def)

lemma record_delta:
  assumes "classify_nal f (win_codec w) \<in> {Delta, Unknown}"
  shows "record_nal f w =
    (False, if keyframe w = [] then w
      else if since_keyframe_total_bytes w + length f \<le> WARMUP_DELTA_MAX_BYTES
      then w\<lparr>since_keyframe := since_keyframe w @ [f],
             since_keyframe_total_bytes := since_keyframe_total_bytes w + length f\<rparr>
      else w\<lparr>keyframe := [], keyframe_total_bytes := 0, since_keyframe := [],
             since_keyframe_total_bytes := 0\<rparr>)"
proof -
  let ?n = "since_keyframe_total_bytes w" and ?l = "length f"
  have "saturating_add ?n ?l = ?n + ?l" if "saturating_add ?n ?l \<le> WARMUP_DELTA_MAX_BYTES"
    using that delta_cap by (auto simp: saturating_add_def)
  then show ?thesis
    using assms saturating_add_le_iff [OF delta_cap, of ?n ?l]
    by (auto simp: record_nal_def Let_def not_less)
qed

lemma nal_kind_cases:
  obtains (param) c t where "classify_nal f k = ParamSet c t"
  | (key) "classify_nal f k = Keyframe"
  | (delta) "classify_nal f k \<in> {Delta, Unknown}"
  by (cases "classify_nal f k") auto

lemma record_wf:
  assumes "warmup_wf w"
  shows "warmup_wf (snd (record_nal f w))"
proof (cases f "win_codec w" rule: nal_kind_cases)
  case (param c t)
  have u: "set (AList.update t f (param_sets w)) \<subseteq> insert (t, f) (set (param_sets w))"
    by (rule set_update_subset)
  show ?thesis
  proof (cases "win_codec w")
    case None
    with param have "t \<in> types_of c \<and> classify_nal f (Some c) = ParamSet c t"
      by (simp add: classify_nal_discovery)
    with assms None show ?thesis by (simp add: record_param [OF param] warmup_wf_def)
  next
    case (Some x)
    with param have "c = x" "t \<in> types_of c" "classify_nal f (Some x) = ParamSet x t"
      using classify_nal_param by auto
    with assms Some u show ?thesis
      by (auto simp: record_param [OF param] warmup_wf_def distinct_update)
  qed
next
  case key
  then obtain c where "win_codec w = Some c" "classify_nal f (Some c) = Keyframe"
    using classify_nal_discovery(2) by (cases "win_codec w") auto
  with assms show ?thesis by (auto simp: record_key [OF key] warmup_wf_def)
next
  case delta
  with assms show ?thesis
    by (auto simp: record_delta [OF delta] warmup_wf_def split: option.splits)
qed

section \<open>The window refines the abstract cache\<close>

definition abs_window :: "warmup_window \<Rightarrow> cache" where
  "abs_window w = \<lparr>lock = win_codec w, sets = map_of (param_sets w),
     anchor = (case keyframe w of [] \<Rightarrow> None | k # _ \<Rightarrow> Some (k, since_keyframe w))\<rparr>"

lemma abs_window_default: "abs_window warmup_default = cache_empty"
  by (simp add: abs_window_def warmup_default_def cache_empty_def)

lemma lock_abs: "lock (abs_window w) = win_codec w"
  by (simp add: abs_window_def)

lemma map_of_alist_update: "map_of (AList.update k v xs) = (map_of xs)(k \<mapsto> v)"
  by (rule ext) (simp add: update_conv')

lemma record_abs:
  assumes "warmup_wf w"
  shows "abs_window (snd (record_nal f w)) = cache_step f (abs_window w)"
proof (cases f "win_codec w" rule: nal_kind_cases)
  case (param c t)
  then show ?thesis
    by (simp add: record_param [OF param] abs_window_def cache_step_def map_of_alist_update split: list.splits)
next
  case key
  then show ?thesis by (simp add: record_key [OF key] abs_window_def cache_step_def)
next
  case delta
  have "length (keyframe w) \<le> 1" "since_keyframe_total_bytes w = total (since_keyframe w)"
    using assms by (auto simp: warmup_wf_def)
  with delta show ?thesis
    by (cases "keyframe w")
       (auto simp: record_delta [OF delta] abs_window_def cache_step_def split: nal_kind.splits)
qed

lemma record_all_fold: "record_all fs w = fold (\<lambda>f w. snd (record_nal f w)) fs w"
  by (induction fs arbitrary: w) simp_all

lemma record_all_append: "record_all (fs @ gs) w = record_all gs (record_all fs w)"
  by (simp add: record_all_fold)

lemma cache_run_fold: "cache_run fs c = fold cache_step fs c"
  by (induction fs arbitrary: c) simp_all

interpretation window: event_refinement "\<lambda>f w. snd (record_nal f w)" warmup_wf cache_step abs_window
  by unfold_locales (simp_all add: record_wf record_abs)

lemma record_all_wf: "warmup_wf w \<Longrightarrow> warmup_wf (record_all fs w)"
  unfolding record_all_fold by (rule window.run_ok)

lemma record_all_abs:
  "warmup_wf w \<Longrightarrow> abs_window (record_all fs w) = cache_run fs (abs_window w)"
  unfolding record_all_fold cache_run_fold by (rule window.run_abs)

lemma concat_map_filter: "(\<And>x. \<not> P x \<Longrightarrow> g x = []) \<Longrightarrow> concat (map g (filter P xs)) = concat (map g xs)"
  by (induction xs) auto

lemma types_of_param_types: "types_of c \<subseteq> set param_types"
  by (auto simp: types_of_def param_types_def split: codec.splits)

lemma sort_keys:
  assumes "distinct ks" "set ks \<subseteq> set param_types"
  shows "sort ks = filter (\<lambda>t. t \<in> set ks) param_types"
proof (rule sorted_distinct_set_unique)
  show "sorted (filter (\<lambda>t. t \<in> set ks) param_types)"
    by (rule sorted_wrt_filter) (simp add: param_types_def)
  show "distinct (filter (\<lambda>t. t \<in> set ks) param_types)"
    by (rule distinct_filter) (simp add: param_types_def)
qed (use assms in auto)

lemma snapshot_abs:
  assumes "warmup_wf w"
  shows "snapshot w = replay (abs_window w)"
proof (cases "keyframe w")
  case Nil
  then show ?thesis by (simp add: snapshot_def replay_def abs_window_def)
next
  case (Cons k rest)
  then have rest: "rest = []" using assms by (auto simp: warmup_wf_def)
  let ?ks = "map fst (param_sets w)"
  have "set ?ks \<subseteq> set param_types"
    using assms subsetD [OF types_of_param_types] by (fastforce simp: warmup_wf_def split: option.splits)
  moreover have "distinct ?ks" using assms by (simp add: warmup_wf_def)
  ultimately have "sort ?ks = filter (\<lambda>t. t \<in> set ?ks) param_types" by (intro sort_keys)
  then show ?thesis
    unfolding snapshot_def replay_def abs_window_def Let_def
    by (simp add: Cons rest, subst concat_map_filter)
       (auto simp: map_of_eq_None_iff image_iff split: option.splits)
qed

text \<open>Nothing is replayed that was not recorded.\<close>

definition window_within :: "bytes set \<Rightarrow> warmup_window \<Rightarrow> bool" where
  "window_within A w \<longleftrightarrow> set (keyframe w) \<subseteq> A \<and> set (since_keyframe w) \<subseteq> A
     \<and> (\<forall>x \<in> set (param_sets w). snd x \<in> A)"

lemma record_within: "window_within A w \<Longrightarrow> window_within (insert f A) (snd (record_nal f w))"
proof (cases f "win_codec w" rule: nal_kind_cases)
  case (param c t)
  assume "window_within A w"
  then show ?thesis
    using set_update_subset [of t f "param_sets w"] by (fastforce simp: window_within_def record_param [OF param])
next
  case key
  assume "window_within A w"
  then show ?thesis by (auto simp: window_within_def record_key [OF key])
next
  case delta
  assume "window_within A w"
  then show ?thesis by (auto simp: window_within_def record_delta [OF delta])
qed

lemma record_all_within: "window_within A w \<Longrightarrow> window_within (A \<union> set fs) (record_all fs w)"
proof (induction fs arbitrary: A w)
  case (Cons f fs)
  from Cons.IH [OF record_within [OF Cons.prems]] show ?case by simp
qed simp

lemma snapshot_within: "window_within A w \<Longrightarrow> set (snapshot w) \<subseteq> A"
  by (auto simp: snapshot_def window_within_def Let_def dest!: map_of_SomeD [OF sym] split: option.splits)

lemma snapshot_recorded: "set (snapshot (record_all fs warmup_default)) \<subseteq> set fs"
  using snapshot_within [OF record_all_within [of "{}" warmup_default fs]]
  by (simp add: window_within_def warmup_default_def)

lemma snapshot_run: "snapshot (record_all fs warmup_default) = replay (cache_run fs cache_empty)"
  by (simp add: snapshot_abs record_all_wf record_all_abs warmup_wf_default abs_window_default)

section \<open>What a replay is, in terms of the history\<close>

text \<open>The last frame of the history that is a parameter set of type \<open>t\<close>.\<close>

definition latest :: "codec \<Rightarrow> u8 \<Rightarrow> bytes list \<Rightarrow> bytes option" where
  "latest c t fs = find (\<lambda>f. classify_nal f (Some c) = ParamSet c t) (rev fs)"

definition latest_sets :: "codec \<Rightarrow> bytes list \<Rightarrow> bytes list" where
  "latest_sets c fs = concat (map (\<lambda>t. case latest c t fs of Some b \<Rightarrow> [b] | None \<Rightarrow> []) param_types)"

text \<open>The frames that ride on a keyframe: neither keyframe nor parameter set.\<close>

definition riders :: "codec \<Rightarrow> bytes list \<Rightarrow> bytes list" where
  "riders c fs = filter (\<lambda>f. classify_nal f (Some c) \<in> {Delta, Unknown}) fs"

lemma cache_run_append: "cache_run (fs @ gs) c = cache_run gs (cache_run fs c)"
  by (induction fs arbitrary: c) auto

lemma cache_step_lock: "lock c = Some x \<Longrightarrow> lock (cache_step f c) = Some x"
  by (auto simp: cache_step_def split: nal_kind.splits)

lemma cache_run_lock: "lock c = Some x \<Longrightarrow> lock (cache_run fs c) = Some x"
  by (induction fs arbitrary: c) (auto simp: cache_step_lock)

lemma classify_known_not_unknown: "classify_known c b = ParamSet d t \<Longrightarrow> classify_discovery b \<noteq> Unknown"
  by (cases c) (auto simp: classify_known_def classify_discovery_def Let_def split: if_splits)

lemma unknown_not_param: "classify_nal f None = Unknown \<Longrightarrow> classify_nal f (Some c) \<noteq> ParamSet d t"
  using classify_known_not_unknown [of c _ d t]
  by (auto simp: classify_nal_def Let_def split: if_splits)

lemma discovery_cases:
  obtains (param) c t where "classify_nal f None = ParamSet c t" "classify_nal f (Some c) = ParamSet c t"
  | (unknown) "classify_nal f None = Unknown"
  using classify_nal_discovery [of f] by (cases "classify_nal f None") auto

lemma cache_unlocked:
  "lock (cache_run fs cache_empty) = None \<Longrightarrow>
    cache_run fs cache_empty = cache_empty \<and> (\<forall>f \<in> set fs. classify_nal f None = Unknown)"
proof (induction fs rule: rev_induct)
  case Nil
  show ?case by simp
next
  case (snoc f fs)
  have "lock (cache_run fs cache_empty) = None"
    using snoc.prems cache_step_lock [of "cache_run fs cache_empty" _ f]
    by (cases "lock (cache_run fs cache_empty)") (auto simp: cache_run_append)
  with snoc.IH have ih: "cache_run fs cache_empty = cache_empty" "\<forall>f \<in> set fs. classify_nal f None = Unknown"
    by auto
  show ?case
  proof (cases f rule: discovery_cases)
    case (param c t)
    with snoc.prems ih show ?thesis by (simp add: cache_run_append cache_step_def cache_empty_def)
  next
    case unknown
    with ih show ?thesis by (simp add: cache_run_append cache_step_def cache_empty_def)
  qed
qed

lemma latest_snoc:
  "latest c t (fs @ [f]) = (if classify_nal f (Some c) = ParamSet c t then Some f else latest c t fs)"
  by (simp add: latest_def)

lemma latest_unknown: "\<forall>f \<in> set fs. classify_nal f None = Unknown \<Longrightarrow> latest c t fs = None"
  using unknown_not_param by (auto simp: latest_def find_None_iff)

lemma cache_run_sets:
  "lock (cache_run fs cache_empty) = Some c \<Longrightarrow> sets (cache_run fs cache_empty) t = latest c t fs"
proof (induction fs rule: rev_induct)
  case Nil
  then show ?case by (simp add: cache_empty_def)
next
  case (snoc f fs)
  let ?c = "cache_run fs cache_empty"
  show ?case
  proof (cases "lock ?c")
    case None
    then have u: "?c = cache_empty" "latest c t fs = None"
      using cache_unlocked latest_unknown by auto
    show ?thesis
      using snoc.prems u
      by (cases f rule: discovery_cases)
         (auto simp: cache_run_append cache_step_def cache_empty_def latest_snoc dest: unknown_not_param)
  next
    case (Some x)
    with snoc.prems have "x = c" using cache_step_lock [of ?c x f] by (simp add: cache_run_append)
    with Some snoc.IH have ih: "sets ?c t = latest c t fs" "lock ?c = Some c" by auto
    then show ?thesis
      using classify_nal_param [of f c]
      by (auto simp: cache_run_append cache_step_def latest_snoc split: nal_kind.splits)
  qed
qed

lemma cache_run_anchor:
  assumes "lock c = Some x" "\<forall>f \<in> set fs. classify_nal f (Some x) \<noteq> Keyframe"
  shows "anchor (cache_run fs c) =
    (case anchor c of None \<Rightarrow> None
     | Some (k, ds) \<Rightarrow>
         if riders x fs = [] \<or> total ds + total (riders x fs) \<le> WARMUP_DELTA_MAX_BYTES
         then Some (k, ds @ riders x fs) else None)"
  using assms
proof (induction fs arbitrary: c)
  case Nil
  then show ?case by (auto simp: riders_def split: option.splits)
next
  case (Cons f fs)
  then have ih: "anchor (cache_run fs (cache_step f c)) =
    (case anchor (cache_step f c) of None \<Rightarrow> None
     | Some (k, ds) \<Rightarrow>
         if riders x fs = [] \<or> total ds + total (riders x fs) \<le> WARMUP_DELTA_MAX_BYTES
         then Some (k, ds @ riders x fs) else None)"
    by (simp add: cache_step_lock)
  show ?case
  proof (cases f "Some x" rule: nal_kind_cases)
    case (param d t)
    then have r: "riders x (f # fs) = riders x fs" by (simp add: riders_def)
    show ?thesis unfolding r using param Cons.prems(1) ih by (simp add: cache_step_def)
  next
    case key
    with Cons.prems(2) show ?thesis by simp
  next
    case delta
    then have r: "riders x (f # fs) = f # riders x fs" by (auto simp: riders_def)
    from delta Cons.prems(1) have "cache_step f c = c\<lparr>anchor := (case anchor c of
             None \<Rightarrow> None
           | Some (k, ds) \<Rightarrow>
               if total ds + length f \<le> WARMUP_DELTA_MAX_BYTES then Some (k, ds @ [f]) else None)\<rparr>"
      by (auto simp: cache_step_def)
    with ih show ?thesis
      unfolding r cache_run.simps by (auto split: option.splits if_splits)
  qed
qed

section \<open>Properties\<close>

text \<open>
  C19. What a viewer is replayed, as a function of everything the publisher sent. Take any
  history that splits at its last keyframe \<open>k\<close>, recognised by the codec the room had locked to
  when \<open>k\<close> arrived. If \<open>k\<close> fits its cap and the frames riding on it fit theirs, the snapshot is
  the most recent parameter set of each type over the whole history, in increasing type order,
  then \<open>k\<close>, then every later frame that is not a parameter set, in order; otherwise it is empty.
\<close>

theorem warmup_replay_history:
  assumes "win_codec (record_all pre warmup_default) = Some c"
    and "classify_nal k (Some c) = Keyframe"
    and "\<forall>f \<in> set post. classify_nal f (Some c) \<noteq> Keyframe"
  shows "snapshot (record_all (pre @ [k] @ post) warmup_default) =
    (if length k \<le> WARMUP_KEY_MAX_BYTES \<and> total (riders c post) \<le> WARMUP_DELTA_MAX_BYTES
     then latest_sets c (pre @ [k] @ post) @ [k] @ riders c post else [])"
proof -
  let ?c = "cache_run pre cache_empty"
  have l: "lock ?c = Some c"
    using assms(1) record_all_abs [OF warmup_wf_default, of pre] lock_abs [of "record_all pre warmup_default"]
    by (simp add: abs_window_default)
  let ?k = "cache_step k ?c"
  have k: "lock ?k = Some c" "anchor ?k = (if length k \<le> WARMUP_KEY_MAX_BYTES then Some (k, []) else None)"
    using l assms(2) by (simp_all add: cache_step_def)
  have run: "cache_run (pre @ [k] @ post) cache_empty = cache_run post ?k"
    by (simp add: cache_run_append)
  have "sets (cache_run post ?k) t = latest c t (pre @ [k] @ post)" for t
    using cache_run_sets [of "pre @ [k] @ post" c t] cache_run_lock [OF k(1), of post] run by simp
  then have s: "sets (cache_run post ?k) = (\<lambda>t. latest c t (pre @ [k] @ post))" by blast
  have "riders c post = [] \<Longrightarrow> total (riders c post) \<le> WARMUP_DELTA_MAX_BYTES" by simp
  then show ?thesis
    unfolding snapshot_run run replay_def s latest_sets_def
    using cache_run_anchor [OF k(1) assms(3)] k(2) by auto
qed

definition demo_nal :: "u8 \<Rightarrow> bytes" where
  "demo_nal b = replicate 8 0 @ [0, 0, 0, 1, b, 9]"

lemma classify_demo [simp]:
  "classify_nal (demo_nal b) (Some c) = classify_known c b"
  "classify_nal (demo_nal b) None = classify_discovery b"
  by (simp_all add: demo_nal_def classify_nal_def NAL_TIMESTAMP_PREFIX_def Let_def eval_nat_numeral)

lemmas classify_eval = classify_known_def classify_discovery_def Let_def

theorem warmup_replay_history_witness:
  "snapshot (record_all ([demo_nal 0x67, demo_nal 0x68] @ [demo_nal 0x65] @ [demo_nal 0x41, demo_nal 0x68, demo_nal 0x01])
     warmup_default)
   = [demo_nal 0x67, demo_nal 0x68, demo_nal 0x65, demo_nal 0x41, demo_nal 0x01]"
proof -
  let ?pre = "[demo_nal 0x67, demo_nal 0x68]" and ?post = "[demo_nal 0x41, demo_nal 0x68, demo_nal 0x01]"
  have "win_codec (record_all ?pre warmup_default) = Some H264"
    by (simp add: record_nal_def warmup_default_def classify_eval)
  moreover have "\<forall>f \<in> set ?post. classify_nal f (Some H264) \<noteq> Keyframe"
    by (simp add: classify_eval)
  moreover have r: "riders H264 ?post = [demo_nal 0x41, demo_nal 0x01]"
    by (simp add: riders_def classify_eval)
  moreover have "latest_sets H264 (?pre @ [demo_nal 0x65] @ ?post) = [demo_nal 0x67, demo_nal 0x68]"
    by (simp add: latest_sets_def latest_def param_types_def classify_eval)
  moreover have "length (demo_nal 0x65) \<le> WARMUP_KEY_MAX_BYTES"
    "total [demo_nal 0x41, demo_nal 0x01] \<le> WARMUP_DELTA_MAX_BYTES"
    by (simp_all add: demo_nal_def WARMUP_KEY_MAX_BYTES_def WARMUP_DELTA_MAX_BYTES_def)
  ultimately show ?thesis
    using warmup_replay_history [of ?pre H264 "demo_nal 0x65" ?post] by (simp add: classify_eval)
qed

text \<open>
  C20. The cache is bounded for any publisher, however hostile: at most one keyframe of at most
  8 MiB, at most 16 MiB of frames riding on it, at most three parameter sets, and the two byte
  counters are always exactly the sizes they stand for.
\<close>

theorem warmup_window_bounded:
  "let w = record_all fs warmup_default in
     length (keyframe w) \<le> 1 \<and> total (keyframe w) \<le> WARMUP_KEY_MAX_BYTES
     \<and> total (since_keyframe w) \<le> WARMUP_DELTA_MAX_BYTES
     \<and> length (param_sets w) \<le> 3
     \<and> keyframe_total_bytes w = total (keyframe w)
     \<and> since_keyframe_total_bytes w = total (since_keyframe w)"
proof -
  let ?w = "record_all fs warmup_default"
  have wf: "warmup_wf ?w" by (rule record_all_wf [OF warmup_wf_default])
  have "length (param_sets ?w) = card (fst ` set (param_sets ?w))"
    using wf distinct_card [of "map fst (param_sets ?w)"] by (simp add: warmup_wf_def)
  also have "\<dots> \<le> 3"
  proof (cases "win_codec ?w")
    case None
    with wf show ?thesis by (simp add: warmup_wf_def)
  next
    case (Some c)
    with wf have "fst ` set (param_sets ?w) \<subseteq> types_of c" by (auto simp: warmup_wf_def)
    then have "card (fst ` set (param_sets ?w)) \<le> card (types_of c)"
      by (rule card_mono [rotated]) (simp add: types_of_def split: codec.split)
    also have "\<dots> \<le> 3" by (simp add: types_of_def split: codec.split)
    finally show ?thesis .
  qed
  finally show ?thesis using wf by (simp add: warmup_wf_def Let_def)
qed

definition self_contained :: "codec \<Rightarrow> bytes list \<Rightarrow> bool" where
  "self_contained c fs \<longleftrightarrow>
     (\<exists>ts ps k ds. fs = ps @ [k] @ ds \<and> sorted_wrt (<) ts
        \<and> map (\<lambda>p. classify_nal p (Some c)) ps = map (ParamSet c) ts
        \<and> classify_nal k (Some c) = Keyframe
        \<and> riders c ds = ds)"

lemma present_values:
  "concat (map (\<lambda>t. case m t of Some b \<Rightarrow> [b] | None \<Rightarrow> []) xs)
    = map (\<lambda>t. the (m t)) (filter (\<lambda>t. m t \<noteq> None) xs)"
  by (induction xs) auto

text \<open>
  A replay is never a fragment: it is empty, or it is, all for one codec, parameter sets of
  strictly increasing type, then exactly one keyframe, then frames that are neither, so the
  decoder of a fresh viewer can always start on it.
\<close>

theorem warmup_replay_self_contained:
  "snapshot (record_all fs warmup_default) = []
    \<or> (\<exists>c. win_codec (record_all fs warmup_default) = Some c
         \<and> self_contained c (snapshot (record_all fs warmup_default)))"
proof (cases "keyframe (record_all fs warmup_default)")
  case Nil
  then show ?thesis by (simp add: snapshot_def)
next
  case (Cons k rest)
  let ?w = "record_all fs warmup_default"
  have wf: "warmup_wf ?w" by (rule record_all_wf [OF warmup_wf_default])
  with Cons have rest: "rest = []" by (simp add: warmup_wf_def)
  from wf Cons obtain c where c: "win_codec ?w = Some c"
    by (auto simp: warmup_wf_def split: option.splits)
  let ?m = "map_of (param_sets ?w)"
  let ?ts = "filter (\<lambda>t. ?m t \<noteq> None) param_types"
  let ?ps = "map (\<lambda>t. the (?m t)) ?ts"
  have "snapshot ?w = ?ps @ [k] @ since_keyframe ?w"
    by (simp add: snapshot_abs [OF wf] replay_def abs_window_def Cons rest present_values)
  moreover have "sorted_wrt (<) ?ts"
    by (rule sorted_wrt_filter) (simp add: param_types_def)
  moreover have "map (\<lambda>p. classify_nal p (Some c)) ?ps = map (ParamSet c) ?ts"
    using wf c by (auto simp: warmup_wf_def dest!: map_of_SomeD)
  moreover have "classify_nal k (Some c) = Keyframe" "riders c (since_keyframe ?w) = since_keyframe ?w"
    using wf c Cons by (auto simp: warmup_wf_def riders_def filter_id_conv)
  ultimately have "self_contained c (snapshot ?w)"
    unfolding self_contained_def by blast
  with c show ?thesis by blast
qed

lemma classify_framed:
  assumes "length ts = 8"
  shows "classify_nal (ts @ [0, 0, 0, 1, b] @ pay) k =
    (case k of Some c \<Rightarrow> classify_known c b | None \<Rightarrow> classify_discovery b)"
  using assms by (simp add: classify_nal_def NAL_TIMESTAMP_PREFIX_def Let_def eval_nat_numeral split: option.split)

text \<open>
  Discovery can lock the room to the wrong codec. The comment in \<open>classify_nal\<close> says the
  HEVC parameter-set types alias only reserved H264 codes; the header byte 0x41, an ordinary
  H264 non-IDR slice, reads as an HEVC VPS. When it is the first frame of a room, the room is
  locked to HEVC, and no H264 stream with the usual header bytes is ever cached: every viewer
  that joins is replayed nothing, however many IDR frames and parameter sets follow.
\<close>

theorem warmup_misreads_h264:
  assumes "length ts = 8"
    and "\<forall>f \<in> set post. \<exists>t b p. length t = 8 \<and> f = t @ [0, 0, 0, 1, b] @ p
          \<and> b \<in> {0x01, 0x06, 0x09, 0x41, 0x61, 0x65, 0x67, 0x68}"
  shows "classify_nal (ts @ [0, 0, 0, 1, 0x41] @ pay) (Some H264) = Delta
    \<and> win_codec (record_all ((ts @ [0, 0, 0, 1, 0x41] @ pay) # post) warmup_default) = Some Hevc
    \<and> snapshot (record_all ((ts @ [0, 0, 0, 1, 0x41] @ pay) # post) warmup_default) = []"
proof (intro conjI)
  let ?f = "ts @ [0, 0, 0, 1, 0x41] @ pay"
  let ?c = "cache_step ?f cache_empty"
  show "classify_nal ?f (Some H264) = Delta"
    using classify_framed [OF assms(1), of "0x41" pay] by (simp add: classify_eval)
  have "classify_nal ?f None = ParamSet Hevc 32"
    using classify_framed [OF assms(1), of "0x41" pay] by (simp add: classify_eval)
  then have c: "lock ?c = Some Hevc" "anchor ?c = None"
    by (simp_all add: cache_step_def cache_empty_def)
  have "classify_nal f (Some Hevc) \<noteq> Keyframe" if "f \<in> set post" for f
  proof -
    obtain t b p where "length t = 8" "f = t @ [0, 0, 0, 1, b] @ p"
      "b \<in> {0x01, 0x06, 0x09, 0x41, 0x61, 0x65, 0x67, 0x68}"
      using assms(2) \<open>f \<in> set post\<close> by blast
    then show ?thesis using classify_framed [of t b p "Some Hevc"] by (auto simp: classify_eval)
  qed
  then have a: "anchor (cache_run (?f # post) cache_empty) = None"
    using cache_run_anchor [OF c(1), of post] c(2) by simp
  show "snapshot (record_all (?f # post) warmup_default) = []"
    unfolding snapshot_run replay_def a by simp
  show "win_codec (record_all (?f # post) warmup_default) = Some Hevc"
    using record_all_abs [OF warmup_wf_default, of "?f # post"] cache_run_lock [OF c(1), of post]
      lock_abs [of "record_all (?f # post) warmup_default"]
    by (simp add: abs_window_default)
qed

theorem warmup_misreads_h264_witness:
  "snapshot (record_all (demo_nal 0x41 # [demo_nal 0x67, demo_nal 0x68, demo_nal 0x65, demo_nal 0x41]) warmup_default) = []"
proof -
  have nal: "demo_nal b = replicate 8 0 @ [0, 0, 0, 1, b] @ [9]" for b
    by (simp add: demo_nal_def)
  have "snapshot (record_all ((replicate 8 0 @ [0, 0, 0, 1, 0x41] @ [9]) #
      [demo_nal 0x67, demo_nal 0x68, demo_nal 0x65, demo_nal 0x41]) warmup_default) = []"
  proof (rule warmup_misreads_h264 [THEN conjunct2, THEN conjunct2])
    show "\<forall>f \<in> set [demo_nal 0x67, demo_nal 0x68, demo_nal 0x65, demo_nal 0x41].
      \<exists>t b p. length t = 8 \<and> f = t @ [0, 0, 0, 1, b] @ p
        \<and> b \<in> {0x01, 0x06, 0x09, 0x41, 0x61, 0x65, 0x67, 0x68}"
      unfolding nal by (auto intro!: exI [of _ "replicate 8 0"])
  qed simp
  then show ?thesis by (simp add: nal)
qed

end
