(* ===== verification/Rooms.thy ===== *)
theory Rooms
  imports Warmup "HOL-Library.Sublist" "HOL-Library.Multiset"
begin

text \<open>
  The rooms of \<open>crates/stream/src/main.rs\<close>: \<open>room_for\<close>, \<open>handle_publisher\<close> and
  \<open>handle_viewer\<close>. The tasks of the publishers and viewers interleave at their shared-state
  operations, so each handler is cut into steps there: looking the room up, recording a frame,
  fanning it out, cleaning up, subscribing, taking the snapshot. A room is an \<open>Arc\<close>: handlers
  keep the identity they looked up, the map may meanwhile hold another one.

  The broadcast channel is tokio's. What the code relies on is its documented contract: a
  receiver gets the values sent after it subscribed, in order, except for those a \<open>Lagged(n)\<close>
  reports as skipped. The model keeps the log of the values sent, and \<open>delivers\<close> states the
  contract.
\<close>

section \<open>Rooms\<close>

record room_state =
  receivers :: "nat list"
  warmup :: warmup_window
  recorded :: "(nat \<times> bytes) list"
  sent :: "(nat \<times> bytes) list"

definition room_new :: room_state where
  "room_new = \<lparr>receivers = [], warmup = warmup_default, recorded = [], sent = []\<rparr>"

definition receiver_count :: "room_state \<Rightarrow> nat" where
  "receiver_count r = length (receivers r)"

text \<open>The program counters of a publisher's and of a viewer's task.\<close>

datatype pub_pc =
    PubIdle
  | PubConnected string nat
  | PubRecorded string nat bytes
  | PubLeaving string
  | PubGone

datatype viewer_pc =
    VIdle
  | VJoined nat
  | VSubscribed nat nat
  | VLive nat nat nat "bytes list"
  | VGone

record stream =
  rooms :: "string \<rightharpoonup> nat"
  heap :: "nat \<Rightarrow> room_state"
  next_room :: nat
  pubs :: "nat \<Rightarrow> pub_pc"
  viewers :: "nat \<Rightarrow> viewer_pc"

definition stream_init :: stream where
  "stream_init = \<lparr>rooms = Map.empty, heap = (\<lambda>_. room_new), next_room = 0,
     pubs = (\<lambda>_. PubIdle), viewers = (\<lambda>_. VIdle)\<rparr>"

definition room_for :: "string \<Rightarrow> stream \<Rightarrow> nat \<times> stream" where
  "room_for k s =
     (case rooms s k of
        Some r \<Rightarrow> (r, s)
      | None \<Rightarrow> (next_room s, s\<lparr>rooms := (rooms s)(k \<mapsto> next_room s),
                  heap := (heap s)(next_room s := room_new), next_room := Suc (next_room s)\<rparr>))"

text \<open>\<open>room.warmup.lock()\<close> and \<open>record\<close>, then \<open>room.tx.send\<close>.\<close>

definition publish_record :: "nat \<Rightarrow> bytes \<Rightarrow> room_state \<Rightarrow> room_state" where
  "publish_record p f r = r\<lparr>warmup := snd (record_nal f (warmup r)), recorded := recorded r @ [(p, f)]\<rparr>"

definition publish_send :: "nat \<Rightarrow> bytes \<Rightarrow> room_state \<Rightarrow> room_state" where
  "publish_send p f r = r\<lparr>sent := sent r @ [(p, f)]\<rparr>"

text \<open>The end of \<open>handle_publisher\<close>: it looks the peer's room up again.\<close>

definition publisher_cleanup :: "string \<Rightarrow> stream \<Rightarrow> stream" where
  "publisher_cleanup k s =
     (case rooms s k of
        Some r \<Rightarrow> (if receiver_count (heap s r) = 0 then s\<lparr>rooms := (rooms s)(k := None)\<rparr> else s)
      | None \<Rightarrow> s)"

definition subscribe :: "nat \<Rightarrow> room_state \<Rightarrow> room_state" where
  "subscribe v r = r\<lparr>receivers := v # receivers r\<rparr>"

definition unsubscribe :: "nat \<Rightarrow> room_state \<Rightarrow> room_state" where
  "unsubscribe v r = r\<lparr>receivers := removeAll v (receivers r)\<rparr>"

definition at_room :: "nat \<Rightarrow> (room_state \<Rightarrow> room_state) \<Rightarrow> stream \<Rightarrow> stream" where
  "at_room r g s = s\<lparr>heap := (heap s)(r := g (heap s r))\<rparr>"

inductive stream_step :: "stream \<Rightarrow> stream \<Rightarrow> bool" where
  pub_open: "pubs s p = PubIdle \<Longrightarrow> room_for k s = (r, s1) \<Longrightarrow>
    stream_step s (s1\<lparr>pubs := (pubs s1)(p := PubConnected k r)\<rparr>)"
| pub_frame: "pubs s p = PubConnected k r \<Longrightarrow>
    stream_step s ((at_room r (publish_record p f) s)\<lparr>pubs := (pubs s)(p := PubRecorded k r f)\<rparr>)"
| pub_fanout: "pubs s p = PubRecorded k r f \<Longrightarrow>
    stream_step s ((at_room r (publish_send p f) s)\<lparr>pubs := (pubs s)(p := PubConnected k r)\<rparr>)"
| pub_close: "pubs s p = PubConnected k r \<Longrightarrow>
    stream_step s (s\<lparr>pubs := (pubs s)(p := PubLeaving k)\<rparr>)"
| pub_error: "pubs s p = PubConnected k r \<Longrightarrow>
    stream_step s (s\<lparr>pubs := (pubs s)(p := PubGone)\<rparr>)"
| pub_cleanup: "pubs s p = PubLeaving k \<Longrightarrow>
    stream_step s ((publisher_cleanup k s)\<lparr>pubs := (pubs s)(p := PubGone)\<rparr>)"
| view_open: "viewers s v = VIdle \<Longrightarrow> room_for k s = (r, s1) \<Longrightarrow>
    stream_step s (s1\<lparr>viewers := (viewers s1)(v := VJoined r)\<rparr>)"
| view_subscribe: "viewers s v = VJoined r \<Longrightarrow>
    stream_step s ((at_room r (subscribe v) s)
      \<lparr>viewers := (viewers s)(v := VSubscribed r (length (sent (heap s r))))\<rparr>)"
| view_snapshot: "viewers s v = VSubscribed r m \<Longrightarrow>
    stream_step s (s\<lparr>viewers := (viewers s)
      (v := VLive r m (length (recorded (heap s r))) (snapshot (warmup (heap s r))))\<rparr>)"
| view_end: "viewers s v = VLive r m n fs \<Longrightarrow>
    stream_step s ((at_room r (unsubscribe v) s)\<lparr>viewers := (viewers s)(v := VGone)\<rparr>)"

inductive stream_reachable :: "stream \<Rightarrow> bool" where
  init: "stream_reachable stream_init"
| step: "stream_reachable s \<Longrightarrow> stream_step s s' \<Longrightarrow> stream_reachable s'"

section \<open>Rooms are allocated once\<close>

fun pub_room :: "pub_pc \<Rightarrow> nat option" where
  "pub_room (PubConnected k r) = Some r"
| "pub_room (PubRecorded k r f) = Some r"
| "pub_room _ = None"

fun viewer_room :: "viewer_pc \<Rightarrow> nat option" where
  "viewer_room (VJoined r) = Some r"
| "viewer_room (VSubscribed r m) = Some r"
| "viewer_room (VLive r m n fs) = Some r"
| "viewer_room _ = None"

fun subscribed :: "viewer_pc \<Rightarrow> nat option" where
  "subscribed (VSubscribed r m) = Some r"
| "subscribed (VLive r m n fs) = Some r"
| "subscribed _ = None"

definition alloc_ok :: "stream \<Rightarrow> bool" where
  "alloc_ok s \<longleftrightarrow>
     (\<forall>k r. rooms s k = Some r \<longrightarrow> r < next_room s)
     \<and> (\<forall>p r. pub_room (pubs s p) = Some r \<longrightarrow> r < next_room s)
     \<and> (\<forall>v r. viewer_room (viewers s v) = Some r \<longrightarrow> r < next_room s)"

lemma alloc_okI:
  assumes "\<And>k r. rooms s k = Some r \<Longrightarrow> r < next_room s"
    and "\<And>p r. pub_room (pubs s p) = Some r \<Longrightarrow> r < next_room s"
    and "\<And>v r. viewer_room (viewers s v) = Some r \<Longrightarrow> r < next_room s"
  shows "alloc_ok s"
  using assms by (auto simp: alloc_ok_def)

lemma alloc_okD:
  assumes "alloc_ok s"
  shows "rooms s k = Some r \<Longrightarrow> r < next_room s"
    and "pub_room (pubs s p) = Some r \<Longrightarrow> r < next_room s"
    and "viewer_room (viewers s v) = Some r \<Longrightarrow> r < next_room s"
    and "pubs s p = PubConnected k r \<Longrightarrow> r < next_room s"
    and "pubs s p = PubRecorded k r f \<Longrightarrow> r < next_room s"
    and "viewers s v = VJoined r \<Longrightarrow> r < next_room s"
    and "viewers s v = VSubscribed r m \<Longrightarrow> r < next_room s"
    and "viewers s v = VLive r m n fs \<Longrightarrow> r < next_room s"
proof -
  note a = assms [unfolded alloc_ok_def]
  show "pubs s p = PubConnected k r \<Longrightarrow> r < next_room s"
    "pubs s p = PubRecorded k r f \<Longrightarrow> r < next_room s"
    using a by (metis pub_room.simps)+
  show "viewers s v = VJoined r \<Longrightarrow> r < next_room s"
    "viewers s v = VSubscribed r m \<Longrightarrow> r < next_room s"
    "viewers s v = VLive r m n fs \<Longrightarrow> r < next_room s"
    using a by (metis viewer_room.simps)+
qed (use assms in \<open>auto simp: alloc_ok_def\<close>)

lemma room_for_cases:
  assumes "room_for k s = (r, s1)"
  obtains (found) "rooms s k = Some r" "s1 = s"
  | (fresh) "rooms s k = None" "r = next_room s"
      "s1 = s\<lparr>rooms := (rooms s)(k \<mapsto> next_room s), heap := (heap s)(next_room s := room_new),
        next_room := Suc (next_room s)\<rparr>"
  using assms by (auto simp: room_for_def split: option.splits)

lemma at_room_simps [simp]:
  "rooms (at_room r g s) = rooms s" "next_room (at_room r g s) = next_room s"
  "pubs (at_room r g s) = pubs s" "viewers (at_room r g s) = viewers s"
  "heap (at_room r g s) = (heap s)(r := g (heap s r))"
  by (simp_all add: at_room_def)

lemma publisher_cleanup_simps [simp]:
  "heap (publisher_cleanup k s) = heap s" "next_room (publisher_cleanup k s) = next_room s"
  "pubs (publisher_cleanup k s) = pubs s" "viewers (publisher_cleanup k s) = viewers s"
  by (auto simp: publisher_cleanup_def split: option.splits)

lemma publisher_cleanup_rooms:
  "rooms (publisher_cleanup k s) j =
    (if j = k \<and> (\<exists>r. rooms s k = Some r \<and> receivers (heap s r) = []) then None else rooms s j)"
  by (auto simp: publisher_cleanup_def receiver_count_def split: option.splits)

lemma alloc_ok_step:
  assumes "stream_step s s'" "alloc_ok s"
  shows "alloc_ok s'"
  using assms(1)
proof cases
  case (pub_open p k r s1)
  with assms(2) show ?thesis
    by (cases rule: room_for_cases [OF pub_open(3)])
       (auto intro!: alloc_okI dest: alloc_okD simp: less_Suc_eq split: if_splits)
next
  case (view_open v k r s1)
  with assms(2) show ?thesis
    by (cases rule: room_for_cases [OF view_open(3)])
       (auto intro!: alloc_okI dest: alloc_okD simp: less_Suc_eq split: if_splits)
qed (use assms(2) in \<open>auto intro!: alloc_okI dest: alloc_okD simp: publisher_cleanup_rooms split: if_splits\<close>)

section \<open>What a room holds\<close>

definition of_pub :: "nat \<Rightarrow> (nat \<times> bytes) list \<Rightarrow> (nat \<times> bytes) list" where
  "of_pub p xs = filter (\<lambda>x. fst x = p) xs"

lemma of_pub_simps [simp]:
  "of_pub p [] = []" "of_pub p (xs @ ys) = of_pub p xs @ of_pub p ys"
  "of_pub p [(q, f)] = (if q = p then [(q, f)] else [])"
  by (simp_all add: of_pub_def)

text \<open>The frame a publisher has recorded in the room and not yet fanned out.\<close>

definition flight :: "nat \<Rightarrow> pub_pc \<Rightarrow> nat \<Rightarrow> (nat \<times> bytes) list" where
  "flight p pc r = (case pc of PubRecorded k r' f \<Rightarrow> if r' = r then [(p, f)] else [] | _ \<Rightarrow> [])"

lemma flight_simps [simp]:
  "flight p (PubConnected k r') r = []" "flight p (PubLeaving k) r = []"
  "flight p PubIdle r = []" "flight p PubGone r = []"
  "flight p (PubRecorded k r' f) r = (if r' = r then [(p, f)] else [])"
  by (simp_all add: flight_def)

lemma flight_unallocated: "alloc_ok s \<Longrightarrow> flight p (pubs s p) (next_room s) = []"
  by (auto simp: flight_def dest: alloc_okD split: pub_pc.split)

lemma unsubscribed_unallocated: "alloc_ok s \<Longrightarrow> subscribed (viewers s v) \<noteq> Some (next_room s)"
  by (cases "viewers s v") (auto dest: alloc_okD)

definition room_ok :: "stream \<Rightarrow> nat \<Rightarrow> bool" where
  "room_ok s r \<longleftrightarrow>
     warmup (heap s r) = record_all (map snd (recorded (heap s r))) warmup_default
     \<and> (\<forall>p. of_pub p (recorded (heap s r)) = of_pub p (sent (heap s r)) @ flight p (pubs s p) r)
     \<and> (\<forall>v. v \<in> set (receivers (heap s r)) \<longleftrightarrow> subscribed (viewers s v) = Some r)"

lemma room_ok_step:
  assumes "stream_step s s'" "alloc_ok s" "\<And>r. room_ok s r"
  shows "room_ok s' r"
  using assms(1)
proof cases
  case (pub_open p k r0 s1)
  then show ?thesis
    using assms(3) [of r] flight_unallocated [OF assms(2)] unsubscribed_unallocated [OF assms(2)]
    by (cases rule: room_for_cases [OF pub_open(3)]) (auto simp: room_ok_def room_new_def)
next
  case (view_open v k r0 s1)
  then show ?thesis
    using assms(3) [of r] flight_unallocated [OF assms(2)] unsubscribed_unallocated [OF assms(2)]
    by (cases rule: room_for_cases [OF view_open(3)]) (auto simp: room_ok_def room_new_def)
next
  case (pub_frame p k r0 f)
  then show ?thesis
    using assms(3) [of r]
    by (auto simp: room_ok_def publish_record_def record_all_append)
next
  case (pub_fanout p k r0 f)
  then show ?thesis
    using assms(3) [of r] by (auto simp: room_ok_def publish_send_def)
qed (use assms(3) [of r] in \<open>auto simp: room_ok_def subscribe_def unsubscribe_def\<close>)

section \<open>What a viewer has seen\<close>

text \<open>
  A viewer that subscribed at position \<open>m\<close> of the room's log of sent frames and took its
  snapshot at position \<open>n\<close> of the recorded ones: the snapshot accounts for the first \<open>n\<close>
  recorded frames, and what each publisher recorded after that is, in order, the end of what it
  has sent or is about to send since the subscription.
\<close>

definition caught_up :: "stream \<Rightarrow> nat \<Rightarrow> nat \<Rightarrow> nat \<Rightarrow> bytes list \<Rightarrow> bool" where
  "caught_up s r m n fs \<longleftrightarrow>
     m \<le> length (sent (heap s r)) \<and> m \<le> n \<and> n \<le> length (recorded (heap s r))
     \<and> fs = snapshot (record_all (map snd (take n (recorded (heap s r)))) warmup_default)
     \<and> (\<forall>p. suffix (of_pub p (drop n (recorded (heap s r))))
              (of_pub p (drop m (sent (heap s r))) @ flight p (pubs s p) r))"

definition viewer_ok :: "stream \<Rightarrow> viewer_pc \<Rightarrow> bool" where
  "viewer_ok s pc =
     (case pc of
        VSubscribed r m \<Rightarrow> m \<le> length (sent (heap s r)) \<and> m \<le> length (recorded (heap s r))
      | VLive r m n fs \<Rightarrow> caught_up s r m n fs
      | _ \<Rightarrow> True)"

lemma caught_up_record:
  assumes "caught_up s r m n fs" "pubs s p = PubConnected k r0"
  shows "caught_up ((at_room r0 (publish_record p f) s)\<lparr>pubs := (pubs s)(p := PubRecorded k r0 f)\<rparr>) r m n fs" (is "caught_up ?s' r m n fs")
proof -
  have old: "m \<le> length (sent (heap s r))" "m \<le> n" "n \<le> length (recorded (heap s r))"
    "fs = snapshot (record_all (map snd (take n (recorded (heap s r)))) warmup_default)"
    "\<And>q. suffix (of_pub q (drop n (recorded (heap s r))))
      (of_pub q (drop m (sent (heap s r))) @ flight q (pubs s q) r)"
    using assms(1) by (simp_all add: caught_up_def)
  have suf: "suffix (of_pub q (drop n (recorded (heap ?s' r))))
      (of_pub q (drop m (sent (heap ?s' r))) @ flight q (pubs ?s' q) r)" for q
    using old(1-3) old(5) [of q] assms(2)
    by (cases "q = p"; cases "r0 = r") (auto simp: publish_record_def publish_send_def suffix_def)
  have "m \<le> length (sent (heap ?s' r))" "n \<le> length (recorded (heap ?s' r))"
    "take n (recorded (heap ?s' r)) = take n (recorded (heap s r))"
    using old(1-3) by (auto simp: publish_record_def publish_send_def)
  with old(2,4) suf show ?thesis by (simp add: caught_up_def)
qed

lemma caught_up_send:
  assumes "caught_up s r m n fs" "pubs s p = PubRecorded k r0 f"
  shows "caught_up ((at_room r0 (publish_send p f) s)\<lparr>pubs := (pubs s)(p := PubConnected k r0)\<rparr>) r m n fs" (is "caught_up ?s' r m n fs")
proof -
  have old: "m \<le> length (sent (heap s r))" "m \<le> n" "n \<le> length (recorded (heap s r))"
    "fs = snapshot (record_all (map snd (take n (recorded (heap s r)))) warmup_default)"
    "\<And>q. suffix (of_pub q (drop n (recorded (heap s r))))
      (of_pub q (drop m (sent (heap s r))) @ flight q (pubs s q) r)"
    using assms(1) by (simp_all add: caught_up_def)
  have suf: "suffix (of_pub q (drop n (recorded (heap ?s' r))))
      (of_pub q (drop m (sent (heap ?s' r))) @ flight q (pubs ?s' q) r)" for q
    using old(1-3) old(5) [of q] assms(2)
    by (cases "q = p"; cases "r0 = r") (auto simp: publish_record_def publish_send_def suffix_def)
  have "m \<le> length (sent (heap ?s' r))" "n \<le> length (recorded (heap ?s' r))"
    "take n (recorded (heap ?s' r)) = take n (recorded (heap s r))"
    using old(1-3) by (auto simp: publish_record_def publish_send_def)
  with old(2,4) suf show ?thesis by (simp add: caught_up_def)
qed

lemma sent_le_recorded:
  assumes "room_ok s r"
  shows "length (sent (heap s r)) \<le> length (recorded (heap s r))"
proof -
  have of_pub_count: "count (mset xs) x = count (mset (of_pub (fst x) xs)) x" for x and xs :: "(nat \<times> bytes) list"
    by (induction xs) (auto simp: of_pub_def)
  have "mset (sent (heap s r)) \<subseteq># mset (recorded (heap s r))"
  proof (rule mset_subset_eqI)
    fix x
    show "count (mset (sent (heap s r))) x \<le> count (mset (recorded (heap s r))) x"
      using assms by (subst (1 2) of_pub_count) (simp add: room_ok_def)
  qed
  then show ?thesis by (metis size_mset size_mset_mono)
qed

lemma viewer_ok_cong:
  assumes "\<And>r. subscribed pc = Some r \<Longrightarrow> heap s' r = heap s r"
    and "\<And>p r. flight p (pubs s' p) r = flight p (pubs s p) r"
  shows "viewer_ok s' pc = viewer_ok s pc"
  using assms by (cases pc) (auto simp: viewer_ok_def caught_up_def)

lemma viewer_ok_step:
  assumes "stream_step s s'" "alloc_ok s" "\<And>r. room_ok s r" "viewer_ok s (viewers s v)"
  shows "viewer_ok s' (viewers s' v)"
proof -
  have new: "subscribed (viewers s v) \<noteq> Some (next_room s)"
    by (rule unsubscribed_unallocated [OF assms(2)])
  from assms(1) show ?thesis
  proof cases
    case (pub_open p k r0 s1)
    have "viewer_ok s' (viewers s v) = viewer_ok s (viewers s v)"
      by (rule viewer_ok_cong; cases rule: room_for_cases [OF pub_open(3)])
         (use pub_open(1,2) new in auto)
    moreover have "viewers s' = viewers s"
      by (cases rule: room_for_cases [OF pub_open(3)]) (simp_all add: pub_open(1))
    ultimately show ?thesis using assms(4) by simp
  next
    case (view_open u k r0 s1)
    have "viewer_ok s' (viewers s v) = viewer_ok s (viewers s v)"
      by (rule viewer_ok_cong; cases rule: room_for_cases [OF view_open(3)])
         (use view_open(1,2) new in auto)
    moreover have "viewers s' = (viewers s)(u := VJoined r0)"
      by (cases rule: room_for_cases [OF view_open(3)]) (simp_all add: view_open(1))
    ultimately show ?thesis using assms(4) by (simp add: viewer_ok_def)
  next
    case (pub_frame p k r0 f)
    have "viewers s' = viewers s" by (simp add: pub_frame(1))
    with assms(4) caught_up_record [OF _ pub_frame(2)] show ?thesis
      by (cases "viewers s v") (auto simp: viewer_ok_def pub_frame(1) publish_record_def)
  next
    case (pub_fanout p k r0 f)
    have "viewers s' = viewers s" by (simp add: pub_fanout(1))
    with assms(4) caught_up_send [OF _ pub_fanout(2)] show ?thesis
      by (cases "viewers s v") (auto simp: viewer_ok_def pub_fanout(1) publish_send_def)
  next
    case (pub_close p k r0)
    then have "viewer_ok s' (viewers s v) = viewer_ok s (viewers s v)"
      by (intro viewer_ok_cong) auto
    with assms(4) show ?thesis by (simp add: pub_close(1))
  next
    case (pub_error p k r0)
    then have "viewer_ok s' (viewers s v) = viewer_ok s (viewers s v)"
      by (intro viewer_ok_cong) auto
    with assms(4) show ?thesis by (simp add: pub_error(1))
  next
    case (pub_cleanup p k)
    then have "viewer_ok s' (viewers s v) = viewer_ok s (viewers s v)"
      by (intro viewer_ok_cong) auto
    with assms(4) show ?thesis by (simp add: pub_cleanup(1))
  next
    case (view_snapshot u r0 m)
    then show ?thesis
      using assms(4) assms(3) [of r0]
      by (auto simp: viewer_ok_def caught_up_def room_ok_def split: viewer_pc.splits)
  next
    case (view_subscribe u r0)
    with sent_le_recorded [OF assms(3)] assms(4) show ?thesis
      by (auto simp: viewer_ok_def caught_up_def subscribe_def split: viewer_pc.splits)
  qed (use assms(4) in \<open>auto simp: viewer_ok_def caught_up_def unsubscribe_def split: viewer_pc.splits\<close>)
qed

definition stream_ok :: "stream \<Rightarrow> bool" where
  "stream_ok s \<longleftrightarrow> alloc_ok s \<and> (\<forall>r. room_ok s r) \<and> (\<forall>v. viewer_ok s (viewers s v))"

interpretation stream_sys: safe_system stream_init stream_step stream_reachable stream_ok
proof
  show "stream_ok stream_init"
    by (simp add: stream_ok_def alloc_ok_def room_ok_def viewer_ok_def stream_init_def room_new_def)
  show "stream_ok t" if "stream_ok s" "stream_step s t" for s t
    using that alloc_ok_step [of s t] room_ok_step [of s t] viewer_ok_step [of s t] by (simp add: stream_ok_def)
  show "P s" if "stream_reachable s" "P stream_init" "\<And>t u. stream_reachable t \<Longrightarrow> P t \<Longrightarrow> stream_step t u \<Longrightarrow> P u"
    for s and P using that by (rule stream_reachable.induct)
qed (auto intro: stream_reachable.intros)

lemma stream_alloc_ok: "stream_reachable s \<Longrightarrow> alloc_ok s"
  and stream_room_ok: "stream_reachable s \<Longrightarrow> room_ok s r"
  and stream_viewer_ok: "stream_reachable s \<Longrightarrow> viewer_ok s (viewers s v)"
  using stream_sys.reach_safe by (simp_all add: stream_ok_def)

section \<open>What a viewer is sent\<close>

datatype recv = RecvOk bytes | RecvLagged nat | RecvClosed

text \<open>What the \<open>select!\<close> of \<open>handle_viewer\<close> meets next; the flag says whether the send to the socket succeeds.\<close>

datatype viewer_event = Heartbeat bool | Received recv bool

datatype viewer_msg = VBinary bytes | VPing

text \<open>
  The replay of the warm-up frames, given the results of the sends so far; the flag is whether
  the loop has been left with every frame sent.
\<close>

fun replay_frames :: "bytes list \<Rightarrow> bool list \<Rightarrow> viewer_msg list \<times> bool" where
  "replay_frames [] oks = ([], True)"
| "replay_frames (f # fs) [] = ([], False)"
| "replay_frames (f # fs) (ok # oks) =
     (if ok then (let (ms, fin) = replay_frames fs oks in (VBinary f # ms, fin)) else ([], False))"

fun viewer_loop :: "viewer_event list \<Rightarrow> viewer_msg list" where
  "viewer_loop [] = []"
| "viewer_loop (Heartbeat ok # es) = (if ok then VPing # viewer_loop es else [])"
| "viewer_loop (Received (RecvOk b) ok # es) = (if ok then VBinary b # viewer_loop es else [])"
| "viewer_loop (Received (RecvLagged n) ok # es) = viewer_loop es"
| "viewer_loop (Received RecvClosed ok # es) = []"

definition handle_viewer :: "bytes list \<Rightarrow> bool list \<Rightarrow> viewer_event list \<Rightarrow> viewer_msg list" where
  "handle_viewer warm oks es =
     (let (ms, fin) = replay_frames warm oks in if fin then ms @ viewer_loop es else ms)"

text \<open>The documented contract of the broadcast receiver over the frames sent since it subscribed.\<close>

fun delivers :: "bytes list \<Rightarrow> recv list \<Rightarrow> bool" where
  "delivers fs [] = True"
| "delivers fs (RecvOk b # rs) = (case fs of [] \<Rightarrow> False | f # fs' \<Rightarrow> b = f \<and> delivers fs' rs)"
| "delivers fs (RecvLagged n # rs) = (n \<le> length fs \<and> delivers (drop n fs) rs)"
| "delivers fs (RecvClosed # rs) = True"

definition recvs :: "viewer_event list \<Rightarrow> recv list" where
  "recvs es = List.map_filter (\<lambda>e. case e of Received r ok \<Rightarrow> Some r | Heartbeat ok \<Rightarrow> None) es"

definition payloads :: "viewer_msg list \<Rightarrow> bytes list" where
  "payloads ms = List.map_filter (\<lambda>m. case m of VBinary b \<Rightarrow> Some b | VPing \<Rightarrow> None) ms"

fun smooth :: "viewer_event \<Rightarrow> bool" where
  "smooth (Heartbeat ok) = ok"
| "smooth (Received (RecvOk b) ok) = ok"
| "smooth (Received _ ok) = False"

lemma recvs_simps [simp]:
  "recvs [] = []" "recvs (Heartbeat ok # es) = recvs es" "recvs (Received r ok # es) = r # recvs es"
  by (simp_all add: recvs_def map_filter_simps)

lemma payloads_simps [simp]:
  "payloads [] = []" "payloads (VPing # ms) = payloads ms" "payloads (VBinary b # ms) = b # payloads ms"
  by (simp_all add: payloads_def map_filter_simps)

lemma payloads_append [simp]: "payloads (ms @ ns) = payloads ms @ payloads ns"
  by (simp add: payloads_def map_filter_def)

lemma replay_frames_all:
  "length fs \<le> length oks \<Longrightarrow> list_all id oks \<Longrightarrow> replay_frames fs oks = (map VBinary fs, True)"
  by (induction fs oks rule: replay_frames.induct) auto

lemma payloads_binary [simp]: "payloads (map VBinary fs) = fs"
  by (induction fs) auto

lemma viewer_loop_smooth:
  "list_all smooth es \<Longrightarrow> delivers fs (recvs es) \<Longrightarrow>
    length (recvs es) \<le> length fs \<and> payloads (viewer_loop es) = take (length (recvs es)) fs"
proof (induction es arbitrary: fs rule: viewer_loop.induct)
  case (3 b ok es)
  then show ?case by (cases fs) auto
qed auto

lemma handle_viewer_smooth:
  assumes "length warm \<le> length oks" "list_all id oks" "list_all smooth es" "delivers fs (recvs es)"
  shows "payloads (handle_viewer warm oks es) = warm @ take (length (recvs es)) fs"
  using viewer_loop_smooth [OF assms(3,4)]
  by (simp add: handle_viewer_def replay_frames_all [OF assms(1,2)])

text \<open>
  The bytes on a viewer's socket, when one publisher feeds the room, the sends succeed and the
  receiver does not lag.
\<close>

lemma viewer_payloads:
  assumes "stream_reachable s" "viewers s v = VLive r m n warm"
    and "F = map snd (recorded (heap s r))" "\<forall>x \<in> set (recorded (heap s r)). fst x = p"
    and "delivers (map snd (drop m (sent (heap s r)))) (recvs es)"
    and "length warm \<le> length oks" "list_all id oks" "list_all smooth es"
  shows "payloads (handle_viewer warm oks es)
      = snapshot (record_all (take n F) warmup_default) @ take (length (recvs es)) (drop m F)
    \<and> m \<le> n \<and> n \<le> length F \<and> m + length (recvs es) \<le> length F"
proof -
  let ?R = "recorded (heap s r)" and ?S = "sent (heap s r)"
  have v: "warm = snapshot (record_all (map snd (take n ?R)) warmup_default)" "m \<le> n" "m \<le> length ?S" "n \<le> length ?R"
    using stream_viewer_ok [OF assms(1), of v] assms(2) by (simp_all add: viewer_ok_def caught_up_def)
  have ok: "of_pub q ?R = of_pub q ?S @ flight q (pubs s q) r" for q
    using stream_room_ok [OF assms(1), of r] by (simp add: room_ok_def)
  have R: "of_pub p ?R = ?R" using assms(4) by (simp add: of_pub_def filter_id_conv)
  have "fst x = p" if "x \<in> set ?S" for x
  proof -
    from that have "x \<in> set (of_pub (fst x) ?S)" by (simp add: of_pub_def)
    with ok [of "fst x"] have "x \<in> set (of_pub (fst x) ?R)" by simp
    then have "x \<in> set ?R" by (simp add: of_pub_def)
    with assms(4) show ?thesis by blast
  qed
  then have "of_pub p ?S = ?S" by (simp add: of_pub_def filter_id_conv)
  with ok [of p] R obtain rest where rest: "?R = ?S @ rest" by auto
  with v(3) have D: "drop m F = map snd (drop m ?S) @ map snd rest"
    by (simp add: assms(3) drop_map)
  have "length (recvs es) \<le> length (map snd (drop m ?S))"
    using viewer_loop_smooth [OF assms(8,5)] by simp
  moreover from this have "m + length (recvs es) \<le> length F"
    using v(3) arg_cong [OF rest, of length] by (simp add: assms(3))
  ultimately show ?thesis
    using handle_viewer_smooth [OF assms(6,7,8,5)] v D by (simp add: assms(3) take_map)
qed

section \<open>Properties\<close>

text \<open>
  C21. No viewer misses a frame, under every interleaving of any number of publishers and
  viewers. The snapshot a live viewer was given accounts for exactly the first \<open>n\<close> frames
  recorded in its room; the frames each publisher recorded after those are, in order, the last
  ones it has sent since the viewer subscribed, plus the one it is about to send. Subscribing
  before taking the snapshot, and recording before sending, is what this rests on.
\<close>

theorem viewer_misses_nothing:
  assumes "stream_reachable s" "viewers s v = VLive r m n warm"
  shows "warm = snapshot (record_all (map snd (take n (recorded (heap s r)))) warmup_default)
    \<and> m \<le> n
    \<and> suffix (of_pub p (drop n (recorded (heap s r))))
        (of_pub p (drop m (sent (heap s r))) @ flight p (pubs s p) r)"
  using stream_viewer_ok [OF assms(1), of v] assms(2) by (simp add: viewer_ok_def caught_up_def)

text \<open>
  C22. The bytes on a viewer's socket, under three conditions: one publisher feeds the room, every
  send to the socket succeeds, and the receiver neither lags (then frames are skipped) nor is closed. They are the replay of the first \<open>n\<close> frames of the publisher's stream \<open>F\<close>,
  then \<open>F\<close> itself from a position \<open>m \<le> n\<close> on. Nothing is skipped; the frames between \<open>m\<close> and
  \<open>n\<close>, recorded between the subscription and the snapshot, arrive twice.
\<close>

theorem viewer_stream:
  assumes "stream_reachable s" "viewers s v = VLive r m n warm"
    and "F = map snd (recorded (heap s r))" "\<forall>x \<in> set (recorded (heap s r)). fst x = p"
    and "delivers (map snd (drop m (sent (heap s r)))) (recvs es)"
    and "length warm \<le> length oks" "list_all id oks" "list_all smooth es"
  shows "payloads (handle_viewer warm oks es)
      = snapshot (record_all (take n F) warmup_default) @ take (length (recvs es)) (drop m F)
    \<and> m \<le> n"
  using viewer_payloads [OF assms] by blast

text \<open>A room that has left the map never comes back, and nobody new gets into it.\<close>

definition detached :: "stream \<Rightarrow> nat \<Rightarrow> bool" where
  "detached s r \<longleftrightarrow> r < next_room s \<and> (\<forall>k. rooms s k \<noteq> Some r)"

lemma detached_step:
  assumes "stream_step s s'" "detached s r"
  shows "detached s' r
    \<and> (\<forall>v. viewer_room (viewers s' v) = Some r \<longrightarrow> viewer_room (viewers s v) = Some r)"
  using assms(1)
proof cases
  case (pub_open p k r0 s1)
  with assms(2) show ?thesis
    by (cases rule: room_for_cases [OF pub_open(3)]) (auto simp: detached_def)
next
  case (view_open v k r0 s1)
  with assms(2) show ?thesis
    by (cases rule: room_for_cases [OF view_open(3)]) (auto simp: detached_def)
qed (use assms(2) in \<open>auto simp: detached_def publisher_cleanup_rooms\<close>)

lemma detached_steps:
  assumes "rtranclp stream_step s s'" "detached s r"
  shows "detached s' r \<and> (\<forall>v. viewer_room (viewers s' v) = Some r \<longrightarrow> viewer_room (viewers s v) = Some r)"
  using assms
proof (induction rule: rtranclp_induct)
  case base
  then show ?case by simp
next
  case (step t u)
  with detached_step [of t u r] show ?case by blast
qed

lemma rooms_inj:
  "stream_reachable s \<Longrightarrow> rooms s j = Some r \<Longrightarrow> rooms s k = Some r \<Longrightarrow> j = k"
proof (induction arbitrary: j k r rule: stream_reachable.induct)
  case init
  then show ?case by (simp add: stream_init_def)
next
  case (step s s')
  note new = alloc_okD(1) [OF stream_alloc_ok [OF step.hyps(1)]]
  from step.hyps(2) show ?case
  proof cases
    case (pub_open p k0 r0 s1)
    with step.IH step.prems new show ?thesis
      by (cases rule: room_for_cases [OF pub_open(3)]) (auto split: if_splits dest: new)
  next
    case (view_open v k0 r0 s1)
    with step.IH step.prems new show ?thesis
      by (cases rule: room_for_cases [OF view_open(3)]) (auto split: if_splits dest: new)
  qed (use step.IH step.prems in \<open>auto simp: publisher_cleanup_rooms split: if_splits\<close>)
qed

text \<open>
  While a viewer is subscribed, its room stays in the map, under every interleaving: a
  publisher's exit never removes a room that somebody is watching, so a publisher that connects
  next reaches the same viewers.
\<close>

theorem watched_room_stays:
  assumes "stream_reachable s" "rooms s k = Some r" "subscribed (viewers s v) = Some r"
    and "rtranclp stream_step s s'" "subscribed (viewers s' v) = Some r"
  shows "rooms s' k = Some r"
proof -
  have "stream_reachable s' \<and> (viewers s' v = VGone \<or> rooms s' k = Some r \<and> subscribed (viewers s' v) = Some r)"
    using assms(4)
  proof (induction rule: rtranclp_induct)
    case base
    show ?case using assms by simp
  next
    case (step t u)
    then have t: "stream_reachable t" by simp
    have ok: "v \<in> set (receivers (heap t r)) \<longleftrightarrow> subscribed (viewers t v) = Some r"
      using stream_room_ok [OF t, of r] by (simp add: room_ok_def)
    have "viewers u v = VGone \<or> rooms u k = Some r \<and> subscribed (viewers u v) = Some r"
      using step.hyps(2)
    proof cases
      case (pub_open p k0 r0 s1)
      with step.IH show ?thesis by (cases rule: room_for_cases [OF pub_open(3)]) auto
    next
      case (view_open w k0 r0 s1)
      with step.IH show ?thesis by (cases rule: room_for_cases [OF view_open(3)]) auto
    qed (use step.IH ok in \<open>auto simp: publisher_cleanup_rooms\<close>)
    with t step.hyps(2) show ?case by (blast intro: stream_reachable.step)
  qed
  with assms(5) show ?thesis by auto
qed

text \<open>
  The clean-up at a publisher's exit looks only at the number of viewers, not at other
  publishers. If a second publisher of the same peer is connected (a reconnect that overtakes
  the end of the old connection) and nobody is watching yet, the exit of the first drops the
  room the second keeps sending to: no viewer that connects later is ever in that room, whatever
  happens, so none of them ever sees a frame of the publisher that is still connected.
\<close>

theorem orphaned_publisher:
  assumes "stream_reachable s" "pubs s p = PubLeaving k" "rooms s k = Some r"
    and "receivers (heap s r) = []" "pubs s q = PubConnected k r"
    and "s1 = (publisher_cleanup k s)\<lparr>pubs := (pubs s)(p := PubGone)\<rparr>"
    and "rtranclp stream_step s1 s'" "viewers s v = VIdle"
  shows "stream_step s s1 \<and> pubs s1 q = PubConnected k r \<and> rooms s' k \<noteq> Some r
    \<and> viewer_room (viewers s' v) \<noteq> Some r"
proof -
  have "p \<noteq> q" using assms(2,5) by auto
  have "r < next_room s" using alloc_okD(1) [OF stream_alloc_ok [OF assms(1)] assms(3)] .
  moreover have "rooms s1 j \<noteq> Some r" for j
    using rooms_inj [OF assms(1) assms(3), of j] assms(3,4) by (auto simp: assms(6) publisher_cleanup_rooms)
  ultimately have "detached s1 r" by (simp add: detached_def assms(6))
  from detached_steps [OF assms(7) this] have "detached s' r"
    "viewer_room (viewers s' v) \<noteq> Some r"
    using assms(8) by (auto simp: assms(6))
  moreover have "stream_step s s1" unfolding assms(6) by (rule stream_step.pub_cleanup [OF assms(2)])
  ultimately show ?thesis using assms(5) \<open>p \<noteq> q\<close> by (simp add: assms(6) detached_def)
qed

text \<open>A viewer that connects to a peer and gets as far as its snapshot, with nobody in between.\<close>

definition viewer_join :: "nat \<Rightarrow> string \<Rightarrow> stream \<Rightarrow> stream" where
  "viewer_join v k s =
     (let (r, s1) = room_for k s;
          s2 = s1\<lparr>viewers := (viewers s1)(v := VJoined r)\<rparr>;
          m = length (sent (heap s2 r));
          s3 = (at_room r (subscribe v) s2)\<lparr>viewers := (viewers s2)(v := VSubscribed r m)\<rparr>
      in s3\<lparr>viewers := (viewers s3)
           (v := VLive r m (length (recorded (heap s3 r))) (snapshot (warmup (heap s3 r))))\<rparr>)"

lemma viewer_join_steps:
  assumes "viewers s v = VIdle"
  shows "rtranclp stream_step s (viewer_join v k s)"
proof -
  obtain r s1 where r: "room_for k s = (r, s1)" by (cases "room_for k s")
  let ?s2 = "s1\<lparr>viewers := (viewers s1)(v := VJoined r)\<rparr>"
  let ?m = "length (sent (heap ?s2 r))"
  let ?s3 = "(at_room r (subscribe v) ?s2)\<lparr>viewers := (viewers ?s2)(v := VSubscribed r ?m)\<rparr>"
  have "stream_step s ?s2" by (rule stream_step.view_open [OF assms r])
  moreover have "stream_step ?s2 ?s3" by (rule stream_step.view_subscribe) simp
  moreover have "stream_step ?s3 (viewer_join v k s)"
    unfolding viewer_join_def r Let_def prod.case by (rule stream_step.view_snapshot) simp
  ultimately show ?thesis by auto
qed

text \<open>
  The clean-up is skipped when the publisher's socket fails (\<open>item?\<close> returns at once), so
  the warm-up cache outlives the publisher although nobody publishes or watches: the next
  viewer is replayed what the dead publisher had cached. After a clean close in the same state
  the room goes, and the next viewer gets a fresh one and an empty replay.
\<close>

theorem stale_cache_after_error:
  assumes "pubs s p = PubConnected k r" "rooms s k = Some r" "receivers (heap s r) = []"
    and "viewers s v = VIdle"
    and "failed = s\<lparr>pubs := (pubs s)(p := PubGone)\<rparr>"
    and "leaving = s\<lparr>pubs := (pubs s)(p := PubLeaving k)\<rparr>"
    and "closed = (publisher_cleanup k leaving)\<lparr>pubs := (pubs leaving)(p := PubGone)\<rparr>"
  shows "stream_step s failed \<and> rtranclp stream_step failed (viewer_join v k failed)
    \<and> (\<exists>m n. viewers (viewer_join v k failed) v = VLive r m n (snapshot (warmup (heap s r))))
    \<and> stream_step s leaving \<and> stream_step leaving closed
    \<and> rtranclp stream_step closed (viewer_join v k closed)
    \<and> viewers (viewer_join v k closed) v = VLive (next_room s) 0 0 []"
proof (intro conjI)
  show "stream_step s failed" unfolding assms(5) by (rule stream_step.pub_error [OF assms(1)])
  show "stream_step s leaving" unfolding assms(6) by (rule stream_step.pub_close [OF assms(1)])
  show "stream_step leaving closed" unfolding assms(7) by (rule stream_step.pub_cleanup) (simp add: assms(6))
  show "rtranclp stream_step failed (viewer_join v k failed)"
    by (rule viewer_join_steps) (simp add: assms(4,5))
  show "rtranclp stream_step closed (viewer_join v k closed)"
    by (rule viewer_join_steps) (simp add: assms(4,6,7))
  have "room_for k failed = (r, failed)" by (simp add: room_for_def assms(2,5))
  then show "\<exists>m n. viewers (viewer_join v k failed) v = VLive r m n (snapshot (warmup (heap s r)))"
    by (simp add: viewer_join_def Let_def subscribe_def) (simp add: assms(5))
  have "rooms closed k = None" "next_room closed = next_room s"
    using assms(2,3) by (simp_all add: assms(6,7) publisher_cleanup_rooms)
  then show "viewers (viewer_join v k closed) v = VLive (next_room s) 0 0 []"
    by (simp add: viewer_join_def Let_def room_for_def subscribe_def room_new_def warmup_default_def snapshot_def)
qed

section \<open>Witnesses\<close>

text \<open>Two publishers of one peer, the first of which has sent a small H264 stream.\<close>

fun publish :: "nat \<Rightarrow> string \<Rightarrow> nat \<Rightarrow> bytes list \<Rightarrow> stream \<Rightarrow> stream" where
  "publish p k r [] s = s"
| "publish p k r (f # fs) s =
     (let s1 = (at_room r (publish_record p f) s)\<lparr>pubs := (pubs s)(p := PubRecorded k r f)\<rparr>
      in publish p k r fs ((at_room r (publish_send p f) s1)\<lparr>pubs := (pubs s1)(p := PubConnected k r)\<rparr>))"

lemma publish_steps:
  "pubs s p = PubConnected k r \<Longrightarrow>
    rtranclp stream_step s (publish p k r fs s) \<and> pubs (publish p k r fs s) p = PubConnected k r"
proof (induction fs arbitrary: s)
  case Nil
  then show ?case by simp
next
  case (Cons f fs)
  let ?s1 = "(at_room r (publish_record p f) s)\<lparr>pubs := (pubs s)(p := PubRecorded k r f)\<rparr>"
  let ?s2 = "(at_room r (publish_send p f) ?s1)\<lparr>pubs := (pubs ?s1)(p := PubConnected k r)\<rparr>"
  have "stream_step s ?s1" by (rule stream_step.pub_frame [OF Cons.prems])
  moreover have "stream_step ?s1 ?s2" by (rule stream_step.pub_fanout) simp
  moreover have "rtranclp stream_step ?s2 (publish p k r fs ?s2) \<and> pubs (publish p k r fs ?s2) p = PubConnected k r"
    by (rule Cons.IH) simp
  ultimately show ?case
    by (auto simp: Let_def intro: converse_rtranclp_into_rtranclp)
qed

lemma publish_effect:
  "pubs s p = PubConnected k r \<Longrightarrow>
    pubs (publish p k r fs s) = pubs s \<and> rooms (publish p k r fs s) = rooms s
    \<and> viewers (publish p k r fs s) = viewers s \<and> next_room (publish p k r fs s) = next_room s
    \<and> receivers (heap (publish p k r fs s) r) = receivers (heap s r)
    \<and> recorded (heap (publish p k r fs s) r) = recorded (heap s r) @ map (Pair p) fs
    \<and> sent (heap (publish p k r fs s) r) = sent (heap s r) @ map (Pair p) fs"
proof (induction fs arbitrary: s)
  case Nil
  then show ?case by simp
next
  case (Cons f fs)
  let ?s1 = "(at_room r (publish_record p f) s)\<lparr>pubs := (pubs s)(p := PubRecorded k r f)\<rparr>"
  let ?s2 = "(at_room r (publish_send p f) ?s1)\<lparr>pubs := (pubs ?s1)(p := PubConnected k r)\<rparr>"
  have "pubs ?s2 p = PubConnected k r" by simp
  note ih = Cons.IH [OF this]
  have "pubs ?s2 = pubs s" using Cons.prems by (auto simp: fun_upd_def)
  moreover have "publish p k r (f # fs) s = publish p k r fs ?s2" by (simp add: Let_def)
  ultimately show ?case
    using ih by (simp only:) (simp add: publish_record_def publish_send_def)
qed

definition open_pub :: "nat \<Rightarrow> string \<Rightarrow> stream \<Rightarrow> stream" where
  "open_pub p k s = (let (r, s1) = room_for k s in s1\<lparr>pubs := (pubs s1)(p := PubConnected k r)\<rparr>)"

lemma open_pub_step: "pubs s p = PubIdle \<Longrightarrow> stream_step s (open_pub p k s)"
  by (cases "room_for k s") (simp add: open_pub_def stream_step.pub_open)

definition demo_frames :: "bytes list" where
  "demo_frames = [demo_nal 0x67, demo_nal 0x68, demo_nal 0x65, demo_nal 0x41]"

definition demo_open :: stream where
  "demo_open = open_pub 1 ''p'' stream_init"

definition demo_stream :: stream where
  "demo_stream = publish 1 ''p'' 0 demo_frames demo_open"

lemma demo_open_facts:
  "stream_reachable demo_open" "pubs demo_open = (\<lambda>_. PubIdle)(1 := PubConnected ''p'' 0)"
  "rooms demo_open = [''p'' \<mapsto> 0]" "heap demo_open = (\<lambda>_. room_new)" "viewers demo_open = (\<lambda>_. VIdle)"
  "next_room demo_open = 1"
proof -
  have "stream_step stream_init demo_open"
    unfolding demo_open_def by (rule open_pub_step) (simp add: stream_init_def)
  then show "stream_reachable demo_open" by (blast intro: stream_reachable.intros)
qed (auto simp: demo_open_def open_pub_def room_for_def stream_init_def)

lemma demo_stream_facts:
  "stream_reachable demo_stream" "pubs demo_stream = (\<lambda>_. PubIdle)(1 := PubConnected ''p'' 0)"
  "rooms demo_stream = [''p'' \<mapsto> 0]" "viewers demo_stream = (\<lambda>_. VIdle)" "next_room demo_stream = 1"
  "receivers (heap demo_stream 0) = []"
  "recorded (heap demo_stream 0) = map (Pair 1) demo_frames"
  "sent (heap demo_stream 0) = map (Pair 1) demo_frames"
proof -
  have "pubs demo_open 1 = PubConnected ''p'' 0" by (simp add: demo_open_facts)
  from publish_steps [OF this, of demo_frames] show "stream_reachable demo_stream"
    unfolding demo_stream_def using stream_sys.reach_run demo_open_facts(1) by blast
  from publish_effect [OF \<open>pubs demo_open 1 = PubConnected ''p'' 0\<close>, of demo_frames]
  show "pubs demo_stream = (\<lambda>_. PubIdle)(1 := PubConnected ''p'' 0)"
    "rooms demo_stream = [''p'' \<mapsto> 0]" "viewers demo_stream = (\<lambda>_. VIdle)" "next_room demo_stream = 1"
    "receivers (heap demo_stream 0) = []"
    "recorded (heap demo_stream 0) = map (Pair 1) demo_frames"
    "sent (heap demo_stream 0) = map (Pair 1) demo_frames"
    by (simp_all add: demo_stream_def demo_open_facts room_new_def)
qed

lemma demo_snapshot: "snapshot (record_all demo_frames warmup_default) = demo_frames"
proof -
  have k: "classify_nal (demo_nal 0x67) None = ParamSet H264 7"
    "classify_nal (demo_nal 0x68) (Some H264) = ParamSet H264 8"
    "classify_nal (demo_nal 0x65) (Some H264) = Keyframe"
    "classify_nal (demo_nal 0x41) (Some H264) = Delta"
    by (simp_all add: classify_eval)
  have l: "length (demo_nal b) = 14" for b by (simp add: demo_nal_def)
  show ?thesis
    unfolding snapshot_run
    by (simp add: demo_frames_def cache_step_def cache_empty_def replay_def param_types_def
        k l WARMUP_KEY_MAX_BYTES_def WARMUP_DELTA_MAX_BYTES_def del: classify_demo)
qed

lemma demo_stream_snapshot: "snapshot (warmup (heap demo_stream 0)) = demo_frames"
proof -
  have "warmup (heap demo_stream 0) = record_all (map snd (recorded (heap demo_stream 0))) warmup_default"
    using stream_room_ok [OF demo_stream_facts(1), of 0] by (simp add: room_ok_def)
  moreover have "map snd (recorded (heap demo_stream 0)) = demo_frames"
    by (simp add: demo_stream_facts comp_def)
  ultimately show ?thesis using demo_snapshot by simp
qed

definition demo_viewing :: stream where
  "demo_viewing = viewer_join 5 ''p'' demo_stream"

lemma demo_viewing_facts:
  "stream_reachable demo_viewing" "viewers demo_viewing 5 = VLive 0 4 4 demo_frames"
  "pubs demo_viewing = pubs demo_stream" "rooms demo_viewing = rooms demo_stream"
  "recorded (heap demo_viewing 0) = recorded (heap demo_stream 0)"
  "sent (heap demo_viewing 0) = sent (heap demo_stream 0)"
proof -
  show "stream_reachable demo_viewing"
    unfolding demo_viewing_def
    by (rule stream_sys.reach_run [OF viewer_join_steps demo_stream_facts(1)])
       (simp add: demo_stream_facts)
  have r: "room_for ''p'' demo_stream = (0, demo_stream)"
    by (simp add: room_for_def demo_stream_facts)
  show "viewers demo_viewing 5 = VLive 0 4 4 demo_frames"
    by (simp add: demo_viewing_def viewer_join_def r subscribe_def demo_stream_facts demo_stream_snapshot)
       (simp add: demo_frames_def)
qed (simp_all add: demo_viewing_def viewer_join_def room_for_def demo_stream_facts subscribe_def)

theorem viewer_misses_nothing_witness:
  "demo_frames = snapshot (record_all (map snd (take 4 (recorded (heap demo_viewing 0)))) warmup_default)
    \<and> demo_frames \<noteq> []"
proof
  show "demo_frames \<noteq> []" by (simp add: demo_frames_def)
qed (use viewer_misses_nothing [OF demo_viewing_facts(1,2)] in blast)

theorem viewer_stream_witness:
  "\<exists>s. stream_reachable s \<and> map snd (sent (heap s 0)) = demo_frames @ [demo_nal 0x01]
    \<and> payloads (handle_viewer demo_frames [True, True, True, True] [Heartbeat True, Received (RecvOk (demo_nal 0x01)) True])
      = demo_frames @ [demo_nal 0x01]"
proof -
  define s where "s = publish 1 ''p'' 0 [demo_nal 0x01] demo_viewing"
  have c: "pubs demo_viewing 1 = PubConnected ''p'' 0"
    by (simp add: demo_viewing_facts demo_stream_facts)
  note eff = publish_effect [OF c, of "[demo_nal 0x01]"]
  have r: "stream_reachable s"
    unfolding s_def using publish_steps [OF c, of "[demo_nal 0x01]"] stream_sys.reach_run demo_viewing_facts(1) by blast
  have h: "recorded (heap s 0) = map (Pair 1) (demo_frames @ [demo_nal 0x01])"
    "sent (heap s 0) = map (Pair 1) (demo_frames @ [demo_nal 0x01])"
    "viewers s 5 = VLive 0 4 4 demo_frames"
    using eff by (simp_all add: s_def demo_viewing_facts demo_stream_facts)
  let ?es = "[Heartbeat True, Received (RecvOk (demo_nal 0x01)) True]"
  have "length demo_frames = 4" by (simp add: demo_frames_def)
  then have "payloads (handle_viewer demo_frames [True, True, True, True] ?es)
      = snapshot (record_all (take 4 (demo_frames @ [demo_nal 0x01])) warmup_default)
        @ take (length (recvs ?es)) (drop 4 (demo_frames @ [demo_nal 0x01])) \<and> (4::nat) \<le> 4"
    by (intro viewer_stream [OF r h(3), where p = 1]) (simp_all add: h comp_def)
  with \<open>length demo_frames = 4\<close> have "payloads (handle_viewer demo_frames [True, True, True, True] ?es)
      = demo_frames @ [demo_nal 0x01]"
    by (simp add: demo_snapshot)
  then show ?thesis using r h by (intro exI [of _ s]) (simp add: comp_def)
qed

theorem watched_room_stays_witness:
  "\<exists>s. rtranclp stream_step demo_viewing s \<and> pubs s 1 = PubGone \<and> rooms s ''p'' = Some 0"
proof -
  have c: "pubs demo_viewing 1 = PubConnected ''p'' 0"
    by (simp add: demo_viewing_facts demo_stream_facts)
  let ?s1 = "demo_viewing\<lparr>pubs := (pubs demo_viewing)(1 := PubLeaving ''p'')\<rparr>"
  let ?s2 = "(publisher_cleanup ''p'' ?s1)\<lparr>pubs := (pubs ?s1)(1 := PubGone)\<rparr>"
  have "stream_step demo_viewing ?s1" by (rule stream_step.pub_close [OF c])
  moreover have "stream_step ?s1 ?s2" by (rule stream_step.pub_cleanup) simp
  ultimately have run: "rtranclp stream_step demo_viewing ?s2" by auto
  have "rooms ?s2 ''p'' = Some 0"
    by (rule watched_room_stays [OF demo_viewing_facts(1) _ _ run, where v = 5])
       (simp_all add: demo_viewing_facts demo_stream_facts)
  with run show ?thesis by (intro exI [of _ ?s2]) simp
qed

theorem orphaned_publisher_witness:
  "\<exists>s. stream_reachable s \<and> pubs s 2 = PubConnected ''p'' 0 \<and> rooms s ''p'' \<noteq> Some 0
    \<and> viewers s 5 = VLive 1 0 0 []"
proof -
  let ?a = "open_pub 2 ''p'' demo_open"
  have a: "stream_step demo_open ?a" by (rule open_pub_step) (simp add: demo_open_facts)
  have fa: "pubs ?a = (pubs demo_open)(2 := PubConnected ''p'' 0)" "rooms ?a = rooms demo_open"
    "heap ?a = heap demo_open" "viewers ?a = viewers demo_open" "next_room ?a = 1"
    by (simp_all add: open_pub_def room_for_def demo_open_facts)
  let ?b = "?a\<lparr>pubs := (pubs ?a)(1 := PubLeaving ''p'')\<rparr>"
  have b: "stream_step ?a ?b" by (rule stream_step.pub_close) (simp add: fa demo_open_facts)
  have rb: "stream_reachable ?b" using demo_open_facts(1) a b by (blast intro: stream_reachable.step)
  let ?c = "(publisher_cleanup ''p'' ?b)\<lparr>pubs := (pubs ?b)(1 := PubGone)\<rparr>"
  have vc: "viewers ?c 5 = VIdle" by (simp add: fa demo_open_facts)
  have fb: "pubs ?b 1 = PubLeaving ''p''" "rooms ?b ''p'' = Some 0" "receivers (heap ?b 0) = []"
    "pubs ?b 2 = PubConnected ''p'' 0" "viewers ?b 5 = VIdle"
    by (simp_all add: fa demo_open_facts room_new_def)
  let ?d = "viewer_join 5 ''p'' ?c"
  have cd: "rtranclp stream_step ?c ?d" by (rule viewer_join_steps [OF vc])
  from orphaned_publisher [OF rb fb(1-4) refl cd fb(5)]
  have o: "stream_step ?b ?c" "rooms ?d ''p'' \<noteq> Some 0" by simp_all
  have rc: "stream_reachable ?d"
    using stream_sys.reach_run [OF cd] rb o(1) by (blast intro: stream_reachable.step)
  have "rooms ?c ''p'' = None" "next_room ?c = 1"
    using fb(2,3) by (simp_all add: publisher_cleanup_rooms fa)
  then have "viewers ?d 5 = VLive 1 0 0 []" "pubs ?d 2 = PubConnected ''p'' 0"
    by (simp_all add: viewer_join_def Let_def room_for_def subscribe_def room_new_def warmup_default_def
        snapshot_def fa)
  with rc o(2) show ?thesis by blast
qed

theorem stale_cache_after_error_witness:
  "\<exists>s m n. stream_reachable s \<and> pubs s 1 = PubGone \<and> viewers s 5 = VLive 0 m n demo_frames"
proof -
  have p: "pubs demo_stream 1 = PubConnected ''p'' 0" "rooms demo_stream ''p'' = Some 0"
    "receivers (heap demo_stream 0) = []" "viewers demo_stream 5 = VIdle"
    by (simp_all add: demo_stream_facts)
  let ?f = "demo_stream\<lparr>pubs := (pubs demo_stream)(1 := PubGone)\<rparr>"
  note st = stale_cache_after_error [OF p refl refl refl]
  from st demo_stream_snapshot obtain m n where v: "viewers (viewer_join 5 ''p'' ?f) 5 = VLive 0 m n demo_frames" by auto
  from st have "stream_step demo_stream ?f" "rtranclp stream_step ?f (viewer_join 5 ''p'' ?f)" by auto
  then have "stream_reachable (viewer_join 5 ''p'' ?f)"
    using demo_stream_facts(1) by (blast intro: stream_sys.reach_run stream_reachable.step)
  moreover have "pubs (viewer_join 5 ''p'' ?f) 1 = PubGone"
    by (simp add: viewer_join_def Let_def room_for_def p(2))
  ultimately show ?thesis using v by blast
qed

end
