(* ===== verification/Annexb.thy ===== *)
theory Annexb
  imports Warmup
begin

text \<open>
  The bitstream half of \<open>crates/win-capturer/src/encoder.rs\<close>: \<open>avcc_to_annexb\<close>, \<open>is_annexb\<close>,
  \<open>annexb_split\<close> and the stamping of \<open>sample_to_annexb\<close>. The loops run over indices as they do
  in the source; every index is guarded there, and the definitions keep the guards.
\<close>

section \<open>The code\<close>

definition start_code :: bytes where
  [wire_simps]: "start_code = [0, 0, 0, 1]"

definition is_annexb :: "bytes \<Rightarrow> bool" where
  "is_annexb buf \<longleftrightarrow> starts_with buf [0, 0, 0, 1] \<or> starts_with buf [0, 0, 1]"

text \<open>The start-code scan: the index after each code, and the code's length.\<close>

function scan :: "bytes \<Rightarrow> nat \<Rightarrow> (nat \<times> nat) list" where
  "scan buf i =
     (if i + 3 \<le> length buf then
        if buf ! i = 0 \<and> buf ! (i + 1) = 0 then
          if i + 4 \<le> length buf \<and> buf ! (i + 2) = 0 \<and> buf ! (i + 3) = 1
          then (i + 4, 4) # scan buf (i + 4)
          else if buf ! (i + 2) = 1 then (i + 3, 3) # scan buf (i + 3)
          else scan buf (i + 1)
        else scan buf (i + 1)
      else [])"
  by pat_completeness auto

termination by (relation "measure (\<lambda>(buf, i). length buf - i)") auto

declare scan.simps [simp del]

text \<open>One round of the second loop: the NAL that begins at \<open>begin\<close>, up to the next start code.\<close>

definition cut_one :: "bytes \<Rightarrow> nat \<Rightarrow> (nat \<times> nat) option \<Rightarrow> bytes list" where
  "cut_one buf begin next =
     (let fin = (case next of Some (b, c) \<Rightarrow> b - c | None \<Rightarrow> length buf)
      in if fin \<le> begin then [] else [start_code @ take (fin - begin) (drop begin buf)])"

definition annexb_split :: "bytes \<Rightarrow> bytes list" where
  "annexb_split buf =
     (let starts = scan buf 0 in
      concat (map (\<lambda>idx. cut_one buf (fst (starts ! idx))
          (if idx + 1 < length starts then Some (starts ! (idx + 1)) else None))
        [0..<length starts]))"

text \<open>\<open>u32::from_be_bytes\<close>, as the \<open>usize\<close> it is cast to.\<close>

definition be32 :: "u8 \<Rightarrow> u8 \<Rightarrow> u8 \<Rightarrow> u8 \<Rightarrow> nat" where
  "be32 a b c d = unat a * 2 ^ 24 + unat b * 2 ^ 16 + unat c * 2 ^ 8 + unat d"

function avcc_loop :: "bytes \<Rightarrow> nat \<Rightarrow> bytes list" where
  "avcc_loop avcc off =
     (if off + 4 \<le> length avcc then
        let n = be32 (avcc ! off) (avcc ! (off + 1)) (avcc ! (off + 2)) (avcc ! (off + 3));
            off' = off + 4
        in if length avcc < off' + n then []
           else (start_code @ take n (drop off' avcc)) # avcc_loop avcc (off' + n)
      else [])"
  by pat_completeness auto

termination by (relation "measure (\<lambda>(avcc, off). length avcc - off)") auto

declare avcc_loop.simps [simp del]

definition avcc_to_annexb :: "bytes \<Rightarrow> bytes list" where
  "avcc_to_annexb avcc = (if is_annexb avcc then annexb_split avcc else avcc_loop avcc 0)"

record nal =
  nal_data :: bytes
  nal_pts_us :: "64 word"

text \<open>
  \<open>sample_to_annexb\<close> after the sample's bytes have been copied out: \<open>wall_us\<close> is the wall
  clock in microseconds, written big-endian before every NAL.
\<close>

definition stamp_nals :: "u64 \<Rightarrow> u64 \<Rightarrow> bytes \<Rightarrow> nal list" where
  "stamp_nals wall_us pts sample =
     map (\<lambda>annexb. \<lparr>nal_data = be_bytes8 wall_us @ annexb, nal_pts_us = pts\<rparr>) (avcc_to_annexb sample)"

section \<open>Length-prefixed samples\<close>

definition be4 :: "nat \<Rightarrow> bytes" where
  [wire_simps]: "be4 n = [word_of_nat (n div 2 ^ 24), word_of_nat (n div 2 ^ 16), word_of_nat (n div 2 ^ 8), word_of_nat n]"

definition avcc_encode :: "bytes list \<Rightarrow> bytes" where
  [wire_simps]: "avcc_encode nals = concat (map (\<lambda>n. be4 (length n) @ n) nals)"

lemma length_be4 [simp]: "length (be4 n) = 4"
  by (simp add: be4_def)

lemma be32_be4:
  assumes "n < 2 ^ 32"
  shows "be32 (be4 n ! 0) (be4 n ! 1) (be4 n ! 2) (be4 n ! 3) = n"
proof -
  have b: "unat (word_of_nat k :: u8) = k mod 256" for k by (simp add: unat_of_nat)
  have "n div 16777216 mod 256 * 16777216 + n div 65536 mod 256 * 65536 + n div 256 mod 256 * 256 + n mod 256 = n"
  proof -
    have "n < 4294967296" using assms by simp
    from base256_digits(4) [OF this] show ?thesis by (simp only: ac_simps)
  qed
  moreover have "n div 16777216 mod 256 = n div 16777216"
    using assms by (intro mod_less) (simp add: less_mult_imp_div_less)
  ultimately show ?thesis by (simp add: be32_def be4_def b)
qed

lemma be32_at:
  assumes "n < 2 ^ 32"
  shows "be32 ((pre @ be4 n @ rest) ! length pre) ((pre @ be4 n @ rest) ! (length pre + 1))
    ((pre @ be4 n @ rest) ! (length pre + 2)) ((pre @ be4 n @ rest) ! (length pre + 3)) = n"
proof -
  have "(pre @ be4 n @ rest) ! (length pre + k) = be4 n ! k" if "k < 4" for k
    using that by (simp add: nth_append)
  from this [of 0] this [of 1] this [of 2] this [of 3] be32_be4 [OF assms] show ?thesis by simp
qed

lemma avcc_loop_encode:
  assumes "\<forall>n \<in> set nals. length n < 2 ^ 32" "length rest < 4"
  shows "avcc_loop (pre @ avcc_encode nals @ rest) (length pre) = map (\<lambda>n. start_code @ n) nals"
  using assms(1)
proof (induction nals arbitrary: pre)
  case Nil
  with assms(2) show ?case by (subst avcc_loop.simps) (simp add: avcc_encode_def)
next
  case (Cons n nals)
  let ?buf = "pre @ avcc_encode (n # nals) @ rest"
  let ?tail = "n @ avcc_encode nals @ rest"
  have buf: "?buf = pre @ be4 (length n) @ ?tail" by (simp add: avcc_encode_def)
  then have b: "?buf = (pre @ be4 (length n) @ n) @ avcc_encode nals @ rest" by simp
  have "be32 (?buf ! length pre) (?buf ! (length pre + 1)) (?buf ! (length pre + 2)) (?buf ! (length pre + 3))
      = length n"
    unfolding buf using Cons.prems by (intro be32_at) simp
  moreover have "length ?buf = length pre + 4 + length n + length (avcc_encode nals @ rest)"
    unfolding buf by simp
  moreover have "take (length n) (drop (length pre + 4) ?buf) = n"
    unfolding buf by simp
  ultimately have "avcc_loop ?buf (length pre) = (start_code @ n) # avcc_loop ?buf (length pre + 4 + length n)"
    by (subst avcc_loop.simps) simp
  also have "length pre + 4 + length n = length (pre @ be4 (length n) @ n)" by simp
  also have "avcc_loop ?buf \<dots> = map (\<lambda>n. start_code @ n) nals"
    unfolding b by (rule Cons.IH) (use Cons.prems in simp)
  finally show ?case by simp
qed

lemma starts_with_be4:
  assumes "n < 2 ^ 32"
  shows "starts_with (be4 n @ rest) [0, 0, 0, 1] \<longleftrightarrow> n = 1"
    and "starts_with (be4 n @ rest) [0, 0, 1] \<longleftrightarrow> 256 \<le> n \<and> n < 512"
proof -
  have b: "(word_of_nat k :: u8) = word_of_nat m \<longleftrightarrow> k mod 256 = m mod 256" for k m
    by (simp add: word_of_nat_eq_iff take_bit_eq_mod)
  have z: "(word_of_nat k :: u8) = 0 \<longleftrightarrow> k mod 256 = 0" "(word_of_nat k :: u8) = 1 \<longleftrightarrow> k mod 256 = 1" for k
    using b [of k 0] b [of k 1] by simp_all
  have d: "n mod 256 + 256 * (n div 256 mod 256) + 65536 * (n div 65536 mod 256)
     + 16777216 * (n div 16777216 mod 256) = n"
    using base256_digits(4) [of n] assms by simp
  have "n mod 256 < 256" "n div 256 mod 256 < 256" by simp_all
  with d show "starts_with (be4 n @ rest) [0, 0, 0, 1] \<longleftrightarrow> n = 1"
    "starts_with (be4 n @ rest) [0, 0, 1] \<longleftrightarrow> 256 \<le> n \<and> n < 512"
    by (auto simp: be4_def z)
qed

lemma is_annexb_encode:
  assumes "\<forall>n \<in> set nals. length n < 2 ^ 32"
  shows "is_annexb (avcc_encode nals @ rest) \<longleftrightarrow>
    (case nals of [] \<Rightarrow> is_annexb rest | n # _ \<Rightarrow> length n = 1 \<or> 256 \<le> length n \<and> length n < 512)"
  using assms by (cases nals) (simp_all add: is_annexb_def avcc_encode_def starts_with_be4)

section \<open>Annex-B samples\<close>

text \<open>
  A NAL body as H264 allows it: not empty, no start code or three zeros inside (the encoder's
  emulation prevention), and no zero at its end.
\<close>

definition clean :: "bytes \<Rightarrow> bool" where
  "clean n \<longleftrightarrow> n \<noteq> [] \<and> last n \<noteq> 0
     \<and> (\<forall>i. i + 2 < length n \<longrightarrow> n ! i = 0 \<longrightarrow> n ! (i + 1) = 0 \<longrightarrow> n ! (i + 2) \<noteq> 0 \<and> n ! (i + 2) \<noteq> 1)"

definition code :: "bool \<Rightarrow> bytes" where
  [wire_simps]: "code long = (if long then [0, 0, 0, 1] else [0, 0, 1])"

definition annexb_encode :: "(bool \<times> bytes) list \<Rightarrow> bytes" where
  [wire_simps]: "annexb_encode segs = concat (map (\<lambda>(l, n). code l @ n) segs)"

fun starts_of :: "nat \<Rightarrow> (bool \<times> bytes) list \<Rightarrow> (nat \<times> nat) list" where
  "starts_of off [] = []"
| "starts_of off ((l, n) # segs) =
     (off + length (code l), length (code l)) # starts_of (off + length (code l) + length n) segs"

lemma scan_short: "length buf < i + 3 \<Longrightarrow> scan buf i = []"
  by (subst scan.simps) simp

lemma scan_skip:
  assumes "i < length buf" "\<not> (i + 2 < length buf \<and> buf ! i = 0 \<and> buf ! (i + 1) = 0 \<and>
      (buf ! (i + 2) = 1 \<or> buf ! (i + 2) = 0))"
  shows "scan buf i = scan buf (i + 1)"
proof (cases "i + 3 \<le> length buf")
  case True
  with assms show ?thesis by (subst scan.simps) auto
next
  case False
  then show ?thesis by (simp add: scan_short)
qed

lemma scan_clean:
  assumes "clean n"
  shows "scan (pre @ n @ rest) (length pre) = scan (pre @ n @ rest) (length pre + length n)"
proof -
  let ?buf = "pre @ n @ rest"
  have n: "n \<noteq> []" "n ! (length n - 1) \<noteq> 0" using assms by (auto simp: clean_def last_conv_nth)
  have at: "?buf ! (length pre + j) = n ! j" if "j < length n" for j
    using that by (simp add: nth_append)
  have step: "scan ?buf (length pre + j) = scan ?buf (length pre + Suc j)" if j: "j < length n" for j
  proof -
    have "\<not> (?buf ! (length pre + j) = 0 \<and> ?buf ! (length pre + j + 1) = 0 \<and>
      (?buf ! (length pre + j + 2) = 1 \<or> ?buf ! (length pre + j + 2) = 0))"
    proof -
      consider "j + 2 < length n" | "j + 2 = length n" | "j + 1 = length n" using j by linarith
      then show ?thesis
      proof cases
        case 1
        then show ?thesis using assms at [of j] at [of "j + 1"] at [of "j + 2"] by (auto simp: clean_def add.assoc)
      next
        case 2
        then have "j + 1 = length n - 1" "j + 1 < length n" by simp_all
        with n(2) have "n ! (j + 1) \<noteq> 0" "j + 1 < length n" by metis+
        with at [of "j + 1"] show ?thesis by (simp add: add.assoc)
      next
        case 3
        then have "j = length n - 1" by simp
        with n(2) have "n ! j \<noteq> 0" by metis
        with at [of j] j show ?thesis by simp
      qed
    qed
    with j show ?thesis using scan_skip [of "length pre + j" ?buf] by simp
  qed
  have "scan ?buf (length pre) = scan ?buf (length pre + j)" if "j \<le> length n" for j
    using that by (induction j) (simp_all add: step)
  then show ?thesis by blast
qed

lemma scan_code:
  "scan (pre @ code l @ rest) (length pre) =
    (length pre + length (code l), length (code l)) # scan (pre @ code l @ rest) (length pre + length (code l))"
proof -
  let ?buf = "pre @ code l @ rest"
  have at: "?buf ! (length pre + k) = (code l @ rest) ! k" for k by simp
  show ?thesis
  proof (cases l)
    case True
    then have "?buf ! length pre = 0" "?buf ! (length pre + 1) = 0" "?buf ! (length pre + 2) = 0"
      "?buf ! (length pre + 3) = 1" "length (code l) = 4"
      using at [of 0] at [of 1] at [of 2] at [of 3] by (simp_all add: code_def)
    then show ?thesis by (subst scan.simps) simp
  next
    case False
    then have "?buf ! length pre = 0" "?buf ! (length pre + 1) = 0" "?buf ! (length pre + 2) = 1"
      "length (code l) = 3"
      using at [of 0] at [of 1] at [of 2] by (simp_all add: code_def)
    then show ?thesis by (subst scan.simps) simp
  qed
qed

lemma scan_encode:
  assumes "\<forall>(l, n) \<in> set segs. clean n"
  shows "scan (pre @ annexb_encode segs) (length pre) = starts_of (length pre) segs"
  using assms
proof (induction segs arbitrary: pre)
  case Nil
  show ?case by (simp add: scan_short annexb_encode_def)
next
  case (Cons seg segs)
  obtain l n where seg: "seg = (l, n)" by (cases seg)
  let ?buf = "pre @ annexb_encode (seg # segs)"
  have b1: "?buf = pre @ code l @ n @ annexb_encode segs" by (simp add: annexb_encode_def seg)
  have b2: "?buf = (pre @ code l) @ n @ annexb_encode segs" by (simp add: b1)
  have b3: "?buf = (pre @ code l @ n) @ annexb_encode segs" by (simp add: b1)
  have "scan ?buf (length pre) =
      (length pre + length (code l), length (code l)) # scan ?buf (length pre + length (code l))"
    unfolding b1 by (rule scan_code)
  also have "scan ?buf (length pre + length (code l)) = scan ?buf (length (pre @ code l) + length n)"
    using scan_clean [of n "pre @ code l" "annexb_encode segs"] Cons.prems seg unfolding b2 by simp
  also have "length (pre @ code l) + length n = length (pre @ code l @ n)" by simp
  also have "scan ?buf \<dots> = starts_of (length (pre @ code l @ n)) segs"
    unfolding b3 by (rule Cons.IH) (use Cons.prems in simp)
  finally show ?case by (simp add: seg add.assoc)
qed

text \<open>The loop over the starts, by recursion on them.\<close>

fun cut :: "bytes \<Rightarrow> (nat \<times> nat) list \<Rightarrow> bytes list" where
  "cut buf [] = []"
| "cut buf (s # ss) = cut_one buf (fst s) (case ss of [] \<Rightarrow> None | t # _ \<Rightarrow> Some t) @ cut buf ss"

lemma cut_indices:
  "concat (map (\<lambda>idx. cut_one buf (fst (ss ! idx)) (if idx + 1 < length ss then Some (ss ! (idx + 1)) else None))
      [0..<length ss]) = cut buf ss"
proof (induction ss)
  case Nil
  show ?case by simp
next
  case (Cons s ss)
  have "[0..<length (s # ss)] = 0 # map Suc [0..<length ss]"
    by (simp add: upt_conv_Cons map_Suc_upt del: upt_Suc)
  moreover have "(if 0 + 1 < length (s # ss) then Some ((s # ss) ! (0 + 1)) else None)
      = (case ss of [] \<Rightarrow> None | t # _ \<Rightarrow> Some t)"
    by (cases ss) simp_all
  ultimately show ?case using Cons.IH by (simp add: comp_def cong: if_cong)
qed

lemma cut_starts:
  assumes "\<forall>(l, n) \<in> set segs. n \<noteq> []"
  shows "cut (pre @ annexb_encode segs) (starts_of (length pre) segs) = map (\<lambda>(l, n). start_code @ n) segs"
  using assms
proof (induction segs arbitrary: pre)
  case Nil
  show ?case by simp
next
  case (Cons seg segs)
  obtain l n where seg: "seg = (l, n)" by (cases seg)
  let ?buf = "pre @ annexb_encode (seg # segs)" and ?b = "length pre + length (code l)"
  let ?next = "case starts_of (?b + length n) segs of [] \<Rightarrow> None | t # _ \<Rightarrow> Some t"
  have b3: "?buf = (pre @ code l @ n) @ annexb_encode segs" by (simp add: annexb_encode_def seg)
  have "(case ?next of Some (b, c) \<Rightarrow> b - c | None \<Rightarrow> length ?buf) = ?b + length n"
    by (cases segs) (auto simp: annexb_encode_def seg split: prod.split)
  moreover have "take (length n) (drop ?b ?buf) = n" unfolding b3 by simp
  moreover have "n \<noteq> []" using Cons.prems seg by simp
  ultimately have one: "cut_one ?buf ?b ?next = [start_code @ n]" by (simp add: cut_one_def Let_def)
  have "cut ?buf (starts_of (length (pre @ code l @ n)) segs) = map (\<lambda>(l, n). start_code @ n) segs"
    unfolding b3 by (rule Cons.IH) (use Cons.prems in simp)
  then have rest: "cut ?buf (starts_of (?b + length n) segs) = map (\<lambda>(l, n). start_code @ n) segs"
    by (simp add: add.assoc)
  have "starts_of (length pre) (seg # segs) = (?b, length (code l)) # starts_of (?b + length n) segs"
    by (simp add: seg)
  then show ?case using one rest by (simp only: cut.simps fst_conv list.map) (simp add: seg)
qed

lemma annexb_split_encode:
  assumes "\<forall>(l, n) \<in> set segs. clean n"
  shows "annexb_split (annexb_encode segs) = map (\<lambda>(l, n). start_code @ n) segs"
proof -
  have "scan (annexb_encode segs) 0 = starts_of 0 segs"
    using scan_encode [OF assms, of "[]"] by simp
  moreover have "\<forall>(l, n) \<in> set segs. n \<noteq> []" using assms by (auto simp: clean_def)
  ultimately show ?thesis
    unfolding annexb_split_def Let_def cut_indices using cut_starts [of segs "[]"] by simp
qed

section \<open>Properties\<close>

text \<open>
  C23. The splitter recovers the NALs of both sample formats, for NALs as H264 allows them (\<open>clean\<close>: not
  empty, no start code or three zeros inside, no zero at the end) of less than four gigabytes, the
  first of which has neither one byte nor 256 to 511. Then an Annex-B sample,
  its NALs separated by three- or four-byte start codes in any mixture, and an AVCC sample with
  the same NALs behind length fields (and up to three bytes of a truncated tail) give the same
  result: each NAL once, in order, behind a four-byte start code. The excluded lengths of the first
  NAL are those whose length field reads as a start code; such a sample is misread (\<open>avcc_misread\<close>).
\<close>

theorem sample_formats_agree:
  assumes "\<forall>(l, n) \<in> set segs. clean n \<and> length n < 2 ^ 32"
    and "segs \<noteq> []" "length (snd (hd segs)) \<noteq> 1" "\<not> (256 \<le> length (snd (hd segs)) \<and> length (snd (hd segs)) < 512)"
    and "length tail < 4"
  shows "avcc_to_annexb (annexb_encode segs) = map (\<lambda>(l, n). start_code @ n) segs
    \<and> avcc_to_annexb (avcc_encode (map snd segs) @ tail) = map (\<lambda>(l, n). start_code @ n) segs"
proof
  have "\<forall>(l, n) \<in> set segs. clean n" using assms(1) by auto
  then show "avcc_to_annexb (annexb_encode segs) = map (\<lambda>(l, n). start_code @ n) segs"
    using assms(2) annexb_split_encode [of segs]
    by (cases segs) (auto simp: avcc_to_annexb_def is_annexb_def annexb_encode_def code_def)
  have len: "\<forall>n \<in> set (map snd segs). length n < 2 ^ 32" using assms(1) by auto
  have "\<not> is_annexb (avcc_encode (map snd segs) @ tail)"
    unfolding is_annexb_encode [OF len] using assms(2-4) by (cases segs) auto
  then show "avcc_to_annexb (avcc_encode (map snd segs) @ tail) = map (\<lambda>(l, n). start_code @ n) segs"
    using avcc_loop_encode [OF len assms(5), of "[]"]
    by (simp add: avcc_to_annexb_def comp_def case_prod_unfold)
qed

definition demo_segs :: "(bool \<times> bytes) list" where
  "demo_segs = [(True, [0x67, 0x42]), (False, [0x68, 0xce]), (True, [0x65, 0x88, 0, 3])]"

lemma demo_clean: "\<forall>(l, n) \<in> set demo_segs. clean n \<and> length n < 2 ^ 32"
  by (auto simp: demo_segs_def clean_def less_Suc_eq)

theorem sample_formats_agree_witness:
  "avcc_to_annexb [0, 0, 0, 1, 0x67, 0x42, 0, 0, 1, 0x68, 0xce, 0, 0, 0, 1, 0x65, 0x88, 0, 3]
     = [[0, 0, 0, 1, 0x67, 0x42], [0, 0, 0, 1, 0x68, 0xce], [0, 0, 0, 1, 0x65, 0x88, 0, 3]]
   \<and> avcc_to_annexb [0, 0, 0, 2, 0x67, 0x42, 0, 0, 0, 2, 0x68, 0xce, 0, 0, 0, 4, 0x65, 0x88, 0, 3, 0, 0]
     = [[0, 0, 0, 1, 0x67, 0x42], [0, 0, 0, 1, 0x68, 0xce], [0, 0, 0, 1, 0x65, 0x88, 0, 3]]"
  using sample_formats_agree [OF demo_clean, of "[0, 0]"]
  by (simp add: demo_segs_def wire_simps)

text \<open>
  The sniff is not unambiguous, though the comment above \<open>avcc_to_annexb\<close> says it is: an
  AVCC sample whose first NAL has 256 to 511 bytes begins with 00 00 01, is taken for Annex-B,
  and comes out as one NAL whose first byte is the low byte of the length. Nothing of the
  original framing survives: the NAL the viewer gets is not the one the encoder produced.
\<close>

theorem avcc_misread:
  assumes "256 \<le> length n" "length n < 512" "clean (word_of_nat (length n) # n)"
  shows "avcc_to_annexb (avcc_encode [n]) = [start_code @ (word_of_nat (length n) # n)]
    \<and> avcc_to_annexb (avcc_encode [n]) \<noteq> [start_code @ n]"
proof -
  have d: "length n div 256 = 1" "length n div 65536 = 0" "length n div 16777216 = 0" using assms by simp_all
  then have "avcc_encode [n] = annexb_encode [(False, word_of_nat (length n) # n)]"
    by (simp add: avcc_encode_def annexb_encode_def be4_def code_def)
  moreover have "is_annexb (avcc_encode [n])"
    using is_annexb_encode [of "[n]" "[]"] assms by simp
  ultimately have "avcc_to_annexb (avcc_encode [n]) = [start_code @ (word_of_nat (length n) # n)]"
    using annexb_split_encode [of "[(False, word_of_nat (length n) # n)]"] assms(3)
    by (simp add: avcc_to_annexb_def)
  moreover have "start_code @ (word_of_nat (length n) # n) \<noteq> start_code @ n"
    by (metis append_eq_append_conv n_not_Suc_n length_Cons length_append)
  ultimately show ?thesis by simp
qed

definition demo_slice :: bytes where
  "demo_slice = replicate 300 0x41"

theorem avcc_misread_witness:
  "avcc_to_annexb (avcc_encode [demo_slice]) = [start_code @ (0x2c # demo_slice)]"
proof -
  have "clean (word_of_nat (length demo_slice) # demo_slice)"
    by (auto simp: clean_def demo_slice_def nth_Cons' last_replicate)
  from avcc_misread [OF _ _ this] show ?thesis by (simp add: demo_slice_def)
qed

text \<open>
  The capturer's wire format and the relay's classifier agree: every NAL of a sample is
  stamped with the wall clock, big-endian, in eight bytes the relay skips, and the relay
  classifies it by the NAL's own first byte, whichever of the two formats the encoder used.
\<close>

theorem stamped_nals_classified:
  assumes "\<forall>(l, n) \<in> set segs. clean n" "segs \<noteq> []"
  shows "map (\<lambda>x. classify_nal (nal_data x) (Some c)) (stamp_nals wall pts (annexb_encode segs))
      = map (\<lambda>(l, n). classify_known c (hd n)) segs
    \<and> map (\<lambda>x. drop 12 (nal_data x)) (stamp_nals wall pts (annexb_encode segs)) = map snd segs"
proof -
  have split: "avcc_to_annexb (annexb_encode segs) = map (\<lambda>(l, n). start_code @ n) segs"
    using assms annexb_split_encode [of segs]
    by (cases segs) (auto simp: avcc_to_annexb_def is_annexb_def annexb_encode_def code_def)
  have "classify_nal (be_bytes8 wall @ start_code @ n) (Some c) = classify_known c (hd n)" if "n \<noteq> []" for n
    using that classify_framed [of "be_bytes8 wall" "hd n" "tl n" "Some c"] by (simp add: start_code_def)
  moreover have "n \<noteq> []" if "(l, n) \<in> set segs" for l n
    using assms(1) that by (auto simp: clean_def)
  ultimately show ?thesis
    by (auto simp: stamp_nals_def split start_code_def)
qed

theorem stamped_nals_classified_witness:
  "map (\<lambda>x. classify_nal (nal_data x) (Some H264)) (stamp_nals 5 7 (annexb_encode demo_segs))
    = [ParamSet H264 7, ParamSet H264 8, Keyframe]"
proof -
  have "\<forall>(l, n) \<in> set demo_segs. clean n" "demo_segs \<noteq> []"
    using demo_clean by (auto simp: demo_segs_def)
  from stamped_nals_classified [OF this, of H264 5 7] show ?thesis
    by (simp add: demo_segs_def classify_eval)
qed

end
