(* ===== verification/Win_Stream.thy ===== *)
theory Win_Stream
  imports Annexb
begin

text \<open>
  The samples of the Windows encoder as the stream server sees them: \<open>Annexb\<close> splits and stamps
  them, \<open>Warmup\<close> caches what a late viewer is replayed.
\<close>

text \<open>A sample: the wall clock and the presentation time it is stamped with, and its NALs.\<close>

type_synonym win_sample = "u64 \<times> u64 \<times> (bool \<times> bytes) list"

definition win_frames :: "win_sample list \<Rightarrow> bytes list" where
  "win_frames samples =
     concat (map (\<lambda>(wall, pts, segs). map nal_data (stamp_nals wall pts (annexb_encode segs))) samples)"

lemma stamp_nals_frames:
  assumes "\<forall>(l, n) \<in> set segs. clean n" "segs \<noteq> []"
  shows "map nal_data (stamp_nals wall pts (annexb_encode segs)) = map (\<lambda>(l, n). be_bytes8 wall @ start_code @ n) segs"
proof -
  have "avcc_to_annexb (annexb_encode segs) = map (\<lambda>(l, n). start_code @ n) segs"
    using assms annexb_split_encode [of segs]
    by (cases segs) (auto simp: avcc_to_annexb_def is_annexb_def annexb_encode_def code_def)
  then show ?thesis by (simp add: stamp_nals_def split_beta)
qed

lemma classify_stamped:
  assumes "n \<noteq> []"
  shows "classify_nal (be_bytes8 wall @ start_code @ n) k =
    (case k of Some c \<Rightarrow> classify_known c (hd n) | None \<Rightarrow> classify_discovery (hd n))"
  using assms classify_framed [of "be_bytes8 wall" "hd n" "tl n" k] by (simp add: start_code_def)

lemma clean_nonempty: "clean n \<Longrightarrow> n \<noteq> []"
  by (simp add: clean_def)

section \<open>The cache along a keyframe and what follows it\<close>

lemma cache_run_deltas:
  assumes "anchor c = Some (k, ds)" "lock c = Some cd" "\<forall>f \<in> set fs. classify_nal f (Some cd) \<in> {Delta, Unknown}"
    and "total (ds @ fs) \<le> WARMUP_DELTA_MAX_BYTES"
  shows "cache_run fs c = c\<lparr>anchor := Some (k, ds @ fs)\<rparr>"
  using assms
proof (induction fs arbitrary: c ds)
  case (Cons f fs)
  then have "cache_step f c = c\<lparr>anchor := Some (k, ds @ [f])\<rparr>"
    by (auto simp: cache_step_def split: nal_kind.splits)
  with Cons.IH [of "c\<lparr>anchor := Some (k, ds @ [f])\<rparr>" "ds @ [f]"] Cons.prems show ?case by simp
qed simp

lemma cache_step_param:
  "classify_nal f (lock c) = ParamSet cd t \<Longrightarrow> lock c \<in> {None, Some cd} \<Longrightarrow>
    cache_step f c = c\<lparr>lock := Some cd, sets := (sets c)(t \<mapsto> f)\<rparr>"
  by (auto simp: cache_step_def)

lemma cache_step_key:
  "classify_nal f (lock c) = Keyframe \<Longrightarrow> length f \<le> WARMUP_KEY_MAX_BYTES \<Longrightarrow>
    cache_step f c = c\<lparr>anchor := Some (f, [])\<rparr>"
  by (simp add: cache_step_def)

lemma h264_sets:
  assumes "warmup_wf w" "win_codec w \<in> {None, Some H264}" "t \<in> {32, 33, 34}"
  shows "sets (abs_window w) t = None"
proof (rule ccontr)
  assume "sets (abs_window w) t \<noteq> None"
  then obtain f where f: "(t, f) \<in> set (param_sets w)" by (auto simp: abs_window_def dest: map_of_SomeD)
  then show False
  proof (cases "win_codec w")
    case (Some c)
    with assms(1) f have "t \<in> types_of c" by (auto simp: warmup_wf_def)
    with assms(2,3) Some show False by (auto simp: types_of_def)
  qed (use assms(1) in \<open>auto simp: warmup_wf_def\<close>)
qed

lemma win_frames_kinds:
  assumes "\<forall>(_, _, segs) \<in> set samples. segs \<noteq> [] \<and> (\<forall>(_, n) \<in> set segs. clean n \<and> classify_known cd (hd n) \<in> K)"
  shows "\<forall>f \<in> set (win_frames samples). classify_nal f (Some cd) \<in> K"
proof
  fix f assume "f \<in> set (win_frames samples)"
  then obtain wall pts segs where s: "(wall, pts, segs) \<in> set samples"
    "f \<in> set (map nal_data (stamp_nals wall pts (annexb_encode segs)))"
    by (auto simp: win_frames_def)
  with assms have c: "segs \<noteq> []" "\<forall>(l, n) \<in> set segs. clean n" "\<forall>(l, n) \<in> set segs. classify_known cd (hd n) \<in> K"
    by blast+
  from s(2) stamp_nals_frames [OF c(2,1)] obtain l n where "(l, n) \<in> set segs" "f = be_bytes8 wall @ start_code @ n"
    by auto
  with c(2,3) show "classify_nal f (Some cd) \<in> K"
    using classify_stamped [of n wall "Some cd"] clean_nonempty by fastforce
qed



end
