(* ===== verification/Nv12.thy ===== *)
theory Nv12
  imports Relay_Prelude "HOL-Library.Monad_Syntax"
begin

text \<open>
  The colour conversion of \<open>crates/win-capturer/src/encoder.rs\<close>: \<open>bgra_to_nv12\<close>, loop by loop.
  Every slice index can panic, so a read and a write are partial; the arithmetic is on \<open>i32\<close>
  values far from its bounds and is written on integers, \<open>>> 8\<close> as the floor division it is.
\<close>

section \<open>The code\<close>

definition read_at :: "bytes \<Rightarrow> nat \<Rightarrow> int option" where
  "read_at src i = (if i < length src then Some (uint (src ! i)) else None)"

definition write_at :: "nat \<Rightarrow> u8 \<Rightarrow> bytes \<Rightarrow> bytes option" where
  "write_at i v dst = (if i < length dst then Some (dst[i := v]) else None)"

definition clamp_u8 :: "int \<Rightarrow> u8" where
  "clamp_u8 v = word_of_int (max 0 (min 255 v))"

definition luma :: "int \<Rightarrow> int \<Rightarrow> int \<Rightarrow> u8" where
  "luma r g b = clamp_u8 ((66 * r + 129 * g + 25 * b + 128) div 256 + 16)"

definition chroma_u :: "int \<Rightarrow> int \<Rightarrow> int \<Rightarrow> u8" where
  "chroma_u r g b = clamp_u8 ((- 38 * r - 74 * g + 112 * b + 128) div 256 + 128)"

definition chroma_v :: "int \<Rightarrow> int \<Rightarrow> int \<Rightarrow> u8" where
  "chroma_v r g b = clamp_u8 ((112 * r - 94 * g - 18 * b + 128) div 256 + 128)"

definition luma_pixel :: "bytes \<Rightarrow> nat \<Rightarrow> nat \<Rightarrow> nat \<Rightarrow> bytes \<Rightarrow> bytes option" where
  "luma_pixel src w y x dst = do {
     let i = y * w * 4 + x * 4;
     b \<leftarrow> read_at src i;
     g \<leftarrow> read_at src (i + 1);
     r \<leftarrow> read_at src (i + 2);
     write_at (y * w + x) (luma r g b) dst
   }"

definition add_pixel :: "bytes \<Rightarrow> nat \<Rightarrow> nat \<Rightarrow> nat \<Rightarrow> nat \<Rightarrow> nat \<Rightarrow> int \<times> int \<times> int \<Rightarrow> (int \<times> int \<times> int) option" where
  "add_pixel src w y x dy dx sums = do {
     let i = ((y + dy) * w + (x + dx)) * 4;
     b \<leftarrow> read_at src i;
     g \<leftarrow> read_at src (i + 1);
     r \<leftarrow> read_at src (i + 2);
     (case sums of (sr, sg, sb) \<Rightarrow> Some (sr + r, sg + g, sb + b))
   }"

definition chroma_block :: "bytes \<Rightarrow> nat \<Rightarrow> nat \<Rightarrow> nat \<Rightarrow> nat \<Rightarrow> bytes \<Rightarrow> bytes option" where
  "chroma_block src w uv_off y x dst = do {
     sums \<leftarrow> for_each (\<lambda>dy. for_each (add_pixel src w y x dy) [0..<2]) [0..<2] (0, 0, 0);
     (case sums of (sr, sg, sb) \<Rightarrow> do {
       let r = sr div 4;
       let g = sg div 4;
       let b = sb div 4;
       let i = uv_off + (y div 2) * w + x;
       dst' \<leftarrow> write_at i (chroma_u r g b) dst;
       write_at (i + 1) (chroma_v r g b) dst'
     })
   }"

text \<open>\<open>(0..n).step_by(2)\<close>\<close>

definition by_two :: "nat \<Rightarrow> nat list" where
  "by_two n = map (\<lambda>k. 2 * k) [0..<(n + 1) div 2]"

definition bgra_to_nv12 :: "bytes \<Rightarrow> nat \<Rightarrow> nat \<Rightarrow> bytes \<Rightarrow> bytes option" where
  "bgra_to_nv12 src w h dst = do {
     dst1 \<leftarrow> for_each (\<lambda>y. for_each (luma_pixel src w y) [0..<w]) [0..<h] dst;
     for_each (\<lambda>y. for_each (chroma_block src w (w * h) y) (by_two w)) (by_two h) dst1
   }"

section \<open>What it computes\<close>

text \<open>Channel \<open>c\<close> (0 blue, 1 green, 2 red) of pixel \<open>p\<close>, in row-major order.\<close>

definition channel :: "bytes \<Rightarrow> nat \<Rightarrow> nat \<Rightarrow> int" where
  "channel src c p = uint (src ! (4 * p + c))"

definition luma_at :: "bytes \<Rightarrow> nat \<Rightarrow> u8" where
  "luma_at src p = luma (channel src 2 p) (channel src 1 p) (channel src 0 p)"

text \<open>The mean of a channel over the two-by-two block in block column \<open>i\<close> of block row \<open>j\<close>.\<close>

definition block_mean :: "bytes \<Rightarrow> nat \<Rightarrow> nat \<Rightarrow> nat \<Rightarrow> nat \<Rightarrow> int" where
  "block_mean src w c j i =
     (let p = 2 * j * w + 2 * i
      in (channel src c p + channel src c (p + 1) + channel src c (p + w) + channel src c (p + w + 1)) div 4)"

definition chroma_at :: "bytes \<Rightarrow> nat \<Rightarrow> nat \<Rightarrow> bytes" where
  "chroma_at src w q =
     (let j = q div (w div 2); i = q mod (w div 2);
          r = block_mean src w 2 j i; g = block_mean src w 1 j i; b = block_mean src w 0 j i
      in [chroma_u r g b, chroma_v r g b])"

definition nv12_of :: "bytes \<Rightarrow> nat \<Rightarrow> nat \<Rightarrow> bytes" where
  "nv12_of src w h =
     map (luma_at src) [0..<w * h] @ concat (map (chroma_at src w) [0..<(w div 2) * (h div 2)])"

lemma fill_one:
  assumes "k < length d"
  shows "(map f [0..<k] @ drop k d)[k := f k] = map f [0..<Suc k] @ drop (Suc k) d"
  using assms by (simp add: list_update_append Cons_nth_drop_Suc [symmetric])

lemma read_channel:
  "4 * p + c < length src \<Longrightarrow> read_at src (4 * p + c) = Some (channel src c p)"
  by (simp add: read_at_def channel_def)

lemma luma_pixel_fill:
  assumes "d = map (luma_at src) [0..<y * w + x] @ drop (y * w + x) d0"
    and "4 * (y * w + x) + 4 \<le> length src" "y * w + x < length d0"
  shows "luma_pixel src w y x d = Some (map (luma_at src) [0..<Suc (y * w + x)] @ drop (Suc (y * w + x)) d0)"
proof -
  let ?p = "y * w + x"
  have i: "y * w * 4 + x * 4 = 4 * ?p" by simp
  have "read_at src (4 * ?p) = Some (channel src 0 ?p)" "read_at src (4 * ?p + 1) = Some (channel src 1 ?p)"
    "read_at src (4 * ?p + 2) = Some (channel src 2 ?p)"
    using assms(2) read_channel [of ?p _ src] by (simp_all add: read_at_def channel_def)
  then show ?thesis
    unfolding luma_pixel_def i Let_def
    using assms(1,3) fill_one [of ?p d0 "luma_at src"] by (simp add: write_at_def luma_at_def)
qed

lemma luma_loop:
  assumes "4 * (w * h) \<le> length src" "w * h \<le> length d0"
  shows "for_each (\<lambda>y. for_each (luma_pixel src w y) [0..<w]) [0..<h] d0
    = Some (map (luma_at src) [0..<w * h] @ drop (w * h) d0)"
proof -
  let ?I = "\<lambda>k d. d = map (luma_at src) [0..<k] @ drop k d0"
  have row: "\<exists>d'. for_each (luma_pixel src w y) [0..<w] d = Some d' \<and> ?I (Suc y * w) d'"
    if y: "y < h" and d: "?I (y * w) d" for y d
  proof -
    have "\<exists>d'. for_each (luma_pixel src w y) [0..<w] d = Some d' \<and> ?I (y * w + w) d'"
    proof (rule for_each_upt [where I = "\<lambda>x. ?I (y * w + x)"])
      fix x d
      assume x: "x < w" "?I (y * w + x) d"
      have "Suc y * w \<le> h * w" using y by (intro mult_le_mono1) simp
      with x(1) have p: "Suc (y * w + x) \<le> w * h" by (simp add: mult.commute)
      have "4 * Suc (y * w + x) \<le> length src" using mult_le_mono2 [OF p, of 4] assms(1) by (rule le_trans)
      moreover have "y * w + x < length d0" using p assms(2) by simp
      ultimately have "4 * (y * w + x) + 4 \<le> length src" "y * w + x < length d0" by simp_all
      from luma_pixel_fill [OF x(2) this]
      show "\<exists>d'. luma_pixel src w y x d = Some d' \<and> ?I (y * w + Suc x) d'" by simp
    qed (use d in simp)
    then show ?thesis by (simp add: add.commute)
  qed
  have "\<exists>d'. for_each (\<lambda>y. for_each (luma_pixel src w y) [0..<w]) [0..<h] d0 = Some d' \<and> ?I (h * w) d'"
    by (rule for_each_upt [where I = "\<lambda>y. ?I (y * w)"]) (use row in simp_all)
  then show ?thesis by (simp add: mult.commute)
qed

lemma add_pixel_channel:
  assumes "4 * p + 4 \<le> length src" "p = (y + dy) * w + (x + dx)"
  shows "add_pixel src w y x dy dx (sr, sg, sb) =
    Some (sr + channel src 2 p, sg + channel src 1 p, sb + channel src 0 p)"
proof -
  have "read_at src (4 * p) = Some (channel src 0 p)" "read_at src (4 * p + 1) = Some (channel src 1 p)"
    "read_at src (4 * p + 2) = Some (channel src 2 p)"
    using assms(1) by (simp_all add: read_at_def channel_def)
  then show ?thesis
    by (simp add: add_pixel_def assms(2) [symmetric] mult.commute [of p 4])
qed

lemma upt_2: "[0..<2] = [0, 1]"
  by (simp add: upt_rec)

lemma chroma_block_value:
  assumes "4 * (2 * j * w + 2 * i + w + 2) \<le> length src"
    and "uv + j * w + 2 * i + 1 < length d" "i < w div 2" "even w"
  shows "chroma_block src w uv (2 * j) (2 * i) d =
    Some (d[uv + j * w + 2 * i := chroma_at src w (j * (w div 2) + i) ! 0,
            uv + j * w + 2 * i + 1 := chroma_at src w (j * (w div 2) + i) ! 1])"
proof -
  let ?p = "2 * j * w + 2 * i"
  have q: "(j * (w div 2) + i) div (w div 2) = j" "(j * (w div 2) + i) mod (w div 2) = i"
    using assms(3) by simp_all
  have sums: "for_each (\<lambda>dy. for_each (add_pixel src w (2 * j) (2 * i) dy) [0..<2]) [0..<2] (0, 0, 0) =
    Some (channel src 2 ?p + channel src 2 (?p + 1) + channel src 2 (?p + w) + channel src 2 (?p + w + 1),
          channel src 1 ?p + channel src 1 (?p + 1) + channel src 1 (?p + w) + channel src 1 (?p + w + 1),
          channel src 0 ?p + channel src 0 (?p + 1) + channel src 0 (?p + w) + channel src 0 (?p + w + 1))"
    using assms(1) add_pixel_channel [of ?p src "2 * j" 0 w "2 * i" 0]
      add_pixel_channel [of "?p + 1" src "2 * j" 0 w "2 * i" 1]
      add_pixel_channel [of "?p + w" src "2 * j" 1 w "2 * i" 0]
      add_pixel_channel [of "?p + w + 1" src "2 * j" 1 w "2 * i" 1]
    by (simp add: upt_2 algebra_simps)
  then obtain sr sg sb where s: "for_each (\<lambda>dy. for_each (add_pixel src w (2 * j) (2 * i) dy) [0..<2]) [0..<2] (0, 0, 0)
      = Some (sr, sg, sb)"
    "sr div 4 = block_mean src w 2 j i" "sg div 4 = block_mean src w 1 j i" "sb div 4 = block_mean src w 0 j i"
    by (simp add: block_mean_def Let_def)
  have c: "chroma_at src w (j * (w div 2) + i) =
    (let r = block_mean src w 2 j i; g = block_mean src w 1 j i; b = block_mean src w 0 j i
     in [chroma_u r g b, chroma_v r g b])"
    by (simp only: chroma_at_def Let_def q)
  show ?thesis
    unfolding chroma_block_def s(1) c
    using assms(2) by (simp add: write_at_def s(2-4) Let_def add.assoc)
qed

lemma length_chroma_at [simp]: "length (chroma_at src w q) = 2"
  by (simp add: chroma_at_def Let_def)

lemma length_chroma_map [simp]: "length (concat (map (chroma_at src w) [0..<k])) = 2 * k"
  by (induction k) simp_all

lemma fill_two:
  assumes "length P = k" "k + 1 < length d" "length c = 2"
  shows "(P @ drop k d)[k := c ! 0, k + 1 := c ! 1] = P @ c @ drop (k + 2) d"
proof -
  obtain a b where c: "c = [a, b]" using assms(3) by (auto simp: numeral_2_eq_2 length_Suc_conv)
  have "drop k d = d ! k # d ! Suc k # drop (Suc (Suc k)) d"
    using assms(2) by (simp add: Cons_nth_drop_Suc)
  then show ?thesis using assms(1) by (simp add: list_update_append c)
qed

lemma chroma_loop:
  assumes "even w" "even h" "4 * (w * h) \<le> length src" "length Y = w * h"
    and "w * h + 2 * ((w div 2) * (h div 2)) \<le> length Y + length d0"
  shows "for_each (\<lambda>y. for_each (chroma_block src w (w * h) y) (by_two w)) (by_two h) (Y @ d0)
    = Some (Y @ concat (map (chroma_at src w) [0..<(w div 2) * (h div 2)])
          @ drop (2 * ((w div 2) * (h div 2))) d0)"
proof -
  obtain a b where w: "w = 2 * a" and h: "h = 2 * b" using assms(1,2) by (auto elim!: evenE)
  let ?C = "\<lambda>k. concat (map (chroma_at src w) [0..<k])"
  let ?I = "\<lambda>k d. d = Y @ ?C k @ drop (2 * k) d0"
  have by_two: "by_two w = map (\<lambda>k. 2 * k) [0..<a]" "by_two h = map (\<lambda>k. 2 * k) [0..<b]"
    by (simp_all add: by_two_def w h)
  have room: "2 * (a * b) \<le> length d0" using assms(4,5) by (simp add: w h)
  have block: "\<exists>d'. chroma_block src w (w * h) (2 * j) (2 * i) d = Some d' \<and> ?I (Suc (j * a + i)) d'"
    if ij: "i < a" "j < b" and d: "?I (j * a + i) d" for i j d
  proof -
    have "Suc j * a \<le> b * a" using ij(2) by (intro mult_le_mono1) simp
    with ij(1) have q: "Suc (j * a + i) \<le> a * b" by (simp add: mult.commute)
    have src: "4 * (2 * j * w + 2 * i + w + 2) \<le> length src"
    proof -
      have "2 * j * w + 2 * i + w + 2 \<le> 2 * Suc j * w"
        using ij(1) by (simp add: w)
      also have "\<dots> \<le> h * w" using ij(2) unfolding h by (intro mult_le_mono1) simp
      finally have "4 * (2 * j * w + 2 * i + w + 2) \<le> 4 * (h * w)" by (rule mult_le_mono2)
      also have "\<dots> \<le> length src" using assms(3) by (simp add: mult.commute)
      finally show ?thesis .
    qed
    have k: "w * h + j * w + 2 * i = length (Y @ ?C (j * a + i))" using assms(4) by (simp add: w)
    have d2: "d = (Y @ ?C (j * a + i)) @ drop (w * h + j * w + 2 * i) (Y @ d0)"
      using d assms(4) by (simp add: w mult.left_commute)
    have len: "w * h + j * w + 2 * i + 1 < length (Y @ d0)"
      using q room assms(4) by (simp add: w mult.left_commute)
    have "length d = length (Y @ d0)" using d q room by simp
    with len have "w * h + j * w + 2 * i + 1 < length d" by simp
    from chroma_block_value [OF src this _ assms(1)] ij(1)
    have "chroma_block src w (w * h) (2 * j) (2 * i) d =
      Some (d[w * h + j * w + 2 * i := chroma_at src w (j * a + i) ! 0,
              w * h + j * w + 2 * i + 1 := chroma_at src w (j * a + i) ! 1])"
      by (simp add: w)
    also have "d[w * h + j * w + 2 * i := chroma_at src w (j * a + i) ! 0,
              w * h + j * w + 2 * i + 1 := chroma_at src w (j * a + i) ! 1]
        = (Y @ ?C (j * a + i)) @ chroma_at src w (j * a + i) @ drop (w * h + j * w + 2 * i + 2) (Y @ d0)"
      unfolding d2 by (rule fill_two [OF k [symmetric] len]) simp
    also have "\<dots> = Y @ ?C (Suc (j * a + i)) @ drop (2 * Suc (j * a + i)) d0"
      using assms(4) by (simp add: w mult.left_commute)
    finally show ?thesis by blast
  qed
  have row: "\<exists>d'. for_each (\<lambda>i. chroma_block src w (w * h) (2 * j) (2 * i)) [0..<a] d = Some d' \<and> ?I (Suc j * a) d'"
    if j: "j < b" and d: "?I (j * a) d" for j d
  proof -
    have "\<exists>d'. for_each (\<lambda>i. chroma_block src w (w * h) (2 * j) (2 * i)) [0..<a] d = Some d' \<and> ?I (j * a + a) d'"
      by (rule for_each_upt [where I = "\<lambda>i. ?I (j * a + i)"]) (use block j d in simp_all)
    then show ?thesis by (simp add: add.commute)
  qed
  have "\<exists>d'. for_each (\<lambda>j. for_each (\<lambda>i. chroma_block src w (w * h) (2 * j) (2 * i)) [0..<a]) [0..<b] (Y @ d0)
      = Some d' \<and> ?I (b * a) d'"
    by (rule for_each_upt [where I = "\<lambda>j. ?I (j * a)"]) (use row in simp_all)
  then show ?thesis
    unfolding by_two by (simp add: for_each_map w h mult.commute)
qed

lemma bgra_to_nv12_eq:
  assumes "even w" "even h" "4 * (w * h) \<le> length src" "length dst = w * h + w * h div 2"
  shows "bgra_to_nv12 src w h dst = Some (nv12_of src w h)"
proof -
  obtain a b where w: "w = 2 * a" and h: "h = 2 * b" using assms(1,2) by (auto elim!: evenE)
  have half: "w * h div 2 = 2 * ((w div 2) * (h div 2))" by (simp add: w h)
  have "for_each (\<lambda>y. for_each (luma_pixel src w y) [0..<w]) [0..<h] dst
    = Some (map (luma_at src) [0..<w * h] @ drop (w * h) dst)"
    by (rule luma_loop [OF assms(3)]) (simp add: assms(4))
  moreover have "for_each (\<lambda>y. for_each (chroma_block src w (w * h) y) (by_two w)) (by_two h)
      (map (luma_at src) [0..<w * h] @ drop (w * h) dst)
    = Some (map (luma_at src) [0..<w * h] @ concat (map (chroma_at src w) [0..<(w div 2) * (h div 2)])
          @ drop (2 * ((w div 2) * (h div 2))) (drop (w * h) dst))"
    by (rule chroma_loop [OF assms(1-3)]) (simp_all add: assms(4) half)
  ultimately show ?thesis
    by (simp add: bgra_to_nv12_def nv12_of_def assms(4) half)
qed

section \<open>Ranges\<close>

lemma uint_clamp: "uint (clamp_u8 v) = max 0 (min 255 v)"
  by (simp add: clamp_u8_def uint_word_of_int)

lemma channel_range: "0 \<le> channel src c p" "channel src c p \<le> 255"
  using unsigned_less [of "src ! (4 * p + c)", where 'a = int] by (simp_all add: channel_def)

lemma block_mean_range: "0 \<le> block_mean src w c j i" "block_mean src w c j i \<le> 255"
proof -
  let ?p = "2 * j * w + 2 * i"
  note r = channel_range [of src c ?p] channel_range [of src c "?p + 1"]
    channel_range [of src c "?p + w"] channel_range [of src c "?p + w + 1"]
  show "0 \<le> block_mean src w c j i" using r by (simp add: block_mean_def Let_def)
  show "block_mean src w c j i \<le> 255" unfolding block_mean_def Let_def using r by linarith
qed

lemma luma_range:
  assumes "0 \<le> r" "r \<le> 255" "0 \<le> g" "g \<le> 255" "0 \<le> b" "b \<le> 255"
  shows "16 \<le> uint (luma r g b) \<and> uint (luma r g b) \<le> 235"
proof -
  have "0 \<le> (66 * r + 129 * g + 25 * b + 128) div 256" "(66 * r + 129 * g + 25 * b + 128) div 256 \<le> 219"
    using assms by linarith+
  then show ?thesis by (simp add: luma_def uint_clamp)
qed

lemma chroma_range:
  assumes "0 \<le> r" "r \<le> 255" "0 \<le> g" "g \<le> 255" "0 \<le> b" "b \<le> 255"
  shows "16 \<le> uint (chroma_u r g b) \<and> uint (chroma_u r g b) \<le> 240"
    and "16 \<le> uint (chroma_v r g b) \<and> uint (chroma_v r g b) \<le> 240"
proof -
  have "- 112 \<le> (- 38 * r - 74 * g + 112 * b + 128) div 256" "(- 38 * r - 74 * g + 112 * b + 128) div 256 \<le> 112"
    "- 112 \<le> (112 * r - 94 * g - 18 * b + 128) div 256" "(112 * r - 94 * g - 18 * b + 128) div 256 \<le> 112"
    using assms by linarith+
  then show "16 \<le> uint (chroma_u r g b) \<and> uint (chroma_u r g b) \<le> 240"
    "16 \<le> uint (chroma_v r g b) \<and> uint (chroma_v r g b) \<le> 240"
    by (simp_all add: chroma_u_def chroma_v_def uint_clamp)
qed

lemma luma_at_range: "16 \<le> uint (luma_at src p) \<and> uint (luma_at src p) \<le> 235"
  unfolding luma_at_def by (rule luma_range) (rule channel_range)+

lemma chroma_at_range: "v \<in> set (chroma_at src w q) \<Longrightarrow> 16 \<le> uint v \<and> uint v \<le> 240"
  using chroma_range block_mean_range by (auto simp: chroma_at_def Let_def)

section \<open>Properties\<close>

text \<open>
  C25. The conversion on even dimensions: no index is ever out of range, so it does not panic;
  the buffer is filled exactly, the luma of every pixel first and then, per two-by-two block in
  row-major order, the chroma pair of the block's mean colour; and every byte is in the limited
  range a BT.601 decoder expects, 16 to 235 for luma and 16 to 240 for chroma.
\<close>

theorem nv12_conversion:
  assumes "even w" "even h" "4 * (w * h) \<le> length src" "length dst = w * h + w * h div 2"
  shows "bgra_to_nv12 src w h dst = Some (nv12_of src w h)
    \<and> length (nv12_of src w h) = w * h + w * h div 2
    \<and> (\<forall>p < w * h. nv12_of src w h ! p = luma_at src p)
    \<and> list_all (\<lambda>v. 16 \<le> uint v \<and> uint v \<le> 235) (take (w * h) (nv12_of src w h))
    \<and> list_all (\<lambda>v. 16 \<le> uint v \<and> uint v \<le> 240) (drop (w * h) (nv12_of src w h))"
proof (intro conjI)
  show "bgra_to_nv12 src w h dst = Some (nv12_of src w h)"
    by (rule bgra_to_nv12_eq [OF assms])
  have "w * h div 2 = 2 * ((w div 2) * (h div 2))"
    using assms(1,2) by (auto elim!: evenE)
  then show "length (nv12_of src w h) = w * h + w * h div 2"
    by (simp add: nv12_of_def)
  show "\<forall>p < w * h. nv12_of src w h ! p = luma_at src p"
    by (simp add: nv12_of_def nth_append)
  show "list_all (\<lambda>v. 16 \<le> uint v \<and> uint v \<le> 235) (take (w * h) (nv12_of src w h))"
    using luma_at_range by (auto simp: nv12_of_def list_all_iff)
  show "list_all (\<lambda>v. 16 \<le> uint v \<and> uint v \<le> 240) (drop (w * h) (nv12_of src w h))"
    using chroma_at_range by (fastforce simp: nv12_of_def list_all_iff)
qed

lemma demo_nv12: "nv12_of (replicate 16 0xff) 2 2 = [235, 235, 235, 235, 128, 128]"
proof -
  let ?src = "replicate 16 0xff :: bytes"
  have ch: "channel ?src c p = 255" if "4 * p + c < 16" for c p
    using that by (simp add: channel_def del: replicate.simps)
  have "luma_at ?src p = 235" if "p < 4" for p
    using that by (simp add: luma_at_def ch luma_def clamp_u8_def)
  moreover have "block_mean ?src 2 c 0 0 = 255" if "c < 4" for c
    using that by (simp add: block_mean_def Let_def ch)
  then have "chroma_at ?src 2 0 = [128, 128]"
    by (simp add: chroma_at_def Let_def chroma_u_def chroma_v_def clamp_u8_def)
  moreover have "[0..<2 * 2] = [0, 1, 2, 3 :: nat]" "[0..<1] = [0 :: nat]" by (simp_all add: upt_rec)
  ultimately show ?thesis
    by (simp add: nv12_of_def)
qed

text \<open>The unit tests' white frame, with the exact bytes.\<close>

theorem nv12_conversion_witness:
  "bgra_to_nv12 (replicate 16 0xff) 2 2 (replicate 6 0) = Some [235, 235, 235, 235, 128, 128]"
  using nv12_conversion [of 2 2 "replicate 16 0xff" "replicate 6 0"]
  by (simp add: demo_nv12 del: replicate.simps)

end
