(* ===== verification/Encoder.thy ===== *)
theory Encoder
  imports Annexb Nv12
begin

text \<open>
  \<open>H264Encoder\<close> of \<open>crates/win-capturer/src/encoder.rs\<close>: \<open>configure\<close>, \<open>submit_frame\<close>, \<open>drain\<close>
  and the helpers that find and set up the transform. MediaFoundation is a parameter: the
  record \<open>mf\<close> holds what the enumeration and the stream lookup return and, for the \<open>k\<close>-th
  call of a method, the error it fails with, if any. Sizes are computed at their Rust widths,
  as a release build does (wrapping).
\<close>

section \<open>MediaFoundation as the code sees it\<close>

type_synonym hresult = u32

definition E_NOTIMPL :: hresult where
  "E_NOTIMPL = 0x80004001"

datatype enc_error = Mf hresult | NotConfigured | NoEncoderFound | InputBufferSize nat nat

datatype mf_op =
    CreateMediaType
  | SetGuid string string
  | SetUint32 string u32
  | SetUint64 string u64
  | SetNamed string string
  | SetOutputType u32
  | SetInputType u32
  | NotifyBeginStreaming
  | NotifyStartOfStream
  | NotifyEndOfStream
  | NotifyEndStreaming
  | CreateMemoryBuffer u32
  | LockBuffer
  | SetCurrentLength u32
  | UnlockBuffer
  | CreateSample
  | AddBuffer
  | SetSampleTime int
  | SetSampleDuration int
  | ProcessInput u32

text \<open>An enumeration gives an array of activation objects; one may be absent or fail to activate.\<close>

record mf =
  enum_sync :: "hresult + (hresult + nat) option list"
  enum_hardware :: "hresult + (hresult + nat) option list"
  stream_ids :: "hresult + u32 \<times> u32"
  mf_result :: "nat \<Rightarrow> mf_op \<Rightarrow> hresult option"

definition find_h264_encoder :: "mf \<Rightarrow> enc_error + nat" where
  "find_h264_encoder m =
     (case enum_sync m of
        Inl e \<Rightarrow> Inl (Mf e)
      | Inr sync \<Rightarrow>
          (case (if sync = [] then enum_hardware m else Inr sync) of
             Inl e \<Rightarrow> Inl (Mf e)
           | Inr [] \<Rightarrow> Inl NoEncoderFound
           | Inr (None # _) \<Rightarrow> Inl NoEncoderFound
           | Inr (Some (Inl e) # _) \<Rightarrow> Inl (Mf e)
           | Inr (Some (Inr t) # _) \<Rightarrow> Inr t))"

definition lookup_stream_ids :: "mf \<Rightarrow> enc_error + u32 \<times> u32" where
  "lookup_stream_ids m =
     (case stream_ids m of
        Inr ids \<Rightarrow> Inr ids
      | Inl e \<Rightarrow> if e = E_NOTIMPL then Inr (0, 0) else Inl (Mf e))"

definition mf_size :: "u32 \<Rightarrow> u32 \<Rightarrow> u64" where
  "mf_size hi lo = push_bit 32 (ucast hi) OR ucast lo"

text \<open>A run of calls, each followed by the question mark operator.\<close>

fun run_ops :: "mf \<Rightarrow> nat \<Rightarrow> mf_op list \<Rightarrow> hresult option" where
  "run_ops m k [] = None"
| "run_ops m k (op # ops) = (case mf_result m k op of Some e \<Rightarrow> Some e | None \<Rightarrow> run_ops m (Suc k) ops)"

section \<open>The encoder\<close>

record h264_encoder =
  transform :: "nat option"
  input_stream_id :: u32
  output_stream_id :: u32
  enc_width :: u32
  enc_height :: u32
  frame_duration_100ns :: int
  next_pts_100ns :: int
  epoch :: int

definition encoder_new :: h264_encoder where
  "encoder_new = \<lparr>transform = None, input_stream_id = 0, output_stream_id = 0, enc_width = 0,
     enc_height = 0, frame_duration_100ns = 0, next_pts_100ns = 0, epoch = 0\<rparr>"

definition round_even :: "u32 \<Rightarrow> u32" where
  "round_even w = (w + 1) AND NOT 1"

definition media_type_ops :: "string \<Rightarrow> u32 option \<Rightarrow> u32 \<Rightarrow> u32 \<Rightarrow> u32 \<Rightarrow> mf_op list" where
  "media_type_ops subtype bitrate w h fps =
     [CreateMediaType, SetGuid ''MAJOR_TYPE'' ''Video'', SetGuid ''SUBTYPE'' subtype]
     @ (case bitrate of Some b \<Rightarrow> [SetUint32 ''AVG_BITRATE'' b] | None \<Rightarrow> [])
     @ [SetNamed ''INTERLACE_MODE'' ''Progressive'', SetUint64 ''FRAME_SIZE'' (mf_size w h),
        SetUint64 ''FRAME_RATE'' (mf_size fps 1), SetUint64 ''PIXEL_ASPECT_RATIO'' (mf_size 1 1)]"

definition configure_ops :: "u32 \<Rightarrow> u32 \<Rightarrow> u32 \<Rightarrow> u32 \<Rightarrow> u32 \<Rightarrow> u32 \<Rightarrow> mf_op list" where
  "configure_ops w h fps bitrate input_id output_id =
     media_type_ops ''H264'' (Some bitrate) w h fps
     @ [SetNamed ''MPEG2_PROFILE'' ''High'', SetOutputType output_id]
     @ media_type_ops ''NV12'' None w h fps
     @ [SetInputType input_id, NotifyBeginStreaming, NotifyStartOfStream]"

text \<open>The fields are assigned only after every fallible call; \<open>now\<close> is the wall clock in microseconds.\<close>

definition configure ::
  "mf \<Rightarrow> int \<Rightarrow> u32 \<Rightarrow> u32 \<Rightarrow> u32 \<Rightarrow> u32 \<Rightarrow> h264_encoder \<Rightarrow> (enc_error + unit) \<times> h264_encoder" where
  "configure m now width height fps bitrate enc =
     (let w = round_even width; h = round_even height in
      case find_h264_encoder m of
        Inl e \<Rightarrow> (Inl e, enc)
      | Inr t \<Rightarrow>
          (case lookup_stream_ids m of
             Inl e \<Rightarrow> (Inl e, enc)
           | Inr (input_id, output_id) \<Rightarrow>
               (case run_ops m 0 (configure_ops w h fps bitrate input_id output_id) of
                  Some e \<Rightarrow> (Inl (Mf e), enc)
                | None \<Rightarrow>
                    (Inr (), enc\<lparr>transform := Some t, input_stream_id := input_id,
                       output_stream_id := output_id, enc_width := w, enc_height := h,
                       frame_duration_100ns := 10000000 div int (unat (max fps 1)),
                       next_pts_100ns := 0, epoch := now\<rparr>))))"

record mf_sample =
  sample_data :: bytes
  sample_time :: int
  sample_duration :: int

text \<open>
  \<open>Overrun\<close>: the slice over the media buffer is longer than the buffer, and what the program does
  from there is undefined.
\<close>

datatype submit_result = Panicked | Overrun | Failed enc_error | Submitted mf_sample

definition i64_max :: int where
  "i64_max = 2 ^ 63 - 1"

definition i64_saturating_add :: "int \<Rightarrow> int \<Rightarrow> int" where
  "i64_saturating_add a b = max (- (2 ^ 63)) (min i64_max (a + b))"

definition expected_len :: "h264_encoder \<Rightarrow> usize" where
  "expected_len enc = ucast (enc_width enc) * ucast (enc_height enc) * 4"

definition y_size :: "h264_encoder \<Rightarrow> nat" where
  "y_size enc = unat (ucast (enc_width enc) * ucast (enc_height enc) :: usize)"

definition nv12_len :: "h264_encoder \<Rightarrow> usize" where
  "nv12_len enc = word_of_nat (y_size enc) + word_of_nat (y_size enc div 2)"

text \<open>
  \<open>fresh\<close> is what the new media buffer holds before the conversion. MediaFoundation is asked for
  \<open>nv12_len as u32\<close> bytes; the slice has the whole length.
\<close>

definition submit_frame :: "mf \<Rightarrow> (nat \<Rightarrow> bytes) \<Rightarrow> bytes \<Rightarrow> h264_encoder \<Rightarrow> submit_result \<times> h264_encoder" where
  "submit_frame m fresh bgra enc =
     (if transform enc = None then (Failed NotConfigured, enc)
      else if length bgra < unat (expected_len enc)
      then (Failed (InputBufferSize (length bgra) (unat (expected_len enc))), enc)
      else
        case run_ops m 0 [CreateMemoryBuffer (ucast (nv12_len enc)), LockBuffer] of
          Some e \<Rightarrow> (Failed (Mf e), enc)
        | None \<Rightarrow>
            (if unat (ucast (nv12_len enc) :: u32) < unat (nv12_len enc) then (Overrun, enc) else
             case bgra_to_nv12 bgra (unat (enc_width enc)) (unat (enc_height enc)) (fresh (unat (nv12_len enc))) of
               None \<Rightarrow> (Panicked, enc)
             | Some dst \<Rightarrow>
                 (case run_ops m 2 [SetCurrentLength (ucast (nv12_len enc)), UnlockBuffer, CreateSample, AddBuffer,
                     SetSampleTime (next_pts_100ns enc), SetSampleDuration (frame_duration_100ns enc)] of
                    Some e \<Rightarrow> (Failed (Mf e), enc)
                  | None \<Rightarrow>
                      let enc' = enc\<lparr>next_pts_100ns :=
                            i64_saturating_add (next_pts_100ns enc) (frame_duration_100ns enc)\<rparr> in
                      (case run_ops m 8 [ProcessInput (input_stream_id enc)] of
                         Some e \<Rightarrow> (Failed (Mf e), enc')
                       | None \<Rightarrow> (Submitted \<lparr>sample_data = dst, sample_time = next_pts_100ns enc,
                                    sample_duration = frame_duration_100ns enc\<rparr>, enc')))))"

text \<open>\<open>duration_since(t).ok()\<close>, \<open>i64::try_from(d.as_micros()).ok()\<close>, \<open>unwrap_or(0)\<close>.\<close>

definition micros_since :: "int \<Rightarrow> int \<Rightarrow> int" where
  "micros_since t now = (if now < t then 0 else if i64_max < now - t then 0 else now - t)"

definition epoch_now_us :: "int \<Rightarrow> h264_encoder \<Rightarrow> int" where
  "epoch_now_us now enc = micros_since (epoch enc) now"

definition now_us :: "int \<Rightarrow> h264_encoder \<Rightarrow> int" where
  "now_us now enc = epoch_now_us now enc"

text \<open>The \<open>unsafe\<close> part of \<open>sample_to_annexb\<close> that copies the bytes of a sample out.\<close>

record out_sample =
  contiguous :: "hresult option"
  locked :: "hresult + bytes"
  unlocked :: "hresult option"

definition sample_bytes :: "out_sample \<Rightarrow> hresult + bytes" where
  "sample_bytes smp =
     (case contiguous smp of
        Some e \<Rightarrow> Inl e
      | None \<Rightarrow>
          (case locked smp of
             Inl e \<Rightarrow> Inl e
           | Inr bs \<Rightarrow> (case unlocked smp of Some e \<Rightarrow> Inl e | None \<Rightarrow> Inr bs)))"

text \<open>
  What one round of \<open>drain\<close> meets: the flags and the buffer size that \<open>GetOutputStreamInfo\<close>
  reports, the calls that allocate a sample, \<open>ProcessOutput\<close> on the sample it is given, if any,
  and the two readings of the clock, for the presentation time and for the stamp.
\<close>

record drain_round =
  stream_info :: "hresult + u32 \<times> u32"
  round_mf :: mf
  process_output :: "u32 option \<Rightarrow> hresult + out_sample option"
  round_now :: int
  round_wall :: int

definition MF_E_TRANSFORM_NEED_MORE_INPUT :: hresult where
  "MF_E_TRANSFORM_NEED_MORE_INPUT = 0xC00D6D72"

definition provides_samples :: "u32 \<Rightarrow> bool" where
  "provides_samples flags \<longleftrightarrow> flags AND (0x100 OR 0x200) \<noteq> 0"

definition allocate_sample :: "mf \<Rightarrow> u32 \<Rightarrow> u32 \<Rightarrow> hresult + u32 option" where
  "allocate_sample m flags len =
     (if provides_samples flags then Inr None
      else case run_ops m 0 [CreateMemoryBuffer (max len 1), CreateSample, AddBuffer] of
        Some e \<Rightarrow> Inl e
      | None \<Rightarrow> Inr (Some (max len 1)))"

text \<open>How a round ends: with an error, at the end of the output, or with the NALs it adds.\<close>

datatype mf_output = OutputError hresult | NeedMoreInput | Output "nal list"

definition round_output :: "h264_encoder \<Rightarrow> drain_round \<Rightarrow> mf_output" where
  "round_output enc r =
     (case stream_info r of
        Inl e \<Rightarrow> OutputError e
      | Inr (flags, len) \<Rightarrow>
          (case allocate_sample (round_mf r) flags len of
             Inl e \<Rightarrow> OutputError e
           | Inr given \<Rightarrow>
               (case process_output r given of
                  Inl e \<Rightarrow> if e = MF_E_TRANSFORM_NEED_MORE_INPUT then NeedMoreInput else OutputError e
                | Inr None \<Rightarrow> Output []
                | Inr (Some smp) \<Rightarrow>
                    (case sample_bytes smp of
                       Inl e \<Rightarrow> OutputError e
                     | Inr bs \<Rightarrow> Output (stamp_nals (word_of_int (micros_since 0 (round_wall r)))
                         (word_of_int (epoch_now_us (round_now r) enc)) bs)))))"

fun drain_loop :: "h264_encoder \<Rightarrow> drain_round list \<Rightarrow> nal list \<Rightarrow> (enc_error + nal list) option" where
  "drain_loop enc [] acc = None"
| "drain_loop enc (r # rs) acc =
     (case round_output enc r of
        OutputError e \<Rightarrow> Some (Inl (Mf e))
      | NeedMoreInput \<Rightarrow> Some (Inr acc)
      | Output nals \<Rightarrow> drain_loop enc rs (acc @ nals))"

definition drain :: "h264_encoder \<Rightarrow> drain_round list \<Rightarrow> (enc_error + nal list) option" where
  "drain enc rounds = (if transform enc = None then Some (Inl NotConfigured) else drain_loop enc rounds [])"

text \<open>\<open>drop\<close>: the messages the transform is sent; their results are ignored.\<close>

definition encoder_drop :: "h264_encoder \<Rightarrow> mf_op list" where
  "encoder_drop enc = (case transform enc of Some t \<Rightarrow> [NotifyEndOfStream, NotifyEndStreaming] | None \<Rightarrow> [])"

definition round_nals :: "h264_encoder \<Rightarrow> drain_round \<Rightarrow> nal list" where
  "round_nals enc r = (case round_output enc r of Output nals \<Rightarrow> nals | _ \<Rightarrow> [])"

lemma drain_loop_outputs:
  assumes "\<forall>r \<in> set rs. round_output enc r = Output (round_nals enc r)"
  shows "drain_loop enc (rs @ rest) acc = drain_loop enc rest (acc @ concat (map (round_nals enc) rs))"
  using assms by (induction rs arbitrary: acc) auto

text \<open>What the transform puts out before it asks for more input is returned, in order.\<close>

lemma drain_collects:
  assumes "transform enc \<noteq> None" "\<forall>r \<in> set rs. round_output enc r = Output (round_nals enc r)"
    and "round_output enc r = NeedMoreInput"
  shows "drain enc (rs @ r # rest) = Some (Inr (concat (map (round_nals enc) rs)))"
  by (simp add: drain_def drain_loop_outputs assms)

text \<open>An error in a later round throws away the NALs of the rounds before it.\<close>

lemma drain_error_discards:
  assumes "transform enc \<noteq> None" "\<forall>r \<in> set rs. round_output enc r = Output (round_nals enc r)"
    and "round_output enc r = OutputError e"
  shows "drain enc (rs @ r # rest) = Some (Inl (Mf e))"
  by (simp add: drain_def drain_loop_outputs assms)

section \<open>Sizes\<close>

lemma unat_round_even:
  assumes "unat w < 2 ^ 32 - 1"
  shows "unat (round_even w) = 2 * ((unat w + 1) div 2)"
proof -
  have s: "unat (w + 1) = unat w + 1"
  proof -
    have "unat w + unat (1 :: u32) < 2 ^ LENGTH(32)" using assms by simp
    then show ?thesis using unat_add_lem [of w 1] by simp
  qed
  have "(w + 1) AND NOT 1 = (w + 1) AND NOT ((w + 1) AND 1)"
    by (rule bit_word_eqI) (auto simp: bit_simps)
  also have "\<dots> = (w + 1) - ((w + 1) AND 1)"
    by (rule disjunctive_diff_eq_and_not [symmetric]) (rule bit_word_eqI, auto simp: bit_simps)
  finally have "round_even w = (w + 1) - ((w + 1) AND 1)"
    by (simp add: round_even_def)
  moreover have "(w + 1) AND 1 = (w + 1) mod 2" by (simp add: and_one_eq)
  moreover have "unat ((w + 1) - (w + 1) mod 2) = unat (w + 1) - unat (w + 1) mod 2"
    by (subst unat_sub) (simp_all add: word_le_nat_alt unat_mod)
  ultimately show ?thesis by (simp add: s minus_mod_eq_mult_div)
qed

lemma round_even_even: "even (unat w) \<Longrightarrow> unat w < 2 ^ 32 - 1 \<Longrightarrow> unat (round_even w) = unat w"
  by (simp add: unat_round_even)

lemma round_even_odd: "odd (unat w) \<Longrightarrow> unat w < 2 ^ 32 - 1 \<Longrightarrow> unat (round_even w) = unat w + 1"
  by (simp add: unat_round_even)

lemma unat_ucast_mult:
  assumes "unat (a :: u32) \<le> 2 ^ 30" "unat (b :: u32) \<le> 2 ^ 30"
  shows "unat (ucast a * ucast b :: usize) = unat a * unat b"
    and "unat (ucast a * ucast b * 4 :: usize) = unat a * unat b * 4"
proof -
  have ab: "unat a * unat b \<le> 2 ^ 60"
    using mult_le_mono [OF assms] by (simp flip: power_add)
  have u: "unat (ucast x :: usize) = unat x" for x :: u32
    by (simp add: unsigned_ucast_eq take_bit_nat_eq_self_iff) (use unsigned_less [of x, where 'a = nat] in simp)
  show p: "unat (ucast a * ucast b :: usize) = unat a * unat b"
    using ab by (simp add: unat_word_ariths u)
  show "unat (ucast a * ucast b * 4 :: usize) = unat a * unat b * 4"
    using ab by (simp add: unat_word_ariths(2) [of "ucast a * ucast b"] p)
qed

lemma unat_nv12_len:
  assumes "y_size enc \<le> 2 ^ 60"
  shows "unat (nv12_len enc) = y_size enc + y_size enc div 2"
proof -
  have "unat (word_of_nat n :: usize) = n" if "n \<le> 2 ^ 60" for n
    using that by (simp add: unat_of_nat take_bit_nat_eq_self_iff)
  then show ?thesis using assms by (simp add: nv12_len_def unat_word_ariths)
qed

lemma unat_u32_of_usize: "unat (ucast x :: u32) = unat (x :: usize) mod 2 ^ 32"
  by (simp add: unsigned_ucast_eq take_bit_eq_mod)

lemma run_ops_none: "mf_result m = (\<lambda>k op. None) \<Longrightarrow> run_ops m k ops = None"
  by (induction ops arbitrary: k) auto

lemma configure_ok:
  assumes "configure m now w h fps bitrate enc = (Inr (), enc')"
  shows "transform enc' \<noteq> None" "enc_width enc' = round_even w" "enc_height enc' = round_even h"
    "next_pts_100ns enc' = 0" "frame_duration_100ns enc' = 10000000 div int (unat (max fps 1))"
  using assms by (auto simp: configure_def Let_def split: sum.splits option.splits prod.splits)

section \<open>Properties\<close>

text \<open>
  A capture with an odd side can never be encoded. \<open>configure\<close> rounds the size up and
  accepts it; the capture thread hands \<open>submit_frame\<close> a tightly packed buffer of the real size,
  which is then always too short, so every frame is refused with \<open>InputBufferSize\<close>, whatever
  MediaFoundation does, and nothing is ever sent.
\<close>

theorem odd_capture_never_encodes:
  assumes "configure m now w h fps bitrate enc = (Inr (), enc')"
    and "0 < unat w" "unat w < 2 ^ 30" "0 < unat h" "unat h < 2 ^ 30" "odd (unat w) \<or> odd (unat h)"
    and "length bgra = unat w * unat h * 4"
  shows "\<exists>needed. length bgra < needed
    \<and> submit_frame m' fresh bgra enc' = (Failed (InputBufferSize (length bgra) needed), enc')"
proof -
  note c = configure_ok [OF assms(1)]
  have le: "unat (round_even x) \<le> 2 ^ 30" "unat x \<le> unat (round_even x)"
    "odd (unat x) \<Longrightarrow> unat x < unat (round_even x)" if "unat x < 2 ^ 30" for x :: u32
    using that by (cases "even (unat x)"; simp add: round_even_even round_even_odd)+
  have "unat w * unat h < unat (round_even w) * unat (round_even h)"
  proof (cases "odd (unat w)")
    case True
    then have "Suc (unat w) * unat h \<le> unat (round_even w) * unat (round_even h)"
      using le [OF assms(3)] le(2) [OF assms(5)] by (intro mult_le_mono) simp_all
    with assms(4) show ?thesis by simp
  next
    case False
    with assms(6) have "unat w * Suc (unat h) \<le> unat (round_even w) * unat (round_even h)"
      using le [OF assms(5)] le(2) [OF assms(3)] by (intro mult_le_mono) simp_all
    with assms(2) show ?thesis by simp
  qed
  moreover have "unat (expected_len enc') = unat (round_even w) * unat (round_even h) * 4"
    using unat_ucast_mult(2) le(1) assms(3,5) by (simp add: expected_len_def c(2,3))
  ultimately have "length bgra < unat (expected_len enc')" using assms(7) by simp
  then show ?thesis
    using c(1) by (intro exI [of _ "unat (expected_len enc')"]) (simp add: submit_frame_def)
qed

text \<open>
  C26. A capture with even sides is encoded, as long as its NV12 image has less than four
  gigabytes: when MediaFoundation accepts every call of \<open>configure\<close> and \<open>submit_frame\<close>, a tightly
  packed frame never panics, overruns or fails, the transform is given the NV12 image of the frame
  with the current presentation time, and the time advances by one frame duration.
\<close>

theorem even_capture_encodes:
  assumes "configure m now w h fps bitrate enc = (Inr (), enc0)"
    and "unat w < 2 ^ 30" "unat h < 2 ^ 30" "unat w * unat h + unat w * unat h div 2 < 2 ^ 32" "even (unat w)" "even (unat h)"
    and "enc' = enc0\<lparr>next_pts_100ns := t\<rparr>" "0 \<le> t" "t + frame_duration_100ns enc0 \<le> i64_max"
    and "length bgra = unat w * unat h * 4" "mf_result m' = (\<lambda>k op. None)" "\<And>n. length (fresh n) = n"
  shows "submit_frame m' fresh bgra enc' =
    (Submitted \<lparr>sample_data = nv12_of bgra (unat w) (unat h), sample_time = t,
       sample_duration = 10000000 div int (unat (max fps 1))\<rparr>,
     enc'\<lparr>next_pts_100ns := t + 10000000 div int (unat (max fps 1))\<rparr>)"
proof -
  note c = configure_ok [OF assms(1)]
  have sz: "unat (round_even w) = unat w" "unat (round_even h) = unat h"
    using assms(2,3,5,6) by (simp_all add: round_even_even)
  have u: "unat (expected_len enc') = unat w * unat h * 4" "y_size enc' = unat w * unat h"
    using unat_ucast_mult [of "round_even w" "round_even h"] assms(2,3)
    by (simp_all add: expected_len_def y_size_def assms(7) c(2,3) sz)
  have "unat w * unat h \<le> 2 ^ 60" using assms(4) by simp
  then have n: "unat (nv12_len enc') = unat w * unat h + unat w * unat h div 2"
    using unat_nv12_len [of enc'] u(2) by simp
  then have fits: "\<not> unat (ucast (nv12_len enc') :: u32) < unat (nv12_len enc')"
    using assms(4) by (simp add: unat_u32_of_usize)
  have d: "0 \<le> frame_duration_100ns enc0" by (simp add: c(5) div_int_pos_iff)
  have "bgra_to_nv12 bgra (unat w) (unat h) (fresh (unat w * unat h + unat w * unat h div 2))
      = Some (nv12_of bgra (unat w) (unat h))"
    by (rule bgra_to_nv12_eq [OF assms(5,6)]) (simp_all add: assms(10,12))
  moreover have "i64_saturating_add t (frame_duration_100ns enc0) = t + frame_duration_100ns enc0"
    using assms(8,9) d by (simp add: i64_saturating_add_def)
  ultimately show ?thesis
    using c(1) fits unfolding submit_frame_def Let_def run_ops_none [OF assms(11)] n u
    by (simp add: assms(10)) (simp add: assms(7) c sz)
qed

text \<open>
  From four gigabytes on the length is truncated for MediaFoundation, and the slice over the
  buffer runs past its end.
\<close>

lemma huge_capture_overruns:
  assumes "transform enc \<noteq> None" "unat (enc_width enc) \<le> 2 ^ 30" "unat (enc_height enc) \<le> 2 ^ 30"
    and "2 ^ 32 \<le> unat (enc_width enc) * unat (enc_height enc) + unat (enc_width enc) * unat (enc_height enc) div 2"
    and "unat (enc_width enc) * unat (enc_height enc) * 4 \<le> length bgra" "mf_result m = (\<lambda>k op. None)"
  shows "submit_frame m fresh bgra enc = (Overrun, enc)"
proof -
  have u: "unat (expected_len enc) = unat (enc_width enc) * unat (enc_height enc) * 4"
    "y_size enc = unat (enc_width enc) * unat (enc_height enc)"
    using unat_ucast_mult [OF assms(2,3)] by (simp_all add: expected_len_def y_size_def)
  have "y_size enc \<le> 2 ^ 60" using mult_le_mono [OF assms(2,3)] by (simp add: u(2) flip: power_add)
  then have "2 ^ 32 \<le> unat (nv12_len enc)" using unat_nv12_len [of enc] u(2) assms(4) by simp
  then have "unat (ucast (nv12_len enc) :: u32) < unat (nv12_len enc)"
    unfolding unat_u32_of_usize by (rule order.strict_trans2 [OF mod_less_divisor, rotated]) simp
  then show ?thesis
    using assms(1,5) unfolding submit_frame_def run_ops_none [OF assms(6)] u by simp
qed

section \<open>Witnesses\<close>

definition demo_mf :: mf where
  "demo_mf = \<lparr>enum_sync = Inr [Some (Inr 1)], enum_hardware = Inr [], stream_ids = Inl E_NOTIMPL,
     mf_result = (\<lambda>k op. None)\<rparr>"

text \<open>A round whose transform allocates its samples, for a witness.\<close>

definition sample_round :: "bytes \<Rightarrow> drain_round" where
  "sample_round bs = \<lparr>stream_info = Inr (0x100, 0), round_mf = demo_mf,
     process_output = (\<lambda>given. Inr (Some \<lparr>contiguous = None, locked = Inr bs, unlocked = None\<rparr>)),
     round_now = 7, round_wall = 7\<rparr>"

definition last_round :: drain_round where
  "last_round = (sample_round [])\<lparr>process_output := (\<lambda>given. Inl MF_E_TRANSFORM_NEED_MORE_INPUT)\<rparr>"

lemma demo_rounds:
  "round_output enc (sample_round bs) = Output (stamp_nals (word_of_int (micros_since 0 7))
     (word_of_int (epoch_now_us 7 enc)) bs)"
  "round_output enc last_round = NeedMoreInput"
  by (simp_all add: round_output_def sample_round_def last_round_def allocate_sample_def
      provides_samples_def sample_bytes_def)

lemma demo_configure:
  "\<exists>enc. configure demo_mf 0 w h 30 8000 encoder_new = (Inr (), enc)"
  by (simp add: configure_def find_h264_encoder_def lookup_stream_ids_def run_ops_none demo_mf_def Let_def)

theorem odd_capture_never_encodes_witness:
  "\<exists>enc needed. configure demo_mf 0 1367 768 30 8000 encoder_new = (Inr (), enc)
    \<and> submit_frame demo_mf (\<lambda>n. replicate n 0) (replicate (1367 * 768 * 4) 0) enc
      = (Failed (InputBufferSize (1367 * 768 * 4) needed), enc)"
proof -
  obtain enc where c: "configure demo_mf 0 1367 768 30 8000 encoder_new = (Inr (), enc)"
    using demo_configure by blast
  have "\<exists>needed. length (replicate (1367 * 768 * 4) (0 :: u8)) < needed
    \<and> submit_frame demo_mf (\<lambda>n. replicate n 0) (replicate (1367 * 768 * 4) 0) enc
      = (Failed (InputBufferSize (length (replicate (1367 * 768 * 4) (0 :: u8))) needed), enc)"
    by (rule odd_capture_never_encodes [OF c]) (simp_all del: replicate.simps)
  with c show ?thesis unfolding length_replicate by blast
qed

theorem even_capture_encodes_witness:
  "\<exists>enc. configure demo_mf 0 2 2 30 8000 encoder_new = (Inr (), enc)
    \<and> submit_frame demo_mf (\<lambda>n. replicate n 0) (replicate 16 0xff) enc =
      (Submitted \<lparr>sample_data = [235, 235, 235, 235, 128, 128], sample_time = 0, sample_duration = 333333\<rparr>,
       enc\<lparr>next_pts_100ns := 333333\<rparr>)"
proof -
  obtain enc where c: "configure demo_mf 0 2 2 30 8000 encoder_new = (Inr (), enc)"
    using demo_configure by blast
  note ok = configure_ok [OF c]
  have "submit_frame demo_mf (\<lambda>n. replicate n 0) (replicate 16 0xff) enc =
    (Submitted \<lparr>sample_data = nv12_of (replicate 16 0xff) (unat (2 :: u32)) (unat (2 :: u32)), sample_time = 0,
       sample_duration = 10000000 div int (unat (max 30 1 :: u32))\<rparr>,
     enc\<lparr>next_pts_100ns := 0 + 10000000 div int (unat (max 30 1 :: u32))\<rparr>)"
    by (rule even_capture_encodes [OF c]) (use ok in \<open>simp_all add: i64_max_def demo_mf_def max_def word_le_nat_alt\<close>)
  moreover have "nv12_of (replicate 16 0xff) 2 2 = [235, 235, 235, 235, 128, 128]"
    by (rule demo_nv12)
  moreover have "max 30 1 = (30 :: u32)" by (simp add: max_def word_le_nat_alt)
  ultimately show ?thesis using c by (simp del: replicate.simps)
qed

end
