(* ===== verification/Publisher.thy ===== *)
theory Publisher
  imports Encoder "HOL-Library.Sublist"
begin

text \<open>
  The Windows publisher: \<open>crates/win-capturer/src/publisher.rs\<close>, with \<open>display.rs\<close>. A process-wide
  \<open>State\<close> under a mutex, a shutdown flag and a slot with the channel, shared by any number of
  API callers and by the capture thread a successful \<open>start\<close> spawns. Every access to a shared
  variable is a step of its own (a lock is held for one step), in \<open>on_frame_arrived\<close> too, and
  \<open>publisher_run\<close> executes an arbitrary schedule of steps; what a thread computes on its own goes
  with the access before it. No lock is held where
  the code can panic, so none is ever poisoned. The capture API,
  MediaFoundation and the receiver's end of the channel are inputs of the steps.
\<close>

section \<open>State\<close>

text \<open>\<open>CaptureSnapshot\<close>, and \<open>State\<close> which adds the two flags.\<close>

record capture_snapshot =
  width :: u32
  height :: u32
  fps :: u32
  bitrate_kbps :: u32
  display_id :: u32

record pub_state = capture_snapshot +
  running :: bool
  needs_rebuild :: bool

definition pub_state_default :: pub_state where
  "pub_state_default = \<lparr>width = 0, height = 0, fps = 0, bitrate_kbps = 0, display_id = 0,
     running = False, needs_rebuild = False\<rparr>"

definition capture_snapshot_of :: "pub_state \<Rightarrow> capture_snapshot" where
  "capture_snapshot_of s = \<lparr>width = width s, height = height s, fps = fps s,
     bitrate_kbps = bitrate_kbps s, display_id = display_id s\<rparr>"

text \<open>
  The process: \<open>sent\<close> is the history of the channels, which thread sent what on which;
  \<open>mf_refs\<close> counts \<open>MFStartup\<close> calls not yet matched by \<open>MFShutdown\<close>.
\<close>

record shared =
  st :: pub_state
  shutdown :: bool
  sender :: "nat option"
  sent :: "(nat \<times> nat \<times> nal) list"
  mf_refs :: nat

section \<open>The public operations on a running publisher\<close>

definition NOT_STARTED :: string where
  "NOT_STARTED = ''capturer not started''"

definition select_display :: "u32 \<Rightarrow> pub_state \<Rightarrow> (string + unit) \<times> pub_state" where
  "select_display d s =
     (if \<not> running s then (Inl NOT_STARTED, s)
      else if display_id s = d then (Inr (), s)
      else (Inr (), s\<lparr>display_id := d, needs_rebuild := True\<rparr>))"

definition set_bitrate_kbps :: "u32 \<Rightarrow> pub_state \<Rightarrow> (string + unit) \<times> pub_state" where
  "set_bitrate_kbps k s =
     (if \<not> running s then (Inl NOT_STARTED, s)
      else (Inr (), s\<lparr>bitrate_kbps := k, needs_rebuild := True\<rparr>))"

definition set_fps :: "u32 \<Rightarrow> pub_state \<Rightarrow> (string + unit) \<times> pub_state" where
  "set_fps f s =
     (if \<not> running s then (Inl NOT_STARTED, s)
      else (Inr (), s\<lparr>fps := f, needs_rebuild := True\<rparr>))"

definition set_resolution :: "u32 \<Rightarrow> u32 \<Rightarrow> pub_state \<Rightarrow> (string + unit) \<times> pub_state" where
  "set_resolution w h s =
     (if \<not> running s then (Inl NOT_STARTED, s)
      else (Inr (), s\<lparr>width := w, height := h, needs_rebuild := True\<rparr>))"

text \<open>The getters read the state whether or not a publisher runs.\<close>

definition active_display_id :: "pub_state \<Rightarrow> u32" where
  "active_display_id s = display_id s"

definition get_bitrate_kbps :: "pub_state \<Rightarrow> u32" where
  "get_bitrate_kbps s = bitrate_kbps s"

definition get_fps :: "pub_state \<Rightarrow> u32" where
  "get_fps s = fps s"

definition resolution :: "pub_state \<Rightarrow> u32 \<times> u32" where
  "resolution s = (width s, height s)"

section \<open>A capture session\<close>

text \<open>What \<open>Monitor::primary\<close>, \<open>Monitor::from_index\<close> and \<open>Monitor::enumerate\<close> answer at a moment.\<close>

record monitor =
  mon_width :: "u32 option"
  mon_height :: "u32 option"
  device_name :: "string option"

record monitors =
  primary :: "monitor option"
  from_index :: "nat \<Rightarrow> monitor option"
  enumerate_all :: "monitor list option"

definition resolve_monitor :: "monitors \<Rightarrow> u32 \<Rightarrow> monitor option" where
  "resolve_monitor ms d =
     (if d = 0 then primary ms
      else case from_index ms (unat d) of Some m \<Rightarrow> Some m | None \<Rightarrow> primary ms)"

text \<open>\<open>display::list_displays\<close>: a monitor whose size cannot be read is left out.\<close>

record display_info =
  info_id :: u32
  info_width :: int
  info_height :: int
  is_primary :: bool

fun display_info_of :: "string option \<Rightarrow> nat \<times> monitor \<Rightarrow> display_info option" where
  "display_info_of primary_name (idx, m) =
     (case mon_width m of
        None \<Rightarrow> None
      | Some w \<Rightarrow>
          (case mon_height m of
             None \<Rightarrow> None
           | Some h \<Rightarrow>
               Some \<lparr>info_id = word_of_nat idx + 1, info_width = uint w, info_height = uint h,
                 is_primary = (case (primary_name, device_name m) of (Some a, Some b) \<Rightarrow> a = b | _ \<Rightarrow> False)\<rparr>))"

definition list_displays :: "monitors \<Rightarrow> display_info list" where
  "list_displays ms =
     (case enumerate_all ms of
        None \<Rightarrow> []
      | Some all \<Rightarrow> List.map_filter (display_info_of (Option.bind (primary ms) device_name)) (enumerate 0 all))"

record screenshare_handler =
  h_encoder :: h264_encoder
  h_snapshot :: capture_snapshot
  configured_dims :: "(u32 \<times> u32) option"

definition handler_new :: "capture_snapshot \<Rightarrow> screenshare_handler" where
  "handler_new sn = \<lparr>h_encoder = encoder_new, h_snapshot = sn, configured_dims = None\<rparr>"

text \<open>
  A frame: its size, its tightly packed bytes unless \<open>buffer\<close> fails, and what MediaFoundation does
  while it is handled, in \<open>configure\<close> and \<open>submit_frame\<close> and in the rounds of \<open>drain\<close>.
\<close>

record frame =
  f_width :: u32
  f_height :: u32
  f_buffer :: "bytes option"
  f_configure :: mf
  f_now :: int
  f_submit :: mf
  f_fresh :: "nat \<Rightarrow> bytes"
  f_outputs :: "drain_round list"

text \<open>
  What the handling of a frame comes to before anything shared is touched again: nothing to send,
  NALs to send, a size that has changed, an error, a panic, a buffer overrun (undefined
  behaviour), or no end at all (the transform never runs out of output).
\<close>

datatype frame_work = WorkSkip | WorkNals "nal list" | WorkResized | WorkErr | WorkPanic | WorkOverrun | WorkHang

definition u32_saturating_mul :: "u32 \<Rightarrow> u32 \<Rightarrow> u32" where
  "u32_saturating_mul a b = (if unat a * unat b < 2 ^ 32 then a * b else - 1)"

definition encode_frame :: "frame \<Rightarrow> screenshare_handler \<Rightarrow> frame_work \<times> screenshare_handler" where
  "encode_frame f h =
     (case f_buffer f of
        None \<Rightarrow> (WorkErr, h)
      | Some bgra \<Rightarrow>
          (let (r, enc) = submit_frame (f_submit f) (f_fresh f) bgra (h_encoder h); h' = h\<lparr>h_encoder := enc\<rparr> in
           case r of
             Panicked \<Rightarrow> (WorkPanic, h')
           | Overrun \<Rightarrow> (WorkOverrun, h')
           | Failed e \<Rightarrow> (WorkSkip, h')
           | Submitted smp \<Rightarrow>
               (case drain enc (f_outputs f) of
                  None \<Rightarrow> (WorkHang, h')
                | Some (Inl e) \<Rightarrow> (WorkSkip, h')
                | Some (Inr nals) \<Rightarrow> (WorkNals nals, h'))))"

text \<open>\<open>on_frame_arrived\<close> between its reads of the two flags and the sending.\<close>

definition handle_frame :: "frame \<Rightarrow> screenshare_handler \<Rightarrow> frame_work \<times> screenshare_handler" where
  "handle_frame f h =
     (case configured_dims h of
        None \<Rightarrow>
          (let (r, enc) = configure (f_configure f) (f_now f) (f_width f) (f_height f) (fps (h_snapshot h))
                 (u32_saturating_mul (bitrate_kbps (h_snapshot h)) 1000) (h_encoder h) in
           case r of
             Inl e \<Rightarrow> (WorkErr, h\<lparr>h_encoder := enc\<rparr>)
           | Inr _ \<Rightarrow> encode_frame f (h\<lparr>h_encoder := enc, configured_dims := Some (f_width f, f_height f)\<rparr>))
      | Some (cw, ch) \<Rightarrow>
          (if f_width f \<noteq> cw \<or> f_height f \<noteq> ch then (WorkResized, h) else encode_frame f h))"

section \<open>The capture thread\<close>

text \<open>
  \<open>run_capture_thread\<close>, \<open>on_frame_arrived\<close> and the closure around them, cut at the shared
  variables. A session waits for frames in \<open>CaptureSession\<close>; \<open>CaptureChecked\<close> has read the shutdown
  flag, \<open>CaptureSlot\<close> has NALs and no sender yet, \<open>CaptureSend\<close> sends them one by one on its clone
  of the sender, \<open>CaptureResized\<close> is about to ask for a rebuild. \<open>CaptureExit\<close> are the closure's
  three stores; a thread that unwound past them, hangs or has overrun a buffer stays where it is.
\<close>

datatype capture_pc =
    CaptureNone
  | CaptureInit
  | CaptureTop
  | CaptureRead
  | CaptureClear capture_snapshot
  | CaptureMonitor capture_snapshot
  | CaptureSession monitor screenshare_handler
  | CaptureChecked monitor screenshare_handler frame
  | CaptureResized
  | CaptureSlot monitor screenshare_handler "nal list"
  | CaptureSend monitor screenshare_handler nat "nal list"
  | CaptureAfter
  | CaptureExit1
  | CaptureExit2
  | CaptureExit3
  | CaptureDead
  | CapturePanicked
  | CaptureHung
  | CaptureUndefined

text \<open>
  What the outside does in a step of the thread, of which each step uses what concerns it: whether
  \<open>MFStartup\<close> succeeds, the monitors, the frame, or \<open>None\<close> when the session closes or fails, and
  whether the receiver of the channel still lives.
\<close>

record capture_input =
  mf_starts :: bool
  monitors_now :: monitors
  arrival :: "frame option"
  receiver_open :: bool

definition after_work :: "monitor \<Rightarrow> screenshare_handler \<Rightarrow> frame_work \<Rightarrow> capture_pc" where
  "after_work m h w =
     (case w of
        WorkSkip \<Rightarrow> CaptureSession m h
      | WorkNals nals \<Rightarrow> CaptureSlot m h nals
      | WorkResized \<Rightarrow> CaptureResized
      | WorkErr \<Rightarrow> CaptureAfter
      | WorkPanic \<Rightarrow> CapturePanicked
      | WorkOverrun \<Rightarrow> CaptureUndefined
      | WorkHang \<Rightarrow> CaptureHung)"

fun capture_step :: "nat \<Rightarrow> capture_input \<Rightarrow> capture_pc \<Rightarrow> shared \<Rightarrow> capture_pc \<times> shared" where
  "capture_step t x CaptureInit sh =
     (if mf_starts x then (CaptureTop, sh\<lparr>mf_refs := Suc (mf_refs sh)\<rparr>) else (CaptureExit1, sh))"
| "capture_step t x CaptureTop sh =
     (if shutdown sh then (CaptureExit1, sh\<lparr>mf_refs := mf_refs sh - 1\<rparr>) else (CaptureRead, sh))"
| "capture_step t x CaptureRead sh = (CaptureClear (capture_snapshot_of (st sh)), sh)"
| "capture_step t x (CaptureClear sn) sh =
     (CaptureMonitor sn, sh\<lparr>st := (st sh)\<lparr>needs_rebuild := False\<rparr>\<rparr>)"
| "capture_step t x (CaptureMonitor sn) sh =
     (case resolve_monitor (monitors_now x) (display_id sn) of
        None \<Rightarrow> (CaptureExit1, sh)
      | Some m \<Rightarrow> (CaptureSession m (handler_new sn), sh))"
| "capture_step t x (CaptureSession m h) sh =
     (case arrival x of
        None \<Rightarrow> (CaptureAfter, sh)
      | Some f \<Rightarrow> (if shutdown sh then CaptureAfter else CaptureChecked m h f, sh))"
| "capture_step t x (CaptureChecked m h f) sh =
     (if needs_rebuild (st sh) then (CaptureAfter, sh)
      else let (w, h') = handle_frame f h in (after_work m h' w, sh))"
| "capture_step t x CaptureResized sh = (CaptureAfter, sh\<lparr>st := (st sh)\<lparr>needs_rebuild := True\<rparr>\<rparr>)"
| "capture_step t x (CaptureSlot m h nals) sh =
     (case sender sh of None \<Rightarrow> (CaptureSession m h, sh) | Some c \<Rightarrow> (CaptureSend m h c nals, sh))"
| "capture_step t x (CaptureSend m h c []) sh = (CaptureSession m h, sh)"
| "capture_step t x (CaptureSend m h c (n # nals)) sh =
     (if receiver_open x then (CaptureSend m h c nals, sh\<lparr>sent := sent sh @ [(t, c, n)]\<rparr>)
      else (CaptureAfter, sh\<lparr>shutdown := True\<rparr>))"
| "capture_step t x CaptureAfter sh =
     (if shutdown sh then (CaptureExit1, sh\<lparr>mf_refs := mf_refs sh - 1\<rparr>) else (CaptureTop, sh))"
| "capture_step t x CaptureExit1 sh = (CaptureExit2, sh\<lparr>shutdown := False\<rparr>)"
| "capture_step t x CaptureExit2 sh = (CaptureExit3, sh\<lparr>sender := None\<rparr>)"
| "capture_step t x CaptureExit3 sh = (CaptureDead, sh\<lparr>st := (st sh)\<lparr>running := False\<rparr>\<rparr>)"
| "capture_step t x pc sh = (pc, sh)"

section \<open>\<open>start\<close>, \<open>stop\<close> and the schedules\<close>

text \<open>Call \<open>i\<close> of \<open>start\<close>; its channel and its thread are numbered \<open>i\<close> as well.\<close>

datatype start_pc =
    StartLock capture_snapshot
  | StartShutdown
  | StartSender
  | StartSpawn
  | StartDone "string + nat"

record publisher =
  sh :: shared
  calls :: "nat \<Rightarrow> start_pc"
  threads :: "nat \<Rightarrow> capture_pc"

definition ALREADY_RUNNING :: string where
  "ALREADY_RUNNING = ''publisher already running''"

definition SPAWN_FAILED :: string where
  "SPAWN_FAILED = ''thread::spawn failed''"

definition start_state :: "capture_snapshot \<Rightarrow> pub_state \<Rightarrow> pub_state" where
  "start_state a s = s\<lparr>width := width a, height := height a, fps := fps a, bitrate_kbps := bitrate_kbps a,
     display_id := display_id a, running := True, needs_rebuild := False\<rparr>"

definition start_step :: "nat \<Rightarrow> bool \<Rightarrow> publisher \<Rightarrow> publisher" where
  "start_step i spawns p =
     (case calls p i of
        StartLock a \<Rightarrow>
          (if running (st (sh p)) then p\<lparr>calls := (calls p)(i := StartDone (Inl ALREADY_RUNNING))\<rparr>
           else p\<lparr>sh := (sh p)\<lparr>st := start_state a (st (sh p))\<rparr>, calls := (calls p)(i := StartShutdown)\<rparr>)
      | StartShutdown \<Rightarrow> p\<lparr>sh := (sh p)\<lparr>shutdown := False\<rparr>, calls := (calls p)(i := StartSender)\<rparr>
      | StartSender \<Rightarrow> p\<lparr>sh := (sh p)\<lparr>sender := Some i\<rparr>, calls := (calls p)(i := StartSpawn)\<rparr>
      | StartSpawn \<Rightarrow>
          (if spawns
           then p\<lparr>calls := (calls p)(i := StartDone (Inr i)), threads := (threads p)(i := CaptureInit)\<rparr>
           else p\<lparr>calls := (calls p)(i := StartDone (Inl SPAWN_FAILED))\<rparr>)
      | StartDone r \<Rightarrow> p)"

definition stop :: "shared \<Rightarrow> shared" where
  "stop s = s\<lparr>shutdown := True\<rparr>"

datatype pub_event =
    StartNext nat bool
  | Stop
  | SelectDisplay u32
  | SetBitrate u32
  | SetFps u32
  | SetResolution u32 u32
  | CaptureNext nat capture_input

fun publisher_step :: "pub_event \<Rightarrow> publisher \<Rightarrow> publisher" where
  "publisher_step (StartNext i spawns) p = start_step i spawns p"
| "publisher_step Stop p = p\<lparr>sh := stop (sh p)\<rparr>"
| "publisher_step (SelectDisplay d) p = p\<lparr>sh := (sh p)\<lparr>st := snd (select_display d (st (sh p)))\<rparr>\<rparr>"
| "publisher_step (SetBitrate k) p = p\<lparr>sh := (sh p)\<lparr>st := snd (set_bitrate_kbps k (st (sh p)))\<rparr>\<rparr>"
| "publisher_step (SetFps f) p = p\<lparr>sh := (sh p)\<lparr>st := snd (set_fps f (st (sh p)))\<rparr>\<rparr>"
| "publisher_step (SetResolution w h) p = p\<lparr>sh := (sh p)\<lparr>st := snd (set_resolution w h (st (sh p)))\<rparr>\<rparr>"
| "publisher_step (CaptureNext i x) p =
     (let (pc, s) = capture_step i x (threads p i) (sh p) in p\<lparr>sh := s, threads := (threads p)(i := pc)\<rparr>)"

definition publisher_run :: "pub_event list \<Rightarrow> publisher \<Rightarrow> publisher" where
  "publisher_run es p = fold publisher_step es p"

text \<open>No publisher yet; \<open>args i\<close> are the arguments of call \<open>i\<close>.\<close>

definition publisher_init :: "(nat \<Rightarrow> capture_snapshot) \<Rightarrow> publisher" where
  "publisher_init args =
     \<lparr>sh = \<lparr>st = pub_state_default, shutdown = False, sender = None, sent = [], mf_refs = 0\<rparr>,
      calls = (\<lambda>i. StartLock (args i)), threads = (\<lambda>_. CaptureNone)\<rparr>"

section \<open>One holder\<close>

text \<open>
  Call \<open>i\<close> holds the publisher from its lock on: while \<open>start\<close> is under way, while its thread
  lives, and for ever if the spawn failed or the thread panicked.
\<close>

definition starting :: "start_pc \<Rightarrow> bool" where
  "starting c \<longleftrightarrow> c \<in> {StartShutdown, StartSender, StartSpawn}"

definition alive :: "capture_pc \<Rightarrow> bool" where
  "alive pc \<longleftrightarrow> pc \<notin> {CaptureNone, CaptureDead, CapturePanicked}"

definition wrecked :: "publisher \<Rightarrow> nat \<Rightarrow> bool" where
  "wrecked p i \<longleftrightarrow> calls p i = StartDone (Inl SPAWN_FAILED) \<or> threads p i = CapturePanicked"

definition holds :: "publisher \<Rightarrow> nat \<Rightarrow> bool" where
  "holds p i \<longleftrightarrow> starting (calls p i) \<or> alive (threads p i) \<or> wrecked p i"

definition wired :: "publisher \<Rightarrow> nat \<Rightarrow> bool" where
  "wired p i \<longleftrightarrow> calls p i = StartSpawn \<or> alive (threads p i) \<and> threads p i \<noteq> CaptureExit3"

text \<open>A thread that sends does so on its own channel.\<close>

fun own_channel :: "nat \<Rightarrow> capture_pc \<Rightarrow> bool" where
  "own_channel t (CaptureSend m h c nals) \<longleftrightarrow> c = t"
| "own_channel t pc \<longleftrightarrow> True"

definition publisher_ok :: "publisher \<Rightarrow> bool" where
  "publisher_ok p \<longleftrightarrow>
     (\<forall>i j. holds p i \<longrightarrow> holds p j \<longrightarrow> i = j)
     \<and> (running (st (sh p)) \<longleftrightarrow> (\<exists>i. holds p i))
     \<and> (\<forall>i. threads p i \<noteq> CaptureNone \<longrightarrow> calls p i = StartDone (Inr i))
     \<and> (\<forall>i. wired p i \<longrightarrow> sender (sh p) = Some i)
     \<and> (\<forall>i. own_channel i (threads p i))
     \<and> (\<forall>(t, c, n) \<in> set (sent (sh p)). t = c)"

text \<open>What a frame and a step of the thread do.\<close>

lemma encode_frame_kept:
  assumes "encode_frame f h = (w, h')"
  shows "h_snapshot h' = h_snapshot h \<and> configured_dims h' = configured_dims h \<and> w \<noteq> WorkResized"
  using assms
  by (auto simp: encode_frame_def Let_def split: option.splits prod.splits submit_result.splits sum.splits)

text \<open>The branches of \<open>on_frame_arrived\<close>.\<close>

lemma handle_frame_cases:
  obtains
    (refused) r enc where "handle_frame f h = (WorkErr, h\<lparr>h_encoder := enc\<rparr>)" "configured_dims h = None"
      "configure (f_configure f) (f_now f) (f_width f) (f_height f) (fps (h_snapshot h))
        (u32_saturating_mul (bitrate_kbps (h_snapshot h)) 1000) (h_encoder h) = (Inl r, enc)"
  | (first) enc where "handle_frame f h =
        encode_frame f (h\<lparr>h_encoder := enc, configured_dims := Some (f_width f, f_height f)\<rparr>)"
      "configured_dims h = None"
      "configure (f_configure f) (f_now f) (f_width f) (f_height f) (fps (h_snapshot h))
        (u32_saturating_mul (bitrate_kbps (h_snapshot h)) 1000) (h_encoder h) = (Inr (), enc)"
  | (resized) "handle_frame f h = (WorkResized, h)"
      "\<exists>wh. configured_dims h = Some wh \<and> wh \<noteq> (f_width f, f_height f)"
  | (next_frame) "handle_frame f h = encode_frame f h" "configured_dims h = Some (f_width f, f_height f)"
proof (cases "configured_dims h")
  case None
  obtain r enc where c: "configure (f_configure f) (f_now f) (f_width f) (f_height f) (fps (h_snapshot h))
      (u32_saturating_mul (bitrate_kbps (h_snapshot h)) 1000) (h_encoder h) = (r, enc)" by fastforce
  show ?thesis
    by (cases r) (use refused first None c in \<open>auto simp: handle_frame_def\<close>)
next
  case (Some wh)
  show ?thesis
  proof (cases "wh = (f_width f, f_height f)")
    case True
    with Some show ?thesis by (intro next_frame) (auto simp: handle_frame_def)
  next
    case False
    with Some show ?thesis by (intro resized) (cases wh; auto simp: handle_frame_def)+
  qed
qed

lemma handle_frame_kept: "handle_frame f h = (w, h') \<Longrightarrow> h_snapshot h' = h_snapshot h"
  by (rule handle_frame_cases [of f h]) (auto dest: encode_frame_kept encode_frame_kept [OF sym])

definition sends :: "nat \<Rightarrow> shared \<Rightarrow> shared \<Rightarrow> bool" where
  "sends t s s' \<longleftrightarrow> (\<exists>ns. sent s' = sent s @ map (\<lambda>n. (t, t, n)) ns)"

lemma sends_refl [simp]: "sent s' = sent s \<Longrightarrow> sends t s s'"
  by (auto simp: sends_def)

lemma sends_one [simp]: "sent s' = sent s @ [(t, t, n)] \<Longrightarrow> sends t s s'"
  unfolding sends_def by (intro exI [of _ "[n]"]) simp

lemma after_work_pc:
  "after_work m h w \<notin> {CaptureNone, CaptureDead, CaptureExit1, CaptureExit2, CaptureExit3}" "own_channel t (after_work m h w)"
  by (cases w; simp add: after_work_def)+

lemma capture_step_shared:
  assumes "capture_step t x pc s = (pc', s')" "own_channel t pc"
  shows "running (st s') = (running (st s) \<and> pc \<noteq> CaptureExit3)
    \<and> sender s' = (if pc = CaptureExit2 then None else sender s) \<and> sends t s s'
    \<and> (\<not> alive pc \<longrightarrow> pc' = pc \<and> s' = s) \<and> pc' \<noteq> CaptureNone \<or> pc = CaptureNone \<and> pc' = pc \<and> s' = s"
proof (cases pc)
  case (CaptureSend m h c nals)
  with assms show ?thesis by (cases nals) (auto simp: alive_def split: if_splits)
qed (use assms after_work_pc in \<open>fastforce simp: alive_def split: if_splits option.splits prod.splits\<close>)+

lemma capture_step_channel:
  assumes "capture_step t x pc s = (pc', s')" "own_channel t pc" "alive pc \<and> pc \<noteq> CaptureExit3 \<Longrightarrow> sender s = Some t"
  shows "own_channel t pc'"
proof (cases pc)
  case (CaptureSend m h c nals)
  with assms show ?thesis by (cases nals) (auto split: if_splits)
qed (use assms after_work_pc in \<open>auto simp: alive_def split: if_splits option.splits prod.splits\<close>)

lemma capture_step_pc:
  assumes "capture_step t x pc s = (pc', s')"
  shows "(alive pc' \<or> pc' = CapturePanicked \<longleftrightarrow> alive pc \<and> pc \<noteq> CaptureExit3 \<or> pc = CapturePanicked)
    \<and> (alive pc' \<and> pc' \<noteq> CaptureExit3 \<longrightarrow> alive pc \<and> pc \<noteq> CaptureExit2 \<and> pc \<noteq> CaptureExit3)"
proof (cases pc)
  case (CaptureSend m h c nals)
  with assms show ?thesis by (cases nals) (auto simp: alive_def split: if_splits)
next
  case (CaptureChecked m h f)
  obtain w h' where "handle_frame f h = (w, h')" by fastforce
  with CaptureChecked assms after_work_pc(1) [where m = m and h = h' and w = w] show ?thesis
    by (auto simp: alive_def split: if_splits)
qed (use assms in \<open>auto simp: alive_def split: if_splits option.splits\<close>)

lemma sends_own:
  assumes "sends t s s'" "\<forall>(t, c, n) \<in> set (sent s). t = c"
  shows "\<forall>(t, c, n) \<in> set (sent s'). t = c"
  using assms by (auto simp: sends_def)

lemma publisher_okI:
  assumes "\<And>i j. holds p i \<Longrightarrow> holds p j \<Longrightarrow> i = j" "running (st (sh p)) \<longleftrightarrow> (\<exists>i. holds p i)"
    and "\<And>i. threads p i \<noteq> CaptureNone \<Longrightarrow> calls p i = StartDone (Inr i)"
    and "\<And>i. wired p i \<Longrightarrow> sender (sh p) = Some i" "\<forall>(t, c, n) \<in> set (sent (sh p)). t = c"
    and "\<And>i. own_channel i (threads p i)"
  shows "publisher_ok p"
  unfolding publisher_ok_def using assms by blast

lemma publisher_okD:
  assumes "publisher_ok p"
  shows "holds p i \<Longrightarrow> holds p j \<Longrightarrow> i = j" "running (st (sh p)) \<longleftrightarrow> (\<exists>i. holds p i)"
    "threads p i \<noteq> CaptureNone \<Longrightarrow> calls p i = StartDone (Inr i)"
    "wired p i \<Longrightarrow> sender (sh p) = Some i" "\<forall>(t, c, n) \<in> set (sent (sh p)). t = c" "own_channel i (threads p i)"
  using assms unfolding publisher_ok_def by blast+

lemma wired_holds: "wired p i \<Longrightarrow> holds p i"
  by (auto simp: wired_def holds_def starting_def)

text \<open>A step that changes neither who holds the publisher nor who is wired to its channel.\<close>

lemma publisher_ok_same:
  assumes "publisher_ok p" "holds q = holds p" "wired q = wired p \<or> (\<exists>i. holds p i \<and> sender (sh q) = Some i)"
    and "running (st (sh q)) = running (st (sh p))" "\<And>i. wired p i \<Longrightarrow> sender (sh q) = sender (sh p)"
    and "\<And>i. threads q i \<noteq> CaptureNone \<Longrightarrow> calls q i = StartDone (Inr i)"
    and "\<forall>(t, c, n) \<in> set (sent (sh q)). t = c" "\<And>i. own_channel i (threads q i)"
  shows "publisher_ok q"
proof (rule publisher_okI)
  fix i
  assume w: "wired q i"
  show "sender (sh q) = Some i"
  proof (cases "wired q = wired p")
    case True
    with w have "wired p i" by simp
    with assms(1,5) show ?thesis using publisher_okD(4) by metis
  next
    case False
    with assms(3) obtain j where "holds p j" "sender (sh q) = Some j" by blast
    moreover have "holds p i" using wired_holds [OF w] assms(2) by simp
    ultimately show ?thesis using publisher_okD(1) [OF assms(1)] by metis
  qed
qed (use assms publisher_okD(1,2) [OF assms(1)] in \<open>simp_all\<close>)

lemma publisher_ok_capture:
  assumes ok: "publisher_ok p" and m: "capture_step i x (threads p i) (sh p) = (pc, s)"
  shows "publisher_ok (p\<lparr>sh := s, threads := (threads p)(i := pc)\<rparr>)"
proof (cases "alive (threads p i)")
  case False
  then have "pc = threads p i" "s = sh p" using capture_step_shared [OF m publisher_okD(6) [OF ok]] by auto
  then have "p\<lparr>sh := s, threads := (threads p)(i := pc)\<rparr> = p" by simp
  with ok show ?thesis by simp
next
  case True
  let ?p = "p\<lparr>sh := s, threads := (threads p)(i := pc)\<rparr>"
  have here: "holds p i" using True by (simp add: holds_def)
  then have one: "j = i" if "holds p j" for j using that publisher_okD(1) [OF ok] by blast
  have some: "threads p i \<noteq> CaptureNone" using True by (auto simp: alive_def)
  note shared = capture_step_shared [OF m publisher_okD(6) [OF ok]] and call = publisher_okD(3) [OF ok some]
  have other: "j = i" if "holds ?p j" for j
    using one [of j] that by (cases "j = i") (simp_all add: holds_def wrecked_def)
  have hold: "holds ?p i \<longleftrightarrow> threads p i \<noteq> CaptureExit3"
    using capture_step_pc [OF m] True by (auto simp: holds_def wrecked_def starting_def alive_def call)
  have run: "running (st s) = (running (st (sh p)) \<and> threads p i \<noteq> CaptureExit3)"
    and slot: "sender s = (if threads p i = CaptureExit2 then None else sender (sh p))"
    and own: "sends i (sh p) s" using shared some by auto
  show ?thesis
  proof (rule publisher_okI)
    show "running (st (sh ?p)) \<longleftrightarrow> (\<exists>j. holds ?p j)"
      using run hold other publisher_okD(2) [OF ok] here by auto
    show "sender (sh ?p) = Some j" if w: "wired ?p j" for j
    proof -
      have j: "j = i" using other [OF wired_holds [OF w]] .
      have "wired p i \<and> threads p i \<noteq> CaptureExit2"
        using w capture_step_pc [OF m] unfolding j by (simp add: wired_def call)
      then show ?thesis using publisher_okD(4) [OF ok, of i] slot j by simp
    qed
    show "\<forall>(t, c, n) \<in> set (sent (sh ?p)). t = c"
      using sends_own [OF own publisher_okD(5) [OF ok]] by simp
    show "own_channel j (threads ?p j)" for j
    proof (cases "j = i")
      case True
      have "own_channel i pc"
        by (rule capture_step_channel [OF m publisher_okD(6) [OF ok]])
          (use publisher_okD(4) [OF ok, of i] in \<open>simp add: wired_def\<close>)
      with True show ?thesis by simp
    qed (simp add: publisher_okD(6) [OF ok])
    show "calls ?p j = StartDone (Inr j)" if "threads ?p j \<noteq> CaptureNone" for j
      using that call publisher_okD(3) [OF ok, of j] by (cases "j = i") simp_all
  qed (use other in blast)
qed

lemma publisher_ok_lock:
  assumes ok: "publisher_ok p" and lock: "calls p i = StartLock a"
  shows "publisher_ok (start_step i spawns p)"
proof -
  have none: "threads p i = CaptureNone" using publisher_okD(3) [OF ok, of i] lock by auto
  show ?thesis
  proof (cases "running (st (sh p))")
    case True
    let ?p = "p\<lparr>calls := (calls p)(i := StartDone (Inl ALREADY_RUNNING))\<rparr>"
    have "holds ?p = holds p" "wired ?p = wired p"
      using lock none
      by (auto simp: fun_eq_iff holds_def wired_def wrecked_def starting_def alive_def ALREADY_RUNNING_def SPAWN_FAILED_def)
    then have "publisher_ok ?p"
      by (intro publisher_ok_same [OF ok]) (use publisher_okD(3,5,6) [OF ok] none in auto)
    then show ?thesis using lock True by (simp add: start_step_def)
  next
    case False
    then have free: "\<not> holds p j" for j using publisher_okD(2) [OF ok] by blast
    let ?p = "p\<lparr>sh := (sh p)\<lparr>st := start_state a (st (sh p))\<rparr>, calls := (calls p)(i := StartShutdown)\<rparr>"
    have h: "holds ?p j \<longleftrightarrow> j = i" for j
      using free [of j] none by (auto simp: holds_def wrecked_def starting_def alive_def)
    have "\<not> wired ?p i" using none by (simp add: wired_def alive_def)
    then have w: "\<not> wired ?p j" for j using wired_holds [of ?p j] h [of j] by (cases "j = i") auto
    have "publisher_ok ?p"
      by (rule publisher_okI) (use h w none publisher_okD(3,5,6) [OF ok] in \<open>auto simp: start_state_def\<close>)
    then show ?thesis using lock False by (simp add: start_step_def)
  qed
qed

lemma publisher_ok_start:
  assumes ok: "publisher_ok p"
  shows "publisher_ok (start_step i spawns p)"
proof (cases "calls p i")
  case (StartLock a)
  with ok show ?thesis by (rule publisher_ok_lock)
next
  case StartShutdown
  let ?p = "p\<lparr>sh := (sh p)\<lparr>shutdown := False\<rparr>, calls := (calls p)(i := StartSender)\<rparr>"
  have "holds ?p = holds p" "wired ?p = wired p"
    using StartShutdown by (auto simp: fun_eq_iff holds_def wired_def wrecked_def starting_def)
  then have "publisher_ok ?p"
    by (intro publisher_ok_same [OF ok]) (use publisher_okD(3,5,6) [OF ok] StartShutdown in \<open>force+\<close>)
  then show ?thesis using StartShutdown by (simp add: start_step_def)
next
  case StartSender
  let ?p = "p\<lparr>sh := (sh p)\<lparr>sender := Some i\<rparr>, calls := (calls p)(i := StartSpawn)\<rparr>"
  have here: "holds p i" using StartSender by (simp add: holds_def starting_def)
  have none: "threads p i = CaptureNone" using publisher_okD(3) [OF ok, of i] StartSender by auto
  have "\<not> wired p j" for j
    using wired_holds [of p j] publisher_okD(1) [OF ok here, of j] StartSender none
    by (auto simp: wired_def alive_def)
  moreover have "holds ?p = holds p"
    using StartSender by (auto simp: fun_eq_iff holds_def wrecked_def starting_def)
  ultimately have "publisher_ok ?p"
    by (intro publisher_ok_same [OF ok]) (use here none publisher_okD(3,5,6) [OF ok] in auto)
  then show ?thesis using StartSender by (simp add: start_step_def)
next
  case StartSpawn
  have here: "holds p i" and slot: "sender (sh p) = Some i"
    using StartSpawn publisher_okD(4) [OF ok, of i] by (simp_all add: holds_def starting_def wired_def)
  have none: "threads p i = CaptureNone" using publisher_okD(3) [OF ok, of i] StartSpawn by auto
  have "holds (start_step i spawns p) = holds p"
    using StartSpawn
    by (auto simp: fun_eq_iff start_step_def holds_def wrecked_def starting_def alive_def SPAWN_FAILED_def)
  moreover have "own_channel j (threads (start_step i spawns p) j)" for j
    using publisher_okD(6) [OF ok, of j] StartSpawn by (simp add: start_step_def)
  ultimately show ?thesis
    by (intro publisher_ok_same [OF ok])
      (use here slot none StartSpawn publisher_okD(3,5) [OF ok] in \<open>auto simp: start_step_def split: if_splits\<close>)
next
  case (StartDone r)
  with ok show ?thesis by (simp add: start_step_def)
qed

lemma setters_flags:
  "running (snd (select_display d s)) = running s" "running (snd (set_bitrate_kbps k s)) = running s"
  "running (snd (set_fps f s)) = running s" "running (snd (set_resolution w h s)) = running s"
  by (simp_all add: select_display_def set_bitrate_kbps_def set_fps_def set_resolution_def)

lemma publisher_ok_setter:
  assumes "publisher_ok p" "running (st s) = running (st (sh p))" "sender s = sender (sh p)" "sent s = sent (sh p)"
  shows "publisher_ok (p\<lparr>sh := s\<rparr>)"
proof -
  have "holds (p\<lparr>sh := s\<rparr>) = holds p" "wired (p\<lparr>sh := s\<rparr>) = wired p"
    by (simp_all add: fun_eq_iff holds_def wired_def wrecked_def)
  then show ?thesis
    by (intro publisher_ok_same [OF assms(1)]) (use assms publisher_okD(3,5,6) [OF assms(1)] in auto)
qed

lemma publisher_ok_step: "publisher_ok p \<Longrightarrow> publisher_ok (publisher_step e p)"
proof (cases e)
  case (CaptureNext i x)
  assume ok: "publisher_ok p"
  obtain pc s where m: "capture_step i x (threads p i) (sh p) = (pc, s)" by fastforce
  then show ?thesis using publisher_ok_capture [OF ok m] by (simp add: CaptureNext)
qed (simp_all add: publisher_ok_start publisher_ok_setter setters_flags stop_def)

interpretation pub: event_system publisher_step publisher_ok
  by unfold_locales (rule publisher_ok_step)

lemma publisher_ok_run: "publisher_ok p \<Longrightarrow> publisher_ok (publisher_run es p)"
  unfolding publisher_run_def by (rule pub.run_ok)

lemma publisher_ok_init: "publisher_ok (publisher_init args)"
  by (rule publisher_okI)
    (auto simp: publisher_init_def pub_state_default_def holds_def starting_def alive_def wrecked_def wired_def)

text \<open>
  C27. One publisher at a time, under every schedule of starts, stops, setters and capture threads:
  at most one call of \<open>start\<close> holds the publisher (it is under way, its thread lives, or it was
  wrecked by a failed spawn or a panic), \<open>running\<close> says exactly whether one does, a call that
  meets it set is refused, and every NAL a thread has sent went to the channel of the call
  that spawned it.
\<close>

theorem one_publisher:
  assumes "p = publisher_run es (publisher_init args)"
  shows "(\<forall>i j. holds p i \<and> holds p j \<longrightarrow> i = j)
    \<and> (running (st (sh p)) \<longleftrightarrow> (\<exists>i. holds p i))
    \<and> (\<forall>i j a. holds p i \<and> calls p j = StartLock a \<longrightarrow>
         start_step j True p = p\<lparr>calls := (calls p)(j := StartDone (Inl ALREADY_RUNNING))\<rparr>)
    \<and> (\<forall>(thread, channel, nal) \<in> set (sent (sh p)). thread = channel)"
proof -
  have ok: "publisher_ok p" unfolding assms by (intro publisher_ok_run publisher_ok_init)
  have "running (st (sh p))" if "holds p i" for i using publisher_okD(2) [OF ok] that by blast
  then have "start_step j True p = p\<lparr>calls := (calls p)(j := StartDone (Inl ALREADY_RUNNING))\<rparr>"
    if "holds p i" "calls p j = StartLock a" for i j a
    using that by (simp add: start_step_def)
  then show ?thesis using publisher_okD(1,2,5) [OF ok] by auto
qed

section \<open>Settings reach the encoder\<close>

fun is_setter :: "pub_event \<Rightarrow> bool" where
  "is_setter (SelectDisplay d) = True"
| "is_setter (SetBitrate k) = True"
| "is_setter (SetFps f) = True"
| "is_setter (SetResolution w h) = True"
| "is_setter _ = False"

text \<open>No setter runs between a thread's two locks, the one that reads the settings and the one that clears the flag.\<close>

definition clearing :: "publisher \<Rightarrow> bool" where
  "clearing p \<longleftrightarrow> (\<exists>i sn. threads p i = CaptureClear sn)"

fun calm :: "pub_event list \<Rightarrow> publisher \<Rightarrow> bool" where
  "calm [] p \<longleftrightarrow> True"
| "calm (e # es) p \<longleftrightarrow> \<not> (is_setter e \<and> clearing p) \<and> calm es (publisher_step e p)"

text \<open>The encoder is one that \<open>configure\<close> set up with these settings, some frames later.\<close>

definition configured_with :: "capture_snapshot \<Rightarrow> u32 \<times> u32 \<Rightarrow> h264_encoder \<Rightarrow> bool" where
  "configured_with sn wh enc \<longleftrightarrow>
     (\<exists>m now enc0 enc1. configure m now (fst wh) (snd wh) (fps sn) (u32_saturating_mul (bitrate_kbps sn) 1000) enc0
         = (Inr (), enc1) \<and> enc = enc1\<lparr>next_pts_100ns := next_pts_100ns enc\<rparr>)"

definition handler_ok :: "screenshare_handler \<Rightarrow> bool" where
  "handler_ok h \<longleftrightarrow> (\<forall>wh. configured_dims h = Some wh \<longrightarrow> configured_with (h_snapshot h) wh (h_encoder h))"

lemma submit_frame_pts:
  "submit_frame m fresh bgra enc = (r, enc') \<Longrightarrow> enc' = enc\<lparr>next_pts_100ns := next_pts_100ns enc'\<rparr>"
  by (auto simp: submit_frame_def Let_def split: if_splits option.splits)

lemma configured_with_submit:
  assumes "configured_with sn wh enc" "submit_frame m fresh bgra enc = (r, enc')"
  shows "configured_with sn wh enc'"
proof -
  obtain m now enc0 enc1 where
    c: "configure m now (fst wh) (snd wh) (fps sn) (u32_saturating_mul (bitrate_kbps sn) 1000) enc0 = (Inr (), enc1)"
    and "enc = enc1\<lparr>next_pts_100ns := next_pts_100ns enc\<rparr>"
    using assms(1) unfolding configured_with_def by blast
  then have "enc' = enc1\<lparr>next_pts_100ns := next_pts_100ns enc'\<rparr>"
    using submit_frame_pts [OF assms(2)] by (metis (no_types) h264_encoder.surjective h264_encoder.update_convs(7))
  with c show ?thesis unfolding configured_with_def by blast
qed

lemma encode_frame_configured:
  assumes "encode_frame f h = (e, h')" "configured_with sn wh (h_encoder h)"
  shows "configured_with sn wh (h_encoder h')"
proof -
  obtain r enc where sub: "f_buffer f \<noteq> None \<Longrightarrow>
      submit_frame (f_submit f) (f_fresh f) (the (f_buffer f)) (h_encoder h) = (r, enc)" by fastforce
  have "h_encoder h' = h_encoder h \<or> f_buffer f \<noteq> None \<and> h_encoder h' = enc"
    using assms(1) sub
    by (cases "f_buffer f"; cases r)
      (auto simp: encode_frame_def Let_def split: option.splits sum.splits prod.splits)
  then show ?thesis using assms(2) configured_with_submit sub by metis
qed

lemma handle_frame_ok:
  assumes "handle_frame f h = (w, h')" "handler_ok h" "w \<noteq> WorkErr"
  shows "handler_ok h'"
proof (cases rule: handle_frame_cases [of f h])
  case (first enc)
  have "configured_with (h_snapshot h) (f_width f, f_height f) enc"
    unfolding configured_with_def
    by (rule exI [of _ "f_configure f"], rule exI [of _ "f_now f"], rule exI [of _ "h_encoder h"], rule exI [of _ enc])
      (simp add: first(3))
  moreover have e: "encode_frame f (h\<lparr>h_encoder := enc, configured_dims := Some (f_width f, f_height f)\<rparr>) = (w, h')"
    using first(1) assms(1) by simp
  ultimately have "configured_with (h_snapshot h) (f_width f, f_height f) (h_encoder h')"
    using encode_frame_configured [OF e] by simp
  then show ?thesis using encode_frame_kept [OF e] by (simp add: handler_ok_def)
next
  case next_frame
  then have e: "encode_frame f h = (w, h')" using assms(1) by simp
  then show ?thesis
    using encode_frame_configured [OF e] encode_frame_kept [OF e] assms(2) by (simp add: handler_ok_def)
qed (use assms in auto)

text \<open>The session a thread is in, between frames or in the middle of one.\<close>

fun session_of :: "capture_pc \<Rightarrow> (monitor \<times> screenshare_handler) option" where
  "session_of (CaptureSession m h) = Some (m, h)"
| "session_of (CaptureChecked m h f) = Some (m, h)"
| "session_of (CaptureSlot m h nals) = Some (m, h)"
| "session_of (CaptureSend m h c nals) = Some (m, h)"
| "session_of _ = None"

lemma after_work_session: "session_of (after_work m h w) = Some (m', h') \<Longrightarrow> m' = m \<and> h' = h \<and> w \<noteq> WorkErr"
  by (cases w) (simp_all add: after_work_def)

definition settled_pc :: "pub_state \<Rightarrow> capture_pc \<Rightarrow> bool" where
  "settled_pc s pc \<longleftrightarrow>
     (\<forall>sn. pc = CaptureClear sn \<longrightarrow> sn = capture_snapshot_of s)
     \<and> (\<forall>sn. pc = CaptureMonitor sn \<longrightarrow> needs_rebuild s \<or> sn = capture_snapshot_of s)
     \<and> (\<forall>m h. session_of pc = Some (m, h) \<longrightarrow> handler_ok h \<and> (needs_rebuild s \<or> h_snapshot h = capture_snapshot_of s))"

definition settled :: "publisher \<Rightarrow> bool" where
  "settled p \<longleftrightarrow> (\<forall>i. settled_pc (st (sh p)) (threads p i))"

lemma settled_idle: "\<not> alive pc \<Longrightarrow> settled_pc s pc"
  by (auto simp: settled_pc_def alive_def)

lemma settled_pc_init: "settled_pc s CaptureInit"
  by (simp add: settled_pc_def)

lemma settled_pc_flagged:
  "needs_rebuild s' \<Longrightarrow> (\<And>sn. pc \<noteq> CaptureClear sn) \<Longrightarrow> settled_pc s pc \<Longrightarrow> settled_pc s' pc"
  by (auto simp: settled_pc_def)

lemma settled_capture:
  assumes "capture_step t x pc s = (pc', s')" "settled_pc (st s) pc"
  shows "settled_pc (st s') pc'"
proof (cases pc)
  case (CaptureChecked m h f)
  obtain w h' where w: "handle_frame f h = (w, h')" by fastforce
  have "settled_pc (st s) (after_work m h' w)"
    using handle_frame_ok [OF w] handle_frame_kept [OF w] assms(2) after_work_session [of m h' w] CaptureChecked
    by (cases w) (auto simp: settled_pc_def after_work_def)
  then show ?thesis using assms CaptureChecked w by (auto simp: settled_pc_def split: if_splits)
next
  case (CaptureSend m h c nals)
  with assms show ?thesis by (cases nals) (auto simp: settled_pc_def split: if_splits)
qed (use assms in \<open>auto simp: settled_pc_def handler_ok_def handler_new_def capture_snapshot_of_def
    split: if_splits option.splits\<close>)

lemma setter_flags:
  "snd (select_display d s) = s \<or> needs_rebuild (snd (select_display d s))"
  "snd (set_bitrate_kbps k s) = s \<or> needs_rebuild (snd (set_bitrate_kbps k s))"
  "snd (set_fps f s) = s \<or> needs_rebuild (snd (set_fps f s))"
  "snd (set_resolution w h s) = s \<or> needs_rebuild (snd (set_resolution w h s))"
  by (auto simp: select_display_def set_bitrate_kbps_def set_fps_def set_resolution_def)

lemma settled_setter:
  assumes "settled p" "\<not> clearing p" "s' = st (sh p) \<or> needs_rebuild s'"
  shows "settled (p\<lparr>sh := (sh p)\<lparr>st := s'\<rparr>\<rparr>)"
  using assms settled_pc_flagged unfolding settled_def clearing_def by (auto simp del: all_simps) metis

lemma settled_step:
  assumes "settled p" "publisher_ok p" "\<not> (is_setter e \<and> clearing p)"
  shows "settled (publisher_step e p)"
proof (cases e)
  case (StartNext i spawns)
  show ?thesis
  proof (cases "calls p i")
    case (StartLock a)
    show ?thesis
    proof (cases "running (st (sh p))")
      case True
      with StartLock assms(1) show ?thesis by (simp add: StartNext start_step_def settled_def)
    next
      case False
      then have "\<not> alive (threads p j)" for j
        using publisher_okD(2) [OF assms(2)] by (auto simp: holds_def)
      with StartLock False show ?thesis by (simp add: StartNext start_step_def settled_def settled_idle)
    qed
  qed (use assms(1) in \<open>auto simp: StartNext start_step_def settled_def settled_pc_init\<close>)
next
  case (CaptureNext i x)
  obtain pc s where m: "capture_step i x (threads p i) (sh p) = (pc, s)" by fastforce
  have "settled_pc (st s) (threads p j)" if "j \<noteq> i" for j
  proof (cases "alive (threads p i)")
    case True
    then have "\<not> alive (threads p j)" using publisher_okD(1) [OF assms(2), of i j] that by (auto simp: holds_def)
    then show ?thesis by (rule settled_idle)
  next
    case False
    then have "s = sh p" using capture_step_shared [OF m publisher_okD(6) [OF assms(2)]] by auto
    then show ?thesis using assms(1) by (simp add: settled_def)
  qed
  moreover have "settled_pc (st s) pc" using settled_capture [OF m] assms(1) by (simp add: settled_def)
  ultimately show ?thesis by (simp add: CaptureNext m settled_def)
next
  case Stop
  with assms(1) show ?thesis by (simp add: settled_def stop_def)
qed (use assms in \<open>auto intro!: settled_setter setter_flags\<close>)

lemma settled_run: "settled p \<Longrightarrow> publisher_ok p \<Longrightarrow> calm es p \<Longrightarrow> settled (publisher_run es p)"
  unfolding publisher_run_def
  by (induction es arbitrary: p) (simp_all add: settled_step publisher_ok_step)

text \<open>The monitor of a session was resolved from its display id by a step of its thread.\<close>

lemma publisher_run_snoc: "publisher_run (es @ [e]) p = publisher_step e (publisher_run es p)"
  by (simp add: publisher_run_def)

lemma publisher_run_append: "publisher_run (es @ es') p = publisher_run es' (publisher_run es p)"
  by (simp add: publisher_run_def)

definition resolved :: "pub_event list \<Rightarrow> publisher \<Rightarrow> nat \<Rightarrow> monitor \<Rightarrow> capture_snapshot \<Rightarrow> bool" where
  "resolved es p0 i m sn \<longleftrightarrow>
     (\<exists>es1 x es2. es = es1 @ CaptureNext i x # es2 \<and> threads (publisher_run es1 p0) i = CaptureMonitor sn
       \<and> resolve_monitor (monitors_now x) (display_id sn) = Some m)"

lemma resolved_snoc: "resolved es p0 i m sn \<Longrightarrow> resolved (es @ [e]) p0 i m sn"
  unfolding resolved_def by (metis append.assoc append_Cons)

lemma capture_step_session:
  assumes "capture_step t x pc s = (pc', s')" "session_of pc' = Some (m, h)"
  shows "(\<exists>h0. session_of pc = Some (m, h0) \<and> h_snapshot h = h_snapshot h0)
    \<or> pc = CaptureMonitor (h_snapshot h) \<and> resolve_monitor (monitors_now x) (display_id (h_snapshot h)) = Some m"
proof (cases pc)
  case (CaptureChecked m0 h0 f)
  obtain w h' where w: "handle_frame f h0 = (w, h')" by fastforce
  show ?thesis
    using assms CaptureChecked w handle_frame_kept [OF w] after_work_session [of m0 h' w m h]
    by (auto split: if_splits)
next
  case (CaptureSend m0 h0 c nals)
  with assms show ?thesis by (cases nals) (auto split: if_splits)
qed (use assms in \<open>auto simp: handler_new_def split: if_splits option.splits\<close>)

lemma start_step_session:
  "session_of (threads (start_step j spawns p) i) = Some y \<Longrightarrow> session_of (threads p i) = Some y"
  by (cases "calls p j"; cases "i = j") (simp_all add: start_step_def split: if_splits)

lemma session_resolved:
  assumes "session_of (threads (publisher_run es (publisher_init args)) i) = Some (m, h)"
  shows "resolved es (publisher_init args) i m (h_snapshot h)"
  using assms
proof (induction es arbitrary: h rule: rev_induct)
  case Nil
  then show ?case by (simp add: publisher_run_def publisher_init_def)
next
  case (snoc e es)
  let ?p = "publisher_run es (publisher_init args)"
  have keep: ?case if "session_of (threads ?p i) = Some (m, h0)" "h_snapshot h0 = h_snapshot h" for h0
    using resolved_snoc [OF snoc.IH [OF that(1)]] that(2) by simp
  have s: "session_of (threads (publisher_step e ?p) i) = Some (m, h)" using snoc.prems by (simp add: publisher_run_snoc)
  have other: ?case if "threads (publisher_step e ?p) i = threads ?p i"
  proof -
    have "session_of (threads ?p i) = Some (m, h)" using s that by simp
    from keep [OF this refl] show ?thesis .
  qed
  show ?case
  proof (cases e)
    case (CaptureNext j x)
    obtain pc s' where c: "capture_step j x (threads ?p j) (sh ?p) = (pc, s')" by fastforce
    show ?thesis
    proof (cases "j = i")
      case True
      with s c have "session_of pc = Some (m, h)" by (simp add: CaptureNext)
      from capture_step_session [OF c this] show ?thesis
        unfolding True
      proof
        assume "\<exists>h0. session_of (threads ?p i) = Some (m, h0) \<and> h_snapshot h = h_snapshot h0"
        then obtain h0 where "session_of (threads ?p i) = Some (m, h0)" "h_snapshot h = h_snapshot h0" by blast
        then show ?thesis using keep by simp
      next
        assume "threads ?p i = CaptureMonitor (h_snapshot h)
          \<and> resolve_monitor (monitors_now x) (display_id (h_snapshot h)) = Some m"
        then show ?thesis unfolding resolved_def CaptureNext True by blast
      qed
    next
      case False
      then show ?thesis using other c by (simp add: CaptureNext)
    qed
  next
    case (StartNext j spawns)
    have "session_of (threads ?p i) = Some (m, h)"
      by (rule start_step_session [of j spawns]) (use s StartNext in simp)
    from keep [OF this refl] show ?thesis .
  qed (rule other, simp)+
qed


section \<open>Stopping\<close>

text \<open>The NALs a thread may still send of the frame whose handling has passed the shutdown flag.\<close>

fun in_flight :: "capture_pc \<Rightarrow> nal list" where
  "in_flight (CaptureChecked m h f) = (case fst (handle_frame f h) of WorkNals nals \<Rightarrow> nals | _ \<Rightarrow> [])"
| "in_flight (CaptureSlot m h nals) = nals"
| "in_flight (CaptureSend m h c nals) = nals"
| "in_flight _ = []"

fun steps_left :: "capture_pc \<Rightarrow> nat" where
  "steps_left CaptureInit = 5"
| "steps_left CaptureTop = 4"
| "steps_left CaptureRead = 8"
| "steps_left (CaptureClear sn) = 7"
| "steps_left (CaptureMonitor sn) = 6"
| "steps_left (CaptureSession m h) = 5"
| "steps_left (CaptureChecked m h f) = 8 + length (in_flight (CaptureChecked m h f))"
| "steps_left CaptureResized = 5"
| "steps_left (CaptureSlot m h nals) = 7 + length nals"
| "steps_left (CaptureSend m h c nals) = 6 + length nals"
| "steps_left CaptureAfter = 4"
| "steps_left CaptureExit1 = 3"
| "steps_left CaptureExit2 = 2"
| "steps_left CaptureExit3 = 1"
| "steps_left _ = 0"

lemma steps_left_bound: "steps_left pc \<le> 8 + length (in_flight pc)"
  by (cases pc) simp_all

definition leaving :: "capture_pc \<Rightarrow> bool" where
  "leaving pc \<longleftrightarrow> pc \<in> {CaptureExit1, CaptureExit2, CaptureExit3, CaptureDead}"

text \<open>
  A thread that panicked, hangs or overran a buffer, or will do so in the frame it is handling: it never
  looks at the flag again.
\<close>

definition doomed :: "capture_pc \<Rightarrow> bool" where
  "doomed pc \<longleftrightarrow> pc \<in> {CapturePanicked, CaptureHung, CaptureUndefined}
     \<or> (\<exists>m h f. pc = CaptureChecked m h f \<and> fst (handle_frame f h) \<in> {WorkPanic, WorkOverrun, WorkHang})"

text \<open>A thread that has been told to stop, or is past looking.\<close>

definition told :: "publisher \<Rightarrow> nat \<Rightarrow> bool" where
  "told p i \<longleftrightarrow> threads p i \<noteq> CaptureNone \<and> \<not> doomed (threads p i) \<and> (shutdown (sh p) \<or> leaving (threads p i))"

definition winds_down :: "nat \<Rightarrow> capture_pc \<Rightarrow> shared \<Rightarrow> capture_pc \<Rightarrow> shared \<Rightarrow> bool" where
  "winds_down t pc s pc' s' \<longleftrightarrow>
     pc' \<noteq> CaptureNone \<and> \<not> doomed pc' \<and> (shutdown s' \<or> leaving pc') \<and> steps_left pc' \<le> steps_left pc - 1
     \<and> (\<exists>ns. sent s' = sent s @ map (\<lambda>n. (t, t, n)) ns \<and> prefix (ns @ in_flight pc') (in_flight pc))"

lemma winds_down_silent:
  "sent s' = sent s \<Longrightarrow> pc' \<noteq> CaptureNone \<Longrightarrow> \<not> doomed pc' \<Longrightarrow> shutdown s' \<or> leaving pc' \<Longrightarrow>
    steps_left pc' \<le> steps_left pc - 1 \<Longrightarrow> prefix (in_flight pc') (in_flight pc) \<Longrightarrow> winds_down t pc s pc' s'"
  unfolding winds_down_def by (auto intro: exI [of _ "[]"])

lemma told_capture:
  assumes "capture_step t x pc s = (pc', s')" "pc \<noteq> CaptureNone" "\<not> doomed pc" "shutdown s \<or> leaving pc" "own_channel t pc"
  shows "winds_down t pc s pc' s'"
proof (cases pc)
  case (CaptureChecked m h f)
  obtain w h' where w: "handle_frame f h = (w, h')" by fastforce
  show ?thesis
    using assms CaptureChecked w
    by (intro winds_down_silent; cases w) (auto simp: leaving_def doomed_def after_work_def split: if_splits)
next
  case (CaptureSend m h c nals)
  show ?thesis
  proof (cases nals)
    case (Cons n ns)
    show ?thesis
    proof (cases "receiver_open x")
      case True
      then show ?thesis
        using assms CaptureSend Cons unfolding winds_down_def
        by (auto simp: leaving_def doomed_def intro!: exI [of _ "[n]"])
    qed (use assms CaptureSend Cons in \<open>auto simp: leaving_def doomed_def intro!: winds_down_silent\<close>)
  qed (use assms CaptureSend in \<open>auto simp: leaving_def doomed_def intro!: winds_down_silent\<close>)
qed (use assms in \<open>auto simp: leaving_def doomed_def intro!: winds_down_silent split: if_splits option.splits\<close>)

definition sent_by :: "nat \<Rightarrow> publisher \<Rightarrow> (nat \<times> nat \<times> nal) list" where
  "sent_by i p = filter (\<lambda>x. fst x = i) (sent (sh p))"

definition turns :: "nat \<Rightarrow> pub_event list \<Rightarrow> nat" where
  "turns i es = length (filter (\<lambda>e. \<exists>x. e = CaptureNext i x) es)"

text \<open>What a schedule makes of a thread that was told to stop.\<close>

definition wound_down :: "nat \<Rightarrow> publisher \<Rightarrow> nat \<Rightarrow> publisher \<Rightarrow> bool" where
  "wound_down i p k q \<longleftrightarrow>
     told q i \<and> steps_left (threads q i) \<le> steps_left (threads p i) - k
     \<and> (\<exists>ns. sent_by i q = sent_by i p @ map (\<lambda>n. (i, i, n)) ns
          \<and> prefix (ns @ in_flight (threads q i)) (in_flight (threads p i)))"

lemma wound_down_same:
  "told q i \<Longrightarrow> threads q i = threads p i \<Longrightarrow> sent_by i q = sent_by i p \<Longrightarrow> wound_down i p 0 q"
  by (auto simp: wound_down_def)

lemma wound_down_trans:
  assumes "wound_down i p j q" "wound_down i q k r"
  shows "wound_down i p (j + k) r"
proof -
  obtain ns where ns: "sent_by i q = sent_by i p @ map (\<lambda>n. (i, i, n)) ns"
    "prefix (ns @ in_flight (threads q i)) (in_flight (threads p i))" using assms(1) unfolding wound_down_def by blast
  obtain ns' where ns': "sent_by i r = sent_by i q @ map (\<lambda>n. (i, i, n)) ns'"
    "prefix (ns' @ in_flight (threads r i)) (in_flight (threads q i))" using assms(2) unfolding wound_down_def by blast
  have "prefix ((ns @ ns') @ in_flight (threads r i)) (in_flight (threads p i))"
    using prefix_order.trans [OF _ ns(2), of "ns @ ns' @ in_flight (threads r i)"] ns'(2) by simp
  then have "\<exists>ns. sent_by i r = sent_by i p @ map (\<lambda>n. (i, i, n)) ns
      \<and> prefix (ns @ in_flight (threads r i)) (in_flight (threads p i))"
    using ns(1) ns'(1) by (intro exI [of _ "ns @ ns'"]) simp
  then show ?thesis using assms unfolding wound_down_def by auto
qed

lemma told_step:
  assumes "publisher_ok p" "told p i"
  shows "wound_down i p (turns i [e]) (publisher_step e p)"
proof -
  have call: "calls p i = StartDone (Inr i)"
    using assms(2) publisher_okD(3) [OF assms(1)] by (auto simp: told_def)
  have here: "threads p i = CaptureDead \<or> holds p i"
    using assms(2) by (auto simp: told_def holds_def alive_def doomed_def)
  show ?thesis
  proof (cases e)
    case (StartNext j spawns)
    have "told (publisher_step e p) i \<and> threads (publisher_step e p) i = threads p i"
    proof (cases "calls p j = StartShutdown")
      case True
      then have "holds p j" by (simp add: holds_def starting_def)
      moreover have "j \<noteq> i" using True call by auto
      ultimately have "threads p i = CaptureDead" using here publisher_okD(1) [OF assms(1), of i j] by blast
      then show ?thesis using True by (simp add: StartNext start_step_def told_def leaving_def doomed_def)
    next
      case False
      then show ?thesis
        using assms(2) call by (cases "calls p j") (auto simp: StartNext start_step_def told_def)
    qed
    moreover have "sent_by i (publisher_step e p) = sent_by i p"
      by (auto simp: StartNext start_step_def sent_by_def split: start_pc.split)
    ultimately show ?thesis using wound_down_same by (simp add: StartNext turns_def)
  next
    case (CaptureNext j x)
    obtain pc s where m: "capture_step j x (threads p j) (sh p) = (pc, s)" by fastforce
    have p': "publisher_step e p = p\<lparr>sh := s, threads := (threads p)(j := pc)\<rparr>" by (simp add: CaptureNext m)
    show ?thesis
    proof (cases "j = i")
      case True
      from m have "capture_step i x (threads p i) (sh p) = (pc, s)" unfolding True .
      from told_capture [OF this _ _ _ publisher_okD(6) [OF assms(1)]] assms(2)
      have "winds_down i (threads p i) (sh p) pc s" by (simp add: told_def)
      then show ?thesis
        unfolding p' True winds_down_def wound_down_def
        by (auto simp: told_def sent_by_def turns_def CaptureNext True)
    next
      case False
      have "sends j (sh p) s" using capture_step_shared [OF m publisher_okD(6) [OF assms(1)]] by auto
      then have "sent_by i (publisher_step e p) = sent_by i p"
        using False by (auto simp: p' sent_by_def sends_def filter_map o_def)
      moreover have "threads p i = CaptureDead \<or> s = sh p"
      proof (cases "alive (threads p j)")
        case True
        then have "\<not> holds p i" using publisher_okD(1) [OF assms(1), of i j] False by (auto simp: holds_def)
        with here show ?thesis by blast
      next
        case False
        then show ?thesis using capture_step_shared [OF m publisher_okD(6) [OF assms(1)]] by auto
      qed
      then have "told (publisher_step e p) i"
        using assms(2) False unfolding p' by (auto simp: told_def leaving_def doomed_def)
      ultimately show ?thesis
        using wound_down_same [of "publisher_step e p" i p] False
        by (simp add: p' turns_def) (simp add: CaptureNext)
    qed
  qed (use assms(2) in \<open>auto simp: told_def sent_by_def turns_def stop_def intro!: wound_down_same\<close>)
qed

lemma told_run: "publisher_ok p \<Longrightarrow> told p i \<Longrightarrow> wound_down i p (turns i es) (publisher_run es p)"
proof (induction es arbitrary: p)
  case Nil
  then show ?case by (simp add: publisher_run_def turns_def wound_down_same)
next
  case (Cons e es)
  note step = told_step [OF Cons.prems, of e]
  have "told (publisher_step e p) i" using step by (simp add: wound_down_def)
  note wound_down_trans [OF step Cons.IH [OF publisher_ok_step [OF Cons.prems(1)] this]]
  moreover have "turns i (e # es) = turns i [e] + turns i es" by (simp add: turns_def)
  ultimately show ?case by (simp add: publisher_run_def)
qed

lemma told_dead: "told p i \<Longrightarrow> steps_left (threads p i) = 0 \<Longrightarrow> threads p i = CaptureDead"
  by (cases "threads p i") (auto simp: told_def doomed_def)

text \<open>
  C29. \<open>stop\<close> stops. Take any reachable state in which a capture thread exists that has not panicked,
  hung or overrun a buffer and will not do so in the frame it is handling. After \<open>stop\<close> that thread
  sends nothing but NALs of the one frame whose handling had already passed the shutdown flag
  (none, if it was between frames), in their order; and it is gone after at most eight of its
  own steps and one for each of those NALs, whatever callers, other threads, monitors, frames and
  the receiver do meanwhile: no \<open>start\<close> can clear the flag under it. A session between frames
  takes its next step when the next frame arrives or the session closes.
\<close>

theorem stop_stops:
  assumes "p = publisher_run before (publisher_init args)"
    and "threads p i \<noteq> CaptureNone" "\<not> doomed (threads p i)" "q = publisher_run (Stop # es) p"
  shows "(\<exists>nals. prefix nals (in_flight (threads p i)) \<and> sent_by i q = sent_by i p @ map (\<lambda>n. (i, i, n)) nals)
    \<and> (8 + length (in_flight (threads p i)) \<le> turns i es \<longrightarrow> threads q i = CaptureDead)"
proof -
  let ?p = "publisher_step Stop p"
  have ok: "publisher_ok ?p" unfolding assms(1) by (intro publisher_ok_step publisher_ok_run publisher_ok_init)
  have t: "told ?p i" using assms(2,3) by (simp add: told_def stop_def)
  have q: "q = publisher_run es ?p" by (simp add: assms(4) publisher_run_def)
  have w: "wound_down i ?p (turns i es) q" unfolding q by (rule told_run [OF ok t])
  then obtain ns where ns: "sent_by i q = sent_by i ?p @ map (\<lambda>n. (i, i, n)) ns"
    "prefix (ns @ in_flight (threads q i)) (in_flight (threads ?p i))" unfolding wound_down_def by blast
  have "sent_by i ?p = sent_by i p" by (simp add: sent_by_def stop_def)
  moreover have "prefix ns (in_flight (threads p i))" using ns(2) append_prefixD by fastforce
  moreover have "threads q i = CaptureDead" if "8 + length (in_flight (threads p i)) \<le> turns i es"
  proof (rule told_dead)
    show "steps_left (threads q i) = 0"
      using w steps_left_bound [of "threads p i"] that unfolding wound_down_def by simp
  qed (use w in \<open>simp add: wound_down_def\<close>)
  ultimately show ?thesis using ns(1) by auto
qed

text \<open>
  A frame whose handling is past the flag does go out: \<open>stop\<close> between the flag and the
  sending does not keep its NALs back.
\<close>

lemma stop_lets_frame_out:
  assumes "threads p i = CaptureSend m h c nals" "receiver_open x"
    and "q = publisher_run (Stop # replicate (length nals) (CaptureNext i x)) p"
  shows "sent (sh q) = sent (sh p) @ map (\<lambda>n. (i, c, n)) nals"
proof -
  have "sent (sh (publisher_run (replicate (length nals) (CaptureNext i x)) p))
      = sent (sh p) @ map (\<lambda>n. (i, c, n)) nals" if "threads p i = CaptureSend m h c nals" for p
    using that
  proof (induction nals arbitrary: p)
    case (Cons n ns)
    have "threads (publisher_step (CaptureNext i x) p) i = CaptureSend m h c ns"
      "sent (sh (publisher_step (CaptureNext i x) p)) = sent (sh p) @ [(i, c, n)]"
      using Cons.prems assms(2) by simp_all
    from Cons.IH [OF this(1)] this(2) show ?case by (simp add: publisher_run_def)
  qed (simp add: publisher_run_def)
  from this [of "publisher_step Stop p"] assms(1) show ?thesis
    unfolding assms(3) by (simp add: publisher_run_def stop_def)
qed

section \<open>The requested size\<close>

text \<open>Everything with the requested width and height blanked out.\<close>

definition no_size :: "'a capture_snapshot_scheme \<Rightarrow> 'a capture_snapshot_scheme" where
  "no_size s = s\<lparr>width := 0, height := 0\<rparr>"

definition no_size_handler :: "screenshare_handler \<Rightarrow> screenshare_handler" where
  "no_size_handler h = h\<lparr>h_snapshot := no_size (h_snapshot h)\<rparr>"

definition no_size_shared :: "shared \<Rightarrow> shared" where
  "no_size_shared s = s\<lparr>st := no_size (st s)\<rparr>"

fun no_size_pc :: "capture_pc \<Rightarrow> capture_pc" where
  "no_size_pc (CaptureClear sn) = CaptureClear (no_size sn)"
| "no_size_pc (CaptureMonitor sn) = CaptureMonitor (no_size sn)"
| "no_size_pc (CaptureSession m h) = CaptureSession m (no_size_handler h)"
| "no_size_pc (CaptureChecked m h f) = CaptureChecked m (no_size_handler h) f"
| "no_size_pc (CaptureSlot m h nals) = CaptureSlot m (no_size_handler h) nals"
| "no_size_pc (CaptureSend m h c nals) = CaptureSend m (no_size_handler h) c nals"
| "no_size_pc pc = pc"

fun no_size_call :: "start_pc \<Rightarrow> start_pc" where
  "no_size_call (StartLock a) = StartLock (no_size a)"
| "no_size_call c = c"

definition no_size_publisher :: "publisher \<Rightarrow> publisher" where
  "no_size_publisher p = \<lparr>sh = no_size_shared (sh p), calls = (\<lambda>i. no_size_call (calls p i)),
     threads = (\<lambda>i. no_size_pc (threads p i))\<rparr>"

fun no_size_event :: "pub_event \<Rightarrow> pub_event" where
  "no_size_event (SetResolution w h) = SetResolution 0 0"
| "no_size_event e = e"

lemmas no_size_defs = no_size_def no_size_handler_def no_size_shared_def

lemma encode_frame_no_size:
  "encode_frame f (no_size_handler h) = map_prod id no_size_handler (encode_frame f h)"
  by (auto simp: encode_frame_def no_size_defs Let_def split: option.split prod.split submit_result.split sum.split)

lemma handle_frame_no_size:
  "handle_frame f (no_size_handler h) = map_prod id no_size_handler (handle_frame f h)"
proof -
  have flags: "configured_dims (no_size_handler h) = configured_dims h" "h_encoder (no_size_handler h) = h_encoder h"
    "fps (h_snapshot (no_size_handler h)) = fps (h_snapshot h)"
    "bitrate_kbps (h_snapshot (no_size_handler h)) = bitrate_kbps (h_snapshot h)"
    by (simp_all add: no_size_defs)
  have upd: "(no_size_handler h)\<lparr>h_encoder := enc\<rparr> = no_size_handler (h\<lparr>h_encoder := enc\<rparr>)"
    "(no_size_handler h)\<lparr>configured_dims := d\<rparr> = no_size_handler (h\<lparr>configured_dims := d\<rparr>)"
    for h enc d by (simp_all add: no_size_defs)
  show ?thesis
    by (simp add: handle_frame_def flags upd encode_frame_no_size split: option.split prod.split sum.split)
qed

lemma after_work_no_size: "after_work m (no_size_handler h) w = no_size_pc (after_work m h w)"
  by (cases w) (simp_all add: after_work_def)

lemma capture_step_no_size:
  "capture_step t x (no_size_pc pc) (no_size_shared s) = map_prod no_size_pc no_size_shared (capture_step t x pc s)"
proof (cases pc)
  case (CaptureChecked m h f)
  obtain w h' where "handle_frame f h = (w, h')" by fastforce
  then show ?thesis
    by (simp add: CaptureChecked handle_frame_no_size after_work_no_size) (simp add: no_size_defs)
next
  case (CaptureSend m h c nals)
  then show ?thesis by (cases nals) (simp_all add: no_size_defs)
qed (auto simp: no_size_defs capture_snapshot_of_def handler_new_def split: option.split)

lemma publisher_step_no_size:
  "publisher_step (no_size_event e) (no_size_publisher p) = no_size_publisher (publisher_step e p)"
proof (cases e)
  case (StartNext i spawns)
  then show ?thesis
    by (cases "calls p i")
      (auto simp: start_step_def no_size_publisher_def no_size_defs start_state_def fun_eq_iff)
next
  case (CaptureNext i x)
  obtain pc s where m: "capture_step i x (threads p i) (sh p) = (pc, s)" by fastforce
  then show ?thesis
    using capture_step_no_size [of i x "threads p i" "sh p"]
    by (auto simp: CaptureNext no_size_publisher_def fun_eq_iff)
qed (auto simp: no_size_publisher_def no_size_defs stop_def select_display_def set_bitrate_kbps_def set_fps_def
    set_resolution_def)

interpretation blank: event_refinement publisher_step "\<lambda>_. True" "\<lambda>e. publisher_step (no_size_event e)" no_size_publisher
  by unfold_locales (simp_all add: publisher_step_no_size)

lemma publisher_run_no_size:
  "publisher_run (map no_size_event es) (no_size_publisher p) = no_size_publisher (publisher_run es p)"
  unfolding publisher_run_def by (simp add: blank.run_abs fold_map o_def)

text \<open>
  The requested resolution has no effect on the stream: replace every width and height given
  to \<open>start\<close> and to \<open>set_resolution\<close> by 0, and under the same schedule the same threads send the
  same NALs on the same channels. Frames are encoded at the size they arrive in.
\<close>

theorem resolution_has_no_effect:
  "sent (sh (publisher_run (map no_size_event es) (publisher_init (\<lambda>i. no_size (args i)))))
    = sent (sh (publisher_run es (publisher_init args)))"
proof -
  have "publisher_init (\<lambda>i. no_size (args i)) = no_size_publisher (publisher_init args)"
    by (simp add: publisher_init_def no_size_publisher_def no_size_defs pub_state_default_def)
  then show ?thesis
    by (simp add: publisher_run_no_size) (simp add: no_size_publisher_def no_size_shared_def)
qed

section \<open>What goes wrong\<close>

text \<open>
  A setter between the two locks is lost: it is accepted and the state reports the new bitrate, but
  no rebuild is due and the session runs on with the old one.
\<close>

definition started :: "pub_event list" where
  "started = [StartNext 0 True, StartNext 0 True, StartNext 0 True, StartNext 0 True]"

lemma started_state:
  "publisher_run started (publisher_init (\<lambda>_. a)) =
     \<lparr>sh = \<lparr>st = start_state a pub_state_default, shutdown = False, sender = Some 0, sent = [], mf_refs = 0\<rparr>,
      calls = (\<lambda>_. StartLock a)(0 := StartDone (Inr 0)), threads = (\<lambda>_. CaptureNone)(0 := CaptureInit)\<rparr>"
  by (simp add: publisher_run_def started_def publisher_init_def start_step_def pub_state_default_def)

lemma retune_lost:
  fixes x :: capture_input and a :: capture_snapshot
  assumes "mf_starts x" "resolve_monitor (monitors_now x) (display_id a) = Some m"
    and "es = [CaptureNext 0 x, CaptureNext 0 x, CaptureNext 0 x, SetBitrate k, CaptureNext 0 x, CaptureNext 0 x]"
    and "p = publisher_run (started @ es) (publisher_init (\<lambda>_. a))"
  shows "threads p 0 = CaptureSession m (handler_new a) \<and> running (st (sh p)) \<and> \<not> needs_rebuild (st (sh p))
    \<and> bitrate_kbps (st (sh p)) = k"
proof -
  let ?go = "CaptureNext 0 x"
  let ?p2 = "publisher_run [?go, ?go, ?go] (publisher_run started (publisher_init (\<lambda>_. a)))"
  have p: "p = publisher_run [SetBitrate k, ?go, ?go] ?p2" unfolding assms(3,4) by (simp add: publisher_run_def)
  have p2: "threads ?p2 0 = CaptureClear a" "st (sh ?p2) = start_state a pub_state_default"
    using assms(1) started_state [of a]
    by (simp_all add: publisher_run_def capture_snapshot_of_def start_state_def pub_state_default_def)
  then show ?thesis
    using assms(2) unfolding p publisher_run_def [of "[SetBitrate k, ?go, ?go]"]
    by (simp add: set_bitrate_kbps_def start_state_def)
qed

text \<open>A failed spawn leaves \<open>running\<close> set for ever: every later \<open>start\<close> is refused.\<close>

lemma spawn_failed_stays:
  "calls p i = StartDone r \<Longrightarrow> calls (publisher_run es p) i = StartDone r"
proof -
  have step: "calls p i = StartDone r \<Longrightarrow> calls (publisher_step e p) i = StartDone r" for e p
    by (cases e) (auto simp: start_step_def split: start_pc.split prod.split)
  show "calls p i = StartDone r \<Longrightarrow> calls (publisher_run es p) i = StartDone r"
    unfolding publisher_run_def by (induction es arbitrary: p) (simp_all add: step)
qed

lemma spawn_failure_wedges:
  assumes "p = publisher_run es (publisher_init args)" "calls p i = StartDone (Inl SPAWN_FAILED)"
  shows "running (st (sh (publisher_run es' p)))"
proof -
  have "holds (publisher_run es' p) i"
    using spawn_failed_stays [OF assms(2)] by (simp add: holds_def wrecked_def)
  then show ?thesis
    using publisher_okD(2) [OF publisher_ok_run [OF publisher_ok_run [OF publisher_ok_init]]]
    unfolding assms(1) by blast
qed

text \<open>A monitor that cannot be resolved ends the thread without \<open>MFShutdown\<close>.\<close>

lemma monitor_error_leaks:
  assumes "resolve_monitor (monitors_now x) (display_id sn) = None"
  shows "fst (capture_step t x (CaptureMonitor sn) s) = CaptureExit1
    \<and> mf_refs (snd (capture_step t x (CaptureMonitor sn) s)) = mf_refs s"
  using assms by simp

text \<open>
  The ids handed out resolve to the displays they were listed for, given that \<open>from_index\<close> counts
  the enumeration from one.
\<close>

lemma listed_display_resolves:
  assumes "enumerate_all ms = Some all" "\<And>k. k < length all \<Longrightarrow> from_index ms (Suc k) = Some (all ! k)"
    and "length all < 2 ^ 32 - 1" "d \<in> set (list_displays ms)"
  shows "\<exists>m \<in> set all. resolve_monitor ms (info_id d) = Some m
    \<and> map_option uint (mon_width m) = Some (info_width d) \<and> map_option uint (mon_height m) = Some (info_height d)"
proof -
  from assms(1,4) obtain k m where
    km: "(k, m) \<in> set (enumerate 0 all)"
    and d: "display_info_of (Option.bind (primary ms) device_name) (k, m) = Some d"
    by (auto simp: list_displays_def map_filter_def)
  from km have k: "k < length all" "all ! k = m" by (auto simp: in_set_enumerate_eq)
  have "unat (word_of_nat k :: u32) = k"
    using k(1) assms(3) by (simp add: unat_of_nat take_bit_nat_eq_self_iff)
  then have id: "unat (word_of_nat k + 1 :: u32) = Suc k"
    using k(1) assms(3) unat_add_lem [of "word_of_nat k :: u32" 1] by simp
  then have "(word_of_nat k + 1 :: u32) \<noteq> 0" by (metis nat.distinct(1) unat_0)
  with assms(2) [OF k(1)] id k have "resolve_monitor ms (word_of_nat k + 1) = Some m"
    by (simp add: resolve_monitor_def)
  then show ?thesis using d k nth_mem [OF k(1)] by (auto split: option.splits)
qed

section \<open>Witnesses\<close>

text \<open>A white frame of two by two pixels, for which the transform gives out one IDR slice.\<close>

definition demo_frame :: frame where
  "demo_frame = \<lparr>f_width = 2, f_height = 2, f_buffer = Some (replicate 16 0xff), f_configure = demo_mf, f_now = 0,
     f_submit = demo_mf, f_fresh = (\<lambda>n. replicate n 0),
     f_outputs = [sample_round [0, 0, 0, 2, 0x65, 9], last_round]\<rparr>"

definition demo_input :: capture_input where
  "demo_input = \<lparr>mf_starts = True,
     monitors_now = \<lparr>primary = Some \<lparr>mon_width = Some 2, mon_height = Some 2, device_name = None\<rparr>,
       from_index = (\<lambda>_. None), enumerate_all = None\<rparr>,
     arrival = Some demo_frame, receiver_open = True\<rparr>"

definition demo_args :: capture_snapshot where
  "demo_args = \<lparr>width = 1920, height = 1080, fps = 30, bitrate_kbps = 4000, display_id = 0\<rparr>"

lemma demo_submit:
  assumes "transform enc \<noteq> None" "enc_width enc = 2" "enc_height enc = 2"
  shows "\<exists>smp enc'. submit_frame demo_mf (\<lambda>n. replicate n 0) (replicate 16 0xff) enc = (Submitted smp, enc')
    \<and> transform enc' \<noteq> None"
proof -
  have "bgra_to_nv12 (replicate 16 0xff) 2 2 (replicate 6 0) = Some (nv12_of (replicate 16 0xff) 2 2)"
    by (rule bgra_to_nv12_eq) simp_all
  moreover have "unat (expected_len enc) = 16" "y_size enc = 4"
    using assms(2,3) by (simp_all add: expected_len_def y_size_def)
  moreover have "mf_result demo_mf k op = None" for k op by (simp add: demo_mf_def)
  moreover have "nv12_len enc = 6" using \<open>y_size enc = 4\<close> by (simp add: nv12_len_def)
  ultimately show ?thesis
    using assms by (simp add: submit_frame_def Let_def del: replicate.simps)
qed

lemma demo_stamped: "\<exists>n. stamp_nals wall pts [0, 0, 0, 2, 0x65, 9] = [n]"
proof -
  have "avcc_loop [0, 0, 0, 2, 0x65, 9] 6 = []" by (simp add: avcc_loop.simps)
  then have "avcc_loop [0, 0, 0, 2, 0x65, 9] 0 = [start_code @ [0x65, 9]]"
    by (simp add: avcc_loop.simps [of _ 0] be32_def)
  moreover have "\<not> is_annexb [0, 0, 0, 2, 0x65, 9]" by (simp add: is_annexb_def)
  ultimately show ?thesis by (simp add: stamp_nals_def avcc_to_annexb_def)
qed

lemma demo_handled:
  "\<exists>h n. handle_frame demo_frame (handler_new a) = (WorkNals [n], h) \<and> configured_dims h = Some (2, 2) \<and> h_snapshot h = a"
proof -
  obtain enc where c: "configure demo_mf 0 2 2 (fps a) (u32_saturating_mul (bitrate_kbps a) 1000) encoder_new = (Inr (), enc)"
    by (force simp: configure_def find_h264_encoder_def lookup_stream_ids_def run_ops_none demo_mf_def Let_def)
  have "enc_width enc = 2" "enc_height enc = 2" using configure_ok [OF c] by (simp_all add: round_even_def)
  from demo_submit [OF configure_ok(1) [OF c] this] obtain smp enc' where
    sub: "submit_frame demo_mf (\<lambda>n. replicate n 0) (replicate 16 0xff) enc = (Submitted smp, enc')"
    and t: "transform enc' \<noteq> None" by blast
  have "\<exists>n. drain enc' [sample_round [0, 0, 0, 2, 0x65, 9], last_round] = Some (Inr [n])"
    using demo_stamped t by (fastforce simp: drain_def demo_rounds)
  then obtain n where d: "drain enc' [sample_round [0, 0, 0, 2, 0x65, 9], last_round] = Some (Inr [n])" ..
  have "handle_frame demo_frame (handler_new a) = encode_frame demo_frame
      ((handler_new a)\<lparr>h_encoder := enc, configured_dims := Some (2, 2)\<rparr>)"
    using c by (simp add: handle_frame_def handler_new_def demo_frame_def del: replicate.simps)
  then show ?thesis
    using sub d by (simp add: encode_frame_def demo_frame_def handler_new_def del: replicate.simps)
qed

text \<open>
  The publisher is started by call 0; after eight steps its thread is about to send the NAL of a
  frame, after ten it has sent it and waits for the next frame.
\<close>

definition demo_schedule :: "nat \<Rightarrow> pub_event list" where
  "demo_schedule k = started @ replicate k (CaptureNext 0 demo_input)"

definition demo_publisher :: "nat \<Rightarrow> publisher" where
  "demo_publisher k = publisher_run (demo_schedule k) (publisher_init (\<lambda>_. demo_args))"

lemma demo_publisher_next:
  "demo_publisher (Suc k) = publisher_step (CaptureNext 0 demo_input) (demo_publisher k)"
  by (simp add: demo_publisher_def demo_schedule_def publisher_run_def replicate_append_same [symmetric])

definition quiet :: "publisher \<Rightarrow> bool" where
  "quiet p \<longleftrightarrow> st (sh p) = start_state demo_args pub_state_default \<and> \<not> shutdown (sh p) \<and> sender (sh p) = Some 0
    \<and> calls p = (\<lambda>_. StartLock demo_args)(0 := StartDone (Inr 0))"

lemma demo_session:
  "quiet (demo_publisher 5) \<and> sent (sh (demo_publisher 5)) = []
    \<and> (\<exists>m. threads (demo_publisher 5) 0 = CaptureSession m (handler_new demo_args))"
  using started_state [of demo_args]
  by (auto simp: demo_publisher_def demo_schedule_def publisher_run_def numeral_eq_Suc demo_input_def
      resolve_monitor_def demo_args_def capture_snapshot_of_def start_state_def pub_state_default_def quiet_def)

lemma demo_about_to_send:
  "\<exists>m h n. quiet (demo_publisher 8) \<and> sent (sh (demo_publisher 8)) = [] \<and> threads (demo_publisher 8) 0 = CaptureSend m h 0 [n]
    \<and> configured_dims h = Some (2, 2)"
proof -
  let ?n = "Suc (Suc (Suc 5))"
  obtain m where s: "quiet (demo_publisher 5)" "sent (sh (demo_publisher 5)) = []"
    "threads (demo_publisher 5) 0 = CaptureSession m (handler_new demo_args)" using demo_session by blast
  obtain h n where w: "handle_frame demo_frame (handler_new demo_args) = (WorkNals [n], h)" "configured_dims h = Some (2, 2)"
    using demo_handled by blast
  have in6: "arrival demo_input = Some demo_frame" by (simp add: demo_input_def)
  from s in6 have "demo_publisher 6 = (demo_publisher 5)\<lparr>threads := (threads (demo_publisher 5))
      (0 := CaptureChecked m (handler_new demo_args) demo_frame)\<rparr>"
    using demo_publisher_next [of 5] by (simp add: quiet_def)
  then have 6: "threads (demo_publisher 6) 0 = CaptureChecked m (handler_new demo_args) demo_frame"
    "sh (demo_publisher 6) = sh (demo_publisher 5)" "calls (demo_publisher 6) = calls (demo_publisher 5)" by simp_all
  have 7: "threads (demo_publisher 7) 0 = CaptureSlot m h [n]"
    "sh (demo_publisher 7) = sh (demo_publisher 5)" "calls (demo_publisher 7) = calls (demo_publisher 5)"
    using demo_publisher_next [of 6] 6 s w by (simp_all add: quiet_def start_state_def after_work_def)
  have "threads (demo_publisher 8) 0 = CaptureSend m h 0 [n]"
    "sh (demo_publisher 8) = sh (demo_publisher 5)" "calls (demo_publisher 8) = calls (demo_publisher 5)"
    using demo_publisher_next [of 7] 7 s by (simp_all add: quiet_def)
  then show ?thesis using s w(2) by (auto simp: quiet_def)
qed

lemma demo_publisher_sent:
  "\<exists>m h n. quiet (demo_publisher 10) \<and> sent (sh (demo_publisher 10)) = [(0, 0, n)]
    \<and> threads (demo_publisher 10) 0 = CaptureSession m h \<and> configured_dims h = Some (2, 2)"
proof -
  obtain m h n where 8: "quiet (demo_publisher 8)" "sent (sh (demo_publisher 8)) = []"
    "threads (demo_publisher 8) 0 = CaptureSend m h 0 [n]" "configured_dims h = Some (2, 2)"
    using demo_about_to_send by blast
  have "receiver_open demo_input" by (simp add: demo_input_def)
  with 8 have 9: "threads (demo_publisher 9) 0 = CaptureSend m h 0 []" "quiet (demo_publisher 9)"
    "sent (sh (demo_publisher 9)) = [(0, 0, n)]"
    using demo_publisher_next [of 8] by (simp_all add: quiet_def)
  then show ?thesis using demo_publisher_next [of 9] 8(4) by (simp add: quiet_def)
qed

theorem one_publisher_witness:
  "(\<exists>n. sent (sh (demo_publisher 10)) = [(0, 0, n)])
    \<and> start_step 1 True (demo_publisher 10)
      = (demo_publisher 10)\<lparr>calls := (calls (demo_publisher 10))(1 := StartDone (Inl ALREADY_RUNNING))\<rparr>"
proof -
  have "holds (demo_publisher 10) 0" using demo_publisher_sent by (auto simp: holds_def alive_def)
  moreover have "calls (demo_publisher 10) 1 = StartLock demo_args"
    using demo_publisher_sent by (auto simp: quiet_def)
  ultimately have "start_step 1 True (demo_publisher 10)
      = (demo_publisher 10)\<lparr>calls := (calls (demo_publisher 10))(1 := StartDone (Inl ALREADY_RUNNING))\<rparr>"
    using one_publisher [OF demo_publisher_def] by blast
  then show ?thesis using demo_publisher_sent by blast
qed

lemma demo_calm: "calm (demo_schedule k) (publisher_init (\<lambda>_. demo_args))"
proof -
  have "list_all (\<lambda>e. \<not> is_setter e) es \<Longrightarrow> calm es p" for es p
    by (induction es arbitrary: p) simp_all
  then show ?thesis by (simp add: demo_schedule_def started_def list_all_iff)
qed


theorem stop_stops_witness:
  "\<exists>n nals. in_flight (threads (demo_publisher 8) 0) = [n] \<and> prefix nals [n]
    \<and> sent_by 0 (publisher_run (Stop # replicate 9 (CaptureNext 0 demo_input)) (demo_publisher 8)) = map (\<lambda>n. (0, 0, n)) nals
    \<and> threads (publisher_run (Stop # replicate 9 (CaptureNext 0 demo_input)) (demo_publisher 8)) 0 = CaptureDead"
proof -
  obtain m h n where t: "threads (demo_publisher 8) 0 = CaptureSend m h 0 [n]" and s: "sent (sh (demo_publisher 8)) = []"
    using demo_about_to_send by blast
  have "threads (demo_publisher 8) 0 \<noteq> CaptureNone" "\<not> doomed (threads (demo_publisher 8) 0)"
    by (simp_all add: t doomed_def)
  from stop_stops [OF demo_publisher_def this refl, of "replicate 9 (CaptureNext 0 demo_input)"]
  show ?thesis by (auto simp: t turns_def sent_by_def s)
qed

end
