(* ===== verification/Mac_Capturer.thy ===== *)
theory Mac_Capturer
  imports Annexb
begin

text \<open>
  The macOS capturer: the Rust wrappers of \<open>crates/mac-capturer/src/lib.rs\<close> over the C functions
  of \<open>swift/MacCapturer.swift\<close>, and the framing of an encoded sample in \<open>handleEncoded\<close>, down
  to what the relay makes of it. A C \<open>int\<close> is a word of 32 bits, read signed. ScreenCaptureKit
  and VideoToolbox are parameters: whether a call of theirs succeeds.
\<close>

section \<open>The C functions\<close>

text \<open>\<open>sharedCapturer\<close>: the running capturer with its live settings.\<close>

record mac_capturer =
  mac_width :: int
  mac_height :: int
  mac_fps :: int
  mac_bitrate :: int
  mac_display :: u32
  mac_has_encoder :: bool

definition clamp :: "int \<Rightarrow> int \<Rightarrow> int \<Rightarrow> int" where
  "clamp lo hi x = max lo (min hi x)"

text \<open>\<open>picked\<close> is the display the stream was opened on, \<open>None\<close> when the encoder or the stream failed.\<close>

definition xz_capturer_start ::
  "u32 \<Rightarrow> u32 \<Rightarrow> u32 \<Rightarrow> u32 \<Rightarrow> u32 option \<Rightarrow> mac_capturer option \<Rightarrow> u32 \<times> mac_capturer option" where
  "xz_capturer_start w h f b picked s =
     (case picked of
        None \<Rightarrow> (1, s)
      | Some d \<Rightarrow> (0, Some \<lparr>mac_width = sint w, mac_height = sint h, mac_fps = sint f, mac_bitrate = sint b,
          mac_display = d, mac_has_encoder = True\<rparr>))"

definition xz_capturer_select_display :: "u32 \<Rightarrow> bool \<Rightarrow> mac_capturer option \<Rightarrow> u32 \<times> mac_capturer option" where
  "xz_capturer_select_display d ok s =
     (case s of
        None \<Rightarrow> (1, s)
      | Some m \<Rightarrow>
          (if d = mac_display m then (0, s)
           else if ok then (0, Some (m\<lparr>mac_display := d\<rparr>))
           else (2, s)))"

definition xz_capturer_set_bitrate :: "u32 \<Rightarrow> bool \<Rightarrow> mac_capturer option \<Rightarrow> u32 \<times> mac_capturer option" where
  "xz_capturer_set_bitrate kbps ok s =
     (case s of
        None \<Rightarrow> (1, s)
      | Some m \<Rightarrow>
          (if \<not> mac_has_encoder m then (1, s)
           else if ok then (0, Some (m\<lparr>mac_bitrate := clamp 100 100000 (sint kbps)\<rparr>))
           else (2, s)))"

definition xz_capturer_set_fps :: "u32 \<Rightarrow> bool \<Rightarrow> mac_capturer option \<Rightarrow> u32 \<times> mac_capturer option" where
  "xz_capturer_set_fps f ok s =
     (case s of
        None \<Rightarrow> (1, s)
      | Some m \<Rightarrow>
          (let f' = clamp 5 120 (sint f) in
           if f' = mac_fps m then (0, s)
           else if ok then (0, Some (m\<lparr>mac_fps := f'\<rparr>))
           else (2, s)))"

text \<open>The stream is reconfigured first, then the encoder is torn down and rebuilt at the new size.\<close>

datatype resize = StreamRefused | EncoderRefused | Resized

definition xz_capturer_set_resolution ::
  "u32 \<Rightarrow> u32 \<Rightarrow> resize \<Rightarrow> mac_capturer option \<Rightarrow> u32 \<times> mac_capturer option" where
  "xz_capturer_set_resolution w h r s =
     (case s of
        None \<Rightarrow> (1, s)
      | Some m \<Rightarrow>
          (let w' = clamp 160 7680 (sint w); h' = clamp 120 4320 (sint h) in
           if w' = mac_width m \<and> h' = mac_height m then (0, s)
           else case r of
             StreamRefused \<Rightarrow> (2, s)
           | EncoderRefused \<Rightarrow> (2, Some (m\<lparr>mac_width := w', mac_height := h', mac_has_encoder := False\<rparr>))
           | Resized \<Rightarrow> (0, Some (m\<lparr>mac_width := w', mac_height := h', mac_has_encoder := True\<rparr>))))"

definition xz_capturer_resolution :: "mac_capturer option \<Rightarrow> u32" where
  "xz_capturer_resolution s =
     (case s of
        None \<Rightarrow> 0
      | Some m \<Rightarrow> push_bit 16 (word_of_int (min 0xFFFF (mac_width m))) OR word_of_int (min 0xFFFF (mac_height m)))"

section \<open>The Rust wrappers\<close>

text \<open>\<open>start\<close>: the sender is handed over to the C side, and taken back and dropped if that fails.\<close>

definition mac_start ::
  "u32 \<Rightarrow> u32 \<Rightarrow> u32 \<Rightarrow> u32 \<Rightarrow> u32 option \<Rightarrow> mac_capturer option \<Rightarrow> (string + unit) \<times> mac_capturer option" where
  "mac_start w h f b picked s =
     (let (rc, s') = xz_capturer_start w h f b picked s in
      (if rc \<noteq> 0 then Inl ''xz_capturer_start failed'' else Inr (), s'))"

definition rc_result :: "string \<Rightarrow> u32 \<Rightarrow> string + unit" where
  "rc_result e rc = (if rc = 0 then Inr () else if rc = 1 then Inl ''capturer not started'' else Inl e)"

definition mac_select_display :: "u32 \<Rightarrow> bool \<Rightarrow> mac_capturer option \<Rightarrow> (string + unit) \<times> mac_capturer option" where
  "mac_select_display d ok s = apfst (rc_result ''select_display failed'') (xz_capturer_select_display d ok s)"

definition mac_set_bitrate_kbps :: "u32 \<Rightarrow> bool \<Rightarrow> mac_capturer option \<Rightarrow> (string + unit) \<times> mac_capturer option" where
  "mac_set_bitrate_kbps k ok s = apfst (rc_result ''set_bitrate failed'') (xz_capturer_set_bitrate k ok s)"

definition mac_set_fps :: "u32 \<Rightarrow> bool \<Rightarrow> mac_capturer option \<Rightarrow> (string + unit) \<times> mac_capturer option" where
  "mac_set_fps f ok s = apfst (rc_result ''set_fps failed'') (xz_capturer_set_fps f ok s)"

definition mac_set_resolution ::
  "u32 \<Rightarrow> u32 \<Rightarrow> resize \<Rightarrow> mac_capturer option \<Rightarrow> (string + unit) \<times> mac_capturer option" where
  "mac_set_resolution w h r s = apfst (rc_result ''set_resolution failed'') (xz_capturer_set_resolution w h r s)"

text \<open>The getters: a negative value reads as 0.\<close>

definition non_negative :: "u32 \<Rightarrow> u32" where
  "non_negative v = (if sint v < 0 then 0 else v)"

definition mac_active_display_id :: "mac_capturer option \<Rightarrow> u32" where
  "mac_active_display_id s = (case s of None \<Rightarrow> 0 | Some m \<Rightarrow> mac_display m)"

definition mac_bitrate_kbps :: "mac_capturer option \<Rightarrow> u32" where
  "mac_bitrate_kbps s = non_negative (case s of None \<Rightarrow> 0 | Some m \<Rightarrow> word_of_int (mac_bitrate m))"

definition mac_get_fps :: "mac_capturer option \<Rightarrow> u32" where
  "mac_get_fps s = non_negative (case s of None \<Rightarrow> 0 | Some m \<Rightarrow> word_of_int (mac_fps m))"

definition mac_resolution :: "mac_capturer option \<Rightarrow> u32 \<times> u32" where
  "mac_resolution s =
     (let v = xz_capturer_resolution s in
      if sint v \<le> 0 then (0, 0) else (drop_bit 16 v AND 0xFFFF, v AND 0xFFFF))"

text \<open>\<open>on_nal\<close>: the callback copies the bytes into the channel; \<open>alive\<close> whether its receiver lives.\<close>

definition on_nal :: "bool \<Rightarrow> bytes option \<Rightarrow> u64 \<Rightarrow> bool \<Rightarrow> nal list \<Rightarrow> nal list" where
  "on_nal ctx_null data pts alive chan =
     (case data of
        None \<Rightarrow> chan
      | Some bs \<Rightarrow>
          (if ctx_null \<or> bs = [] then chan
           else if alive then chan @ [\<lparr>nal_data = bs, nal_pts_us = pts\<rparr>] else chan))"

section \<open>An encoded sample\<close>

text \<open>
  \<open>handleEncoded\<close>: on a keyframe all parameter sets go out as one chunk, then every NAL of the
  length-prefixed buffer as its own; \<open>emitAnnexBChunk\<close> stamps each with the clock of its moment.
\<close>

definition mac_prefix :: "bool \<Rightarrow> bytes list \<Rightarrow> bytes" where
  "mac_prefix is_key psets = (if is_key then concat (map (\<lambda>s. start_code @ s) psets) else [])"

definition mac_chunks :: "bool \<Rightarrow> bytes list \<Rightarrow> bytes \<Rightarrow> bytes list" where
  "mac_chunks is_key psets avcc =
     (let prefix = mac_prefix is_key psets in (if prefix = [] then [] else [prefix]) @ avcc_loop avcc 0)"

definition mac_messages :: "(nat \<Rightarrow> u64) \<Rightarrow> bool \<Rightarrow> bytes list \<Rightarrow> bytes \<Rightarrow> bytes list" where
  "mac_messages wall is_key psets avcc =
     map (\<lambda>(k, c). be_bytes8 (wall k) @ c) (enumerate 0 (mac_chunks is_key psets avcc))"

section \<open>Reading back the resolution\<close>

lemma pack_halves:
  assumes "0 \<le> a" "a < 2 ^ 15" "0 \<le> b" "b < 2 ^ 16"
  defines "v \<equiv> push_bit 16 (word_of_int a) OR word_of_int b :: u32"
  shows "drop_bit 16 v AND 0xFFFF = word_of_int a" "v AND 0xFFFF = word_of_int b"
    "sint v \<le> 0 \<longleftrightarrow> a = 0 \<and> b = 0"
proof -
  have "push_bit 16 (word_of_int a) AND (word_of_int b :: u32) = 0"
  proof (rule bit_word_eqI)
    have "\<not> bit b n" if "16 \<le> n" for n
      using that assms(3,4) bit_take_bit_iff [of 16 b n] by (simp add: take_bit_int_eq_self)
    then show "bit (push_bit 16 (word_of_int a) AND (word_of_int b :: u32)) n = bit (0 :: u32) n" for n
      by (auto simp: bit_simps)
  qed
  then have "v = push_bit 16 (word_of_int a) + word_of_int b"
    unfolding v_def by (simp add: disjunctive_add_eq_or)
  then have v: "v = word_of_int (a * 2 ^ 16 + b)" by (simp add: push_bit_eq_mult)
  have r: "0 \<le> a * 2 ^ 16 + b" "a * 2 ^ 16 + b < 2 ^ 31" using assms(1-4) by simp_all
  have u: "uint v = a * 2 ^ 16 + b" unfolding v by (subst uint_word_of_int) (use r in simp)
  have mask: "(0xFFFF :: u32) = mask 16" by (simp add: mask_eq_exp_minus_1)
  have ub: "uint (word_of_int a :: u32) = a" "uint (word_of_int b :: u32) = b"
    using assms(1-4) by (simp_all add: uint_word_of_int)
  show "v AND 0xFFFF = word_of_int b"
    unfolding mask take_bit_eq_mask [symmetric] by (rule word_uint_eqI)
      (use assms(1-4) in \<open>simp add: unsigned_take_bit_eq take_bit_eq_mod [where 'a = int] u ub\<close>)
  show "drop_bit 16 v AND 0xFFFF = word_of_int a"
    unfolding mask take_bit_eq_mask [symmetric] by (rule word_uint_eqI)
      (use assms(1-4) in \<open>simp add: unsigned_take_bit_eq take_bit_eq_mod [where 'a = int] unsigned_drop_bit_eq drop_bit_eq_div [where 'a = int] u ub\<close>)
  have "sint v = a * 2 ^ 16 + b"
    using r by (simp add: sint_uint u signed_take_bit_int_eq_self)
  then show "sint v \<le> 0 \<longleftrightarrow> a = 0 \<and> b = 0" using assms(1,3) by auto
qed

lemma sint_small: "0 \<le> x \<Longrightarrow> x < 2 ^ 31 \<Longrightarrow> sint (word_of_int x :: u32) = x"
  by (simp add: sint_uint uint_word_of_int signed_take_bit_int_eq_self)

lemma clamp_range: "lo \<le> hi \<Longrightarrow> lo \<le> clamp lo hi x \<and> clamp lo hi x \<le> hi"
  by (simp add: clamp_def)

text \<open>
  What was set is read back: when \<open>set_resolution\<close> returns \<open>Ok\<close>, \<open>resolution\<close> gives the request
  clamped to the supported range, through the packing of both halves into one signed int; a
  request within the range comes back as it is.
\<close>

theorem mac_resolution_roundtrip:
  assumes "mac_set_resolution w h r s = (Inr (), s')"
  shows "mac_resolution s' = (word_of_int (clamp 160 7680 (sint w)), word_of_int (clamp 120 4320 (sint h)))
    \<and> (160 \<le> uint w \<and> uint w \<le> 7680 \<and> 120 \<le> uint h \<and> uint h \<le> 4320 \<longrightarrow> mac_resolution s' = (w, h))"
proof -
  let ?w = "clamp 160 7680 (sint w)" and ?h = "clamp 120 4320 (sint h)"
  have size: "\<exists>m. s' = Some m \<and> mac_width m = ?w \<and> mac_height m = ?h"
    using assms by (cases r) (auto simp: mac_set_resolution_def xz_capturer_set_resolution_def rc_result_def Let_def
        split: option.splits if_splits)
  have "160 \<le> ?w" "?w \<le> 7680" "120 \<le> ?h" "?h \<le> 4320" using clamp_range by simp_all
  then have c: "mac_resolution s' = (word_of_int ?w, word_of_int ?h)"
    using size pack_halves [of ?w ?h] by (auto simp: mac_resolution_def xz_capturer_resolution_def Let_def)
  have "word_of_int (clamp lo hi (sint x)) = x" if "lo \<le> uint x" "uint x \<le> hi" "hi < 2 ^ 31" for lo hi and x :: u32
  proof -
    have "sint x = uint x" using that sint_small [of "uint x"] by simp
    then show ?thesis using that by (simp add: clamp_def)
  qed
  then show ?thesis using c by simp
qed

theorem mac_resolution_roundtrip_witness:
  "\<exists>s. mac_resolution s = (2560, 1440)"
proof -
  have "mac_set_resolution 2560 1440 Resized
      (snd (mac_start 1920 1080 30 4000 (Some 5) None)) = (Inr (), Some \<lparr>mac_width = 2560, mac_height = 1440,
        mac_fps = 30, mac_bitrate = 4000, mac_display = 5, mac_has_encoder = True\<rparr>)"
    by (simp add: mac_start_def xz_capturer_start_def mac_set_resolution_def xz_capturer_set_resolution_def
        rc_result_def clamp_def)
  from mac_resolution_roundtrip [OF this] show ?thesis by auto
qed

text \<open>
  \<open>start\<close> does not clamp: a width of 32768 or more makes the packed int negative and reads back as
  no capturer at all.
\<close>

lemma wide_start_reads_zero:
  "mac_resolution (snd (mac_start 32768 1080 30 4000 (Some d) s)) = (0, 0)"
  by (simp add: mac_start_def xz_capturer_start_def mac_resolution_def xz_capturer_resolution_def)

text \<open>
  After a resize whose encoder could not be rebuilt, the same request again reports success while
  nothing is encoded any more: the size was stored before the encoder was there.
\<close>

lemma failed_resize_retried:
  assumes "mac_width m \<noteq> clamp 160 7680 (sint w)"
  shows "\<exists>s'. mac_set_resolution w h EncoderRefused (Some m) = (Inl ''set_resolution failed'', s')
    \<and> (\<exists>m'. mac_set_resolution w h r s' = (Inr (), Some m') \<and> \<not> mac_has_encoder m')"
  using assms by (simp add: mac_set_resolution_def xz_capturer_set_resolution_def rc_result_def Let_def)

section \<open>A keyframe at the relay\<close>

lemma mac_chunks_keyframe:
  assumes "\<forall>s \<in> set slices. length s < 2 ^ 32" "psets \<noteq> []"
  shows "mac_chunks True psets (avcc_encode slices) = concat (map (\<lambda>s. start_code @ s) psets) # map (\<lambda>s. start_code @ s) slices"
proof -
  have "avcc_loop ([] @ avcc_encode slices @ []) (length ([] :: bytes)) = map (\<lambda>s. start_code @ s) slices"
    by (rule avcc_loop_encode) (use assms(1) in simp_all)
  moreover have "concat (map (\<lambda>s. start_code @ s) psets) \<noteq> []"
    using assms(2) by (cases psets) (simp_all add: start_code_def)
  ultimately show ?thesis by (simp add: mac_chunks_def mac_prefix_def Let_def)
qed

lemma map_enumerate_map:
  "map (\<lambda>(k, y). g k y) (enumerate n (map f xs)) = map (\<lambda>(k, x). g k (f x)) (enumerate n xs)"
  by (induction xs arbitrary: n) simp_all

text \<open>Keyframes recorded one after the other: the window keeps the last one alone.\<close>

lemma record_keyframes:
  assumes "\<forall>f \<in> set fs. classify_nal f (win_codec w) = Keyframe" "fs \<noteq> []" "length (last fs) \<le> WARMUP_KEY_MAX_BYTES"
  shows "record_all fs w = w\<lparr>keyframe := [last fs], keyframe_total_bytes := length (last fs),
    since_keyframe := [], since_keyframe_total_bytes := 0\<rparr>"
  using assms
proof (induction fs arbitrary: w)
  case Nil
  then show ?case by simp
next
  case (Cons f fs)
  then show ?case by (cases "fs = []") (simp_all add: record_key)
qed

text \<open>
  C30. What a viewer that joins right after a macOS keyframe is replayed: the message with every
  parameter set, which the relay files under the type of the first one, and the last message
  of the frame. That is the whole keyframe exactly when it has one slice; of a keyframe cut
  into several slices all but the last are lost.
\<close>

theorem mac_keyframe_replay:
  assumes "psets = (b # p) # rest" "classify_discovery b = ParamSet Hevc t"
    and "slices \<noteq> []" "\<forall>s \<in> set slices. s \<noteq> [] \<and> classify_known Hevc (hd s) = Keyframe \<and> length s + 12 \<le> WARMUP_KEY_MAX_BYTES"
    and "msgs = mac_messages wall True psets (avcc_encode slices)"
  shows "snapshot (record_all msgs warmup_default) = [hd msgs, last msgs]
    \<and> drop 8 (hd msgs) = concat (map (\<lambda>s. start_code @ s) psets)
    \<and> (snapshot (record_all msgs warmup_default) = msgs \<longleftrightarrow> length slices = 1)"
proof -
  let ?head = "be_bytes8 (wall 0) @ concat (map (\<lambda>s. start_code @ s) psets)"
  let ?tail = "map (\<lambda>(k, s). be_bytes8 (wall k) @ start_code @ s) (enumerate 1 slices)"
  have "\<forall>s \<in> set slices. length s < 2 ^ 32" using assms(4) by (fastforce simp: WARMUP_KEY_MAX_BYTES_def)
  from mac_chunks_keyframe [OF this, of psets] assms(1)
  have msgs: "msgs = ?head # ?tail"
    unfolding assms(5) mac_messages_def by (simp add: map_enumerate_map)
  have sl: "\<exists>k. \<exists>s \<in> set slices. f = be_bytes8 (wall k) @ start_code @ s" if "f \<in> set ?tail" for f
    using that by (auto simp: in_set_enumerate_eq)
  have "classify_nal f (Some Hevc) = Keyframe \<and> length f \<le> WARMUP_KEY_MAX_BYTES" if f: "f \<in> set ?tail" for f
  proof -
    obtain k s where s: "s \<in> set slices" "f = be_bytes8 (wall k) @ start_code @ s" using sl [OF f] by blast
    have k: "s \<noteq> []" "classify_known Hevc (hd s) = Keyframe" "length s + 12 \<le> WARMUP_KEY_MAX_BYTES"
      using assms(4) s(1) by auto
    then obtain c q where "s = c # q" by (cases s) auto
    with k have cq: "s = c # q" "classify_known Hevc c = Keyframe" "length s + 12 \<le> WARMUP_KEY_MAX_BYTES" by simp_all
    have f: "f = be_bytes8 (wall k) @ [0, 0, 0, 1, c] @ q" using s(2) cq(1) by (simp add: start_code_def)
    have "classify_nal f (Some Hevc) = Keyframe"
      unfolding f by (subst classify_framed) (simp_all add: cq(2))
    moreover have "length f \<le> WARMUP_KEY_MAX_BYTES" unfolding f using cq(1,3) by simp
    ultimately show ?thesis ..
  qed
  moreover have ne: "?tail \<noteq> []" using assms(3) by (cases slices) simp_all
  moreover have "classify_nal ?head None = ParamSet Hevc t"
    using assms(1,2) classify_framed [of "be_bytes8 (wall 0)" b "p @ concat (map (\<lambda>s. start_code @ s) rest)" None]
    by (simp add: start_code_def)
  moreover have "last ?tail \<in> set ?tail" using ne by (rule last_in_set)
  ultimately have "record_all msgs warmup_default = warmup_default\<lparr>win_codec := Some Hevc, param_sets := [(t, ?head)],
      keyframe := [last ?tail], keyframe_total_bytes := length (last ?tail)\<rparr>"
    unfolding msgs by (simp add: record_param record_keyframes warmup_default_def)
  then have snap: "snapshot (record_all msgs warmup_default) = [?head, last ?tail]"
    by (simp add: snapshot_def warmup_default_def)
  moreover have "length msgs = 1 + length slices" unfolding msgs by simp
  then have "[?head, last ?tail] = msgs \<longleftrightarrow> length slices = 1"
    using ne by (cases slices rule: list.exhaust; cases "tl slices") (auto simp: msgs)
  ultimately show ?thesis using ne by (simp add: msgs)
qed

text \<open>A VPS, an SPS and a PPS before an IDR picture of two slices: the first slice is not replayed.\<close>

theorem mac_keyframe_replay_witness:
  "snapshot (record_all (mac_messages (\<lambda>_. 0) True [[0x40, 1], [0x42, 1], [0x44, 1]] (avcc_encode [[0x26, 7], [0x26, 8]]))
      warmup_default)
    = [replicate 8 0 @ [0, 0, 0, 1, 0x40, 1, 0, 0, 0, 1, 0x42, 1, 0, 0, 0, 1, 0x44, 1],
       replicate 8 0 @ [0, 0, 0, 1, 0x26, 8]]"
proof -
  let ?m = "mac_messages (\<lambda>_. 0) True [[0x40, 1], [0x42, 1], [0x44, 1]] (avcc_encode [[0x26, 7], [0x26, 8]])"
  have z: "be_bytes8 0 = replicate 8 0" by (simp add: be_bytes8_def map_replicate_const)
  have m: "?m = [replicate 8 0 @ [0, 0, 0, 1, 0x40, 1, 0, 0, 0, 1, 0x42, 1, 0, 0, 0, 1, 0x44, 1],
      replicate 8 0 @ [0, 0, 0, 1, 0x26, 7], replicate 8 0 @ [0, 0, 0, 1, 0x26, 8]]"
    unfolding mac_messages_def
    by (subst mac_chunks_keyframe) (simp_all add: start_code_def z del: replicate.simps)
  have "snapshot (record_all ?m warmup_default) = [hd ?m, last ?m]"
    by (rule conjunct1 [OF mac_keyframe_replay [where t = 32 and rest = "[[0x42, 1], [0x44, 1]]" and b = "0x40" and p = "[1]"]])
      (auto simp: classify_eval WARMUP_KEY_MAX_BYTES_def)
  then show ?thesis unfolding m by simp
qed

end
