(* ===== verification/Mac_Displays.thy ===== *)
theory Mac_Displays
  imports Mac_Capturer
begin

text \<open>
  Enumerating the displays on macOS: the JSON that \<open>xz_capturer_list_displays_json\<close> of
  \<open>swift/MacCapturer.swift\<close> writes by hand into the caller's buffer, and \<open>list_displays\<close> of
  \<open>crates/mac-capturer/src/lib.rs\<close>, which reads it back. ScreenCaptureKit's answer and the two parsers
  of the reader are parameters.
\<close>

record mac_display_info =
  md_id :: u32
  md_width :: int
  md_height :: int
  md_is_primary :: bool

definition show_int :: "int \<Rightarrow> ustring" where
  "show_int i = (if i < 0 then 45 # decimal (nat (- i)) else decimal (nat i))"

definition show_bool :: "bool \<Rightarrow> ustring" where
  "show_bool b = (if b then utext ''true'' else utext ''false'')"

definition display_json :: "mac_display_info \<Rightarrow> ustring" where
  "display_json d =
     utext ''{\"id\":'' @ decimal (unat (md_id d)) @ utext '',\"width\":'' @ show_int (md_width d)
     @ utext '',\"height\":'' @ show_int (md_height d) @ utext '',\"is_primary\":''
     @ show_bool (md_is_primary d) @ utext ''}''"

fun joined :: "ustring \<Rightarrow> ustring list \<Rightarrow> ustring" where
  "joined sep [] = []"
| "joined sep [x] = x"
| "joined sep (x # y # xs) = x @ sep @ joined sep (y # xs)"

definition displays_json :: "mac_display_info list \<Rightarrow> ustring" where
  "displays_json ds = utext ''['' @ joined (utext '','') (map display_json ds) @ utext '']''"

text \<open>
  The displays of the shareable content, none if it cannot be fetched.
\<close>

definition list_displays_sync :: "(u32 \<times> int \<times> int) list option \<Rightarrow> u32 \<Rightarrow> mac_display_info list" where
  "list_displays_sync content primary =
     (case content of
        None \<Rightarrow> []
      | Some ds \<Rightarrow> map (\<lambda>(i, w, h). \<lparr>md_id = i, md_width = w, md_height = h, md_is_primary = (i = primary)\<rparr>) ds)"

text \<open>\<open>None\<close> is the result -1, a buffer that is too small.\<close>

definition xz_capturer_list_displays_json :: "nat \<Rightarrow> mac_display_info list \<Rightarrow> bytes option" where
  "xz_capturer_list_displays_json cap infos =
     (let bs = map word_of_nat (displays_json infos) in if cap < length bs then None else Some bs)"

definition DISPLAY_BUF :: nat where
  "DISPLAY_BUF = 8192"

text \<open>The buffer is not grown; \<open>from_utf8\<close> and \<open>from_json\<close> are the parsers.\<close>

definition mac_list_displays ::
  "(bytes \<Rightarrow> 't option) \<Rightarrow> ('t \<Rightarrow> mac_display_info list option) \<Rightarrow> mac_display_info list \<Rightarrow> mac_display_info list" where
  "mac_list_displays from_utf8 from_json infos =
     (case xz_capturer_list_displays_json DISPLAY_BUF infos of
        None \<Rightarrow> []
      | Some bs \<Rightarrow>
          (case from_utf8 bs of
             None \<Rightarrow> []
           | Some t \<Rightarrow> (case from_json t of None \<Rightarrow> [] | Some ds \<Rightarrow> ds)))"

section \<open>The size of the text\<close>

lemma decimal_length_le: "n < 10 ^ Suc k \<Longrightarrow> length (decimal n) \<le> Suc k"
proof (induction k arbitrary: n)
  case 0
  then show ?case by (simp add: decimal.simps [of n])
next
  case (Suc k)
  show ?case
  proof (cases "n < 10")
    case False
    have "n div 10 < 10 ^ Suc k" using Suc.prems by (simp add: less_mult_imp_div_less mult.commute)
    with False Suc.IH show ?thesis by (simp add: decimal.simps [of n])
  qed (simp add: decimal.simps [of n])
qed

lemma decimal_u32: "length (decimal (unat (i :: u32))) \<le> 10"
proof -
  have "unat i < 2 ^ 32" using unsigned_less [of i, where 'a = nat] by simp
  then show ?thesis using decimal_length_le [of "unat i" 9] by simp
qed

definition is_i64 :: "int \<Rightarrow> bool" where
  "is_i64 i \<longleftrightarrow> - (2 ^ 63) \<le> i \<and> i < 2 ^ 63"

lemma show_int_i64: "is_i64 i \<Longrightarrow> length (show_int i) \<le> 20"
  using decimal_length_le [of "nat i" 18] decimal_length_le [of "nat (- i)" 18]
  unfolding show_int_def is_i64_def by (auto simp: nat_less_iff)

definition sized :: "mac_display_info \<Rightarrow> bool" where
  "sized d \<longleftrightarrow> is_i64 (md_width d) \<and> is_i64 (md_height d)"

lemma display_json_length: "sized d \<Longrightarrow> length (display_json d) \<le> 95"
  using decimal_u32 [of "md_id d"] show_int_i64 [of "md_width d"] show_int_i64 [of "md_height d"]
  by (simp add: display_json_def sized_def show_bool_def)

lemma joined_length:
  "(\<And>x. x \<in> set xs \<Longrightarrow> length x \<le> n) \<Longrightarrow> length (joined sep xs) \<le> length xs * (n + length sep)"
proof (induction sep xs rule: joined.induct)
  case (3 sep x y xs)
  then have "length (joined sep (y # xs)) \<le> length (y # xs) * (n + length sep)" "length x \<le> n" by auto
  then show ?case by simp
qed auto

lemma displays_json_length:
  assumes "\<forall>d \<in> set ds. sized d"
  shows "length (displays_json ds) \<le> 96 * length ds + 2"
proof -
  have "\<And>x. x \<in> set (map display_json ds) \<Longrightarrow> length x \<le> 95"
    using assms display_json_length by auto
  from joined_length [OF this, of "map display_json ds" "utext '',''"]
  show ?thesis by (simp add: displays_json_def)
qed

section \<open>The text determines the displays\<close>

definition digit :: "nat \<Rightarrow> bool" where
  "digit c \<longleftrightarrow> 48 \<le> c \<and> c \<le> 57"

lemma decimal_span:
  assumes "decimal m @ c # r = decimal n @ c' # r'" "\<not> digit c" "\<not> digit c'"
  shows "m = n \<and> c = c' \<and> r = r'"
proof -
  have span: "takeWhile digit (decimal k @ x # y) = decimal k" if "\<not> digit x" for k x y
    using that decimal_digits [of _ k] by (subst takeWhile_append2) (auto simp: digit_def)
  from assms have "decimal m = decimal n" using span by metis
  with assms(1) show ?thesis by (simp add: decimal_inject)
qed

lemma show_int_span:
  assumes "show_int i @ c # r = show_int j @ c' # r'" "\<not> digit c" "\<not> digit c'"
  shows "i = j \<and> c = c' \<and> r = r'"
proof -
  have nominus: "decimal k @ x \<noteq> 45 # y" for k x y
  proof
    assume h: "decimal k @ x = 45 # y"
    obtain d ds where d: "decimal k = d # ds" by (cases "decimal k") (auto simp: decimal.simps [of k] split: if_splits)
    with h have "45 \<in> set (decimal k)" by simp
    then show False using decimal_digits [of 45 k] by simp
  qed
  show ?thesis
  proof (cases "i < 0"; cases "j < 0")
    assume "i < 0" "j < 0"
    with decimal_span [of "nat (- i)" c r "nat (- j)" c' r'] assms show ?thesis
      by (simp add: show_int_def eq_nat_nat_iff)
  next
    assume "\<not> i < 0" "\<not> j < 0"
    with decimal_span [of "nat i" c r "nat j" c' r'] assms show ?thesis
      by (simp add: show_int_def eq_nat_nat_iff)
  qed (use assms(1) nominus nominus [symmetric] in \<open>simp_all add: show_int_def\<close>)
qed

lemma show_bool_span: "show_bool b @ r = show_bool b' @ r' \<Longrightarrow> b = b' \<and> r = r'"
  by (cases b; cases b') (auto simp: show_bool_def)

lemma display_json_span:
  assumes "display_json d @ r = display_json d' @ r'"
  shows "d = d' \<and> r = r'"
proof -
  let ?w = "drop 1 (utext '',\"width\":'')" and ?h = "drop 1 (utext '',\"height\":'')"
    and ?p = "drop 1 (utext '',\"is_primary\":'')"
  have split: "display_json e @ x = utext ''{\"id\":'' @ decimal (unat (md_id e)) @ 44 # ?w @ show_int (md_width e)
     @ 44 # ?h @ show_int (md_height e) @ 44 # ?p @ show_bool (md_is_primary e) @ 125 # x" for e x
    by (simp add: display_json_def)
  note eq = assms [unfolded split append_same_eq same_append_eq]
  have nodigit: "\<not> digit 44" by (simp add: digit_def)
  note eq1 = decimal_span [OF eq nodigit nodigit]
  note eq2 = show_int_span [OF eq1 [THEN conjunct2, THEN conjunct2, unfolded same_append_eq] nodigit nodigit]
  note eq3 = show_int_span [OF eq2 [THEN conjunct2, THEN conjunct2, unfolded same_append_eq] nodigit nodigit]
  note eq4 = show_bool_span [OF eq3 [THEN conjunct2, THEN conjunct2, unfolded same_append_eq]]
  have "md_id d = md_id d'" using eq1 [THEN conjunct1] by (simp add: word_unat_eq_iff)
  with eq2 [THEN conjunct1] eq3 [THEN conjunct1] eq4 show ?thesis by simp
qed

lemma display_json_start: "\<exists>t. display_json d = 123 # t"
  by (simp add: display_json_def)

text \<open>The list as its separator and its closing bracket cut it.\<close>

fun tail_json :: "mac_display_info list \<Rightarrow> ustring" where
  "tail_json [] = [93]"
| "tail_json (d # ds) = 44 # display_json d @ tail_json ds"

lemma joined_tail: "joined [44] (map display_json (d # ds)) @ [93] = display_json d @ tail_json ds"
  by (induction ds arbitrary: d) simp_all

lemma tail_json_inject: "tail_json ds = tail_json ds' \<Longrightarrow> ds = ds'"
proof (induction ds arbitrary: ds')
  case Nil
  then show ?case by (cases ds') simp_all
next
  case (Cons d ds)
  then obtain e es where e: "ds' = e # es" by (cases ds') simp_all
  with Cons.prems have "display_json d @ tail_json ds = display_json e @ tail_json es" by simp
  from display_json_span [OF this] Cons.IH e show ?case by simp
qed

lemma displays_json_inject: "displays_json ds = displays_json ds' \<longleftrightarrow> ds = ds'"
proof
  have head: "display_json d @ r \<noteq> 93 # r'" for d r r'
    using display_json_start [of d] by auto
  assume "displays_json ds = displays_json ds'"
  then have eq: "joined [44] (map display_json ds) @ [93] = joined [44] (map display_json ds') @ [93]"
    by (simp add: displays_json_def)
  show "ds = ds'"
  proof (cases ds; cases ds')
    fix d es d' es'
    assume ds: "ds = d # es" "ds' = d' # es'"
    with eq have "display_json d @ tail_json es = display_json d' @ tail_json es'"
      by (simp only: joined_tail)
    from display_json_span [OF this] tail_json_inject ds show ?thesis by blast
  next
    fix d es
    assume "ds = d # es" "ds' = []"
    with eq head show ?thesis by (simp only: joined_tail) simp
  next
    fix d es
    assume "ds = []" "ds' = d # es"
    with eq [symmetric] head show ?thesis by (simp only: joined_tail) simp
  qed simp
qed simp

section \<open>What \<open>list_displays\<close> returns\<close>

text \<open>
  The buffer is large enough for what a machine can have. With the parsers reading back the
  text they are given, up to 85 displays of any sizes are listed exactly as ScreenCaptureKit
  reports them, one of them primary at most when their ids differ; and whatever does not fit the buffer
  is lost as a whole, for the buffer is not grown.
\<close>

theorem displays_are_listed:
  assumes "infos = list_displays_sync content primary" "\<forall>d \<in> set infos. sized d"
    and "from_utf8 (map word_of_nat (displays_json infos)) = Some t" "from_json t = Some infos"
  shows "(length infos \<le> 85 \<longrightarrow> mac_list_displays from_utf8 from_json infos = infos)
    \<and> (DISPLAY_BUF < length (displays_json infos) \<longrightarrow> mac_list_displays from_utf8 from_json infos = [])
    \<and> (distinct (map md_id infos) \<longrightarrow> length (filter md_is_primary infos) \<le> 1)
    \<and> (content = None \<longrightarrow> infos = [])"
proof -
  have "length (displays_json infos) \<le> DISPLAY_BUF" if "length infos \<le> 85"
    using displays_json_length [OF assms(2)] that by (simp add: DISPLAY_BUF_def)
  moreover have "length (filter md_is_primary infos) \<le> 1" if "distinct (map md_id infos)"
  proof -
    have "md_is_primary d \<Longrightarrow> md_id d = primary" if "d \<in> set infos" for d
      using that by (auto simp: assms(1) list_displays_sync_def split: option.splits)
    then have "set (map md_id (filter md_is_primary infos)) \<subseteq> {primary}" by auto
    moreover have "distinct (map md_id (filter md_is_primary infos))"
      using that by (rule distinct_map_filter)
    then have "length (map md_id (filter md_is_primary infos)) = card (set (map md_id (filter md_is_primary infos)))"
      by (rule distinct_card [symmetric])
    ultimately show ?thesis using card_mono [of "{primary}"] by simp
  qed
  moreover have "mac_list_displays from_utf8 from_json infos
      = (if DISPLAY_BUF < length (displays_json infos) then [] else infos)"
    using assms(3,4) by (simp add: mac_list_displays_def xz_capturer_list_displays_json_def Let_def)
  moreover have "content = None \<longrightarrow> infos = []" by (simp add: assms(1) list_displays_sync_def)
  ultimately show ?thesis by auto
qed

text \<open>Two displays; the reader knows this one text.\<close>

theorem displays_are_listed_witness:
  "map md_is_primary (mac_list_displays Some
      (\<lambda>t. if t = map word_of_nat (displays_json (list_displays_sync (Some [(1, 2560, 1440), (2, 1920, 1080)]) 1))
           then Some (list_displays_sync (Some [(1, 2560, 1440), (2, 1920, 1080)]) 1) else None)
      (list_displays_sync (Some [(1, 2560, 1440), (2, 1920, 1080)]) 1)) = [True, False]"
proof -
  let ?infos = "list_displays_sync (Some [(1, 2560, 1440), (2, 1920, 1080)]) 1"
  let ?json = "\<lambda>t. if t = map word_of_nat (displays_json ?infos) then Some ?infos else None"
  have "\<forall>d \<in> set ?infos. sized d" by (simp add: list_displays_sync_def sized_def is_i64_def)
  moreover have "?json (map word_of_nat (displays_json ?infos)) = Some ?infos" by simp
  moreover have "length ?infos \<le> 85" by (simp add: list_displays_sync_def)
  ultimately have "mac_list_displays Some ?json ?infos = ?infos"
    using displays_are_listed [where ?from_utf8.0 = Some and from_json = ?json, OF refl] by blast
  then show ?thesis by (simp only:) (simp add: list_displays_sync_def)
qed

end
