(* ===== verification/Mac_Session.thy ===== *)
theory Mac_Session
  imports Mac_Displays
begin

text \<open>
  The class \<open>MacCapturer\<close> of \<open>swift/MacCapturer.swift\<close> and the C functions over the shared instance,
  call by call: the encoder as its size and the properties VideoToolbox has accepted, the
  stream as the configuration and the display ScreenCaptureKit has been given. What the
  frameworks answer is a parameter of every operation. \<open>Mac_Capturer\<close> states the same functions by
  their outcomes; the interpretation \<open>mac\<close> shows that this theory refines it.
\<close>

section \<open>What the frameworks answer\<close>

text \<open>
  A completion handler is waited for up to five seconds: it reports success or an error, or it
  is too late, and then the change may still be made (the flag).
\<close>

datatype reply = Completed | Refused | Late bool

definition thrown :: "reply \<Rightarrow> bool" where
  "thrown r \<longleftrightarrow> r \<noteq> Completed"

definition applied :: "reply \<Rightarrow> bool" where
  "applied r \<longleftrightarrow> r = Completed \<or> r = Late True"

datatype content = NoReply | Content "(u32 \<times> int \<times> int) list option" "string option"

definition fetch_shareable_content :: "content \<Rightarrow> (u32 \<times> int \<times> int) list option" where
  "fetch_shareable_content c =
     (case c of
        NoReply \<Rightarrow> None
      | Content _ (Some e) \<Rightarrow> None
      | Content ds None \<Rightarrow> ds)"

datatype vt_property =
    RealTime | AllowFrameReordering | ProfileLevel | ScreenSourceContentSubtype | AverageBitRate
  | DataRateLimits | ExpectedFrameRate | MaxKeyFrameInterval | MaxKeyFrameIntervalDuration

datatype vt_value = Flag bool | Num int | Level string | Limit int int

type_synonym vt_props = "vt_property \<rightharpoonup> vt_value"

text \<open>\<open>VTSessionSetProperty\<close>: a property that is refused keeps its value.\<close>

definition set_property :: "(vt_property \<Rightarrow> bool) \<Rightarrow> vt_property \<times> vt_value \<Rightarrow> vt_props \<Rightarrow> vt_props" where
  "set_property accepts pv ps = (if accepts (fst pv) then ps(fst pv \<mapsto> snd pv) else ps)"

section \<open>The capturer\<close>

record vt_encoder =
  ve_width :: int
  ve_height :: int
  ve_props :: vt_props

record sc_stream =
  sc_width :: int
  sc_height :: int
  sc_fps :: int
  sc_display :: u32

record mac_session =
  ms_width :: int
  ms_height :: int
  ms_fps :: int
  ms_bitrate :: int
  ms_stream :: "sc_stream option"
  ms_encoder :: "vt_encoder option"
  ms_preferred :: "u32 option"
  ms_display :: u32

definition session_new :: "u32 \<Rightarrow> u32 \<Rightarrow> u32 \<Rightarrow> u32 \<Rightarrow> u32 \<Rightarrow> mac_session" where
  "session_new w h f b d = \<lparr>ms_width = sint w, ms_height = sint h, ms_fps = sint f, ms_bitrate = sint b,
     ms_stream = None, ms_encoder = None, ms_preferred = (if d = 0 then None else Some d), ms_display = 0\<rparr>"

text \<open>Division of Swift's \<open>Int\<close>, which rounds towards zero; the limit is one and a half times the rate, in bytes.\<close>

definition quot :: "int \<Rightarrow> int \<Rightarrow> int" where
  "quot a b = sgn a * (\<bar>a\<bar> div b)"

definition data_limit :: "int \<Rightarrow> int" where
  "data_limit bps = quot (quot bps 8 * 3) 2"

definition encoder_props :: "int \<Rightarrow> int \<Rightarrow> (vt_property \<times> vt_value) list" where
  "encoder_props kbps f =
     [(RealTime, Flag True), (AllowFrameReordering, Flag False), (ProfileLevel, Level ''HEVC_Main_AutoLevel''),
      (ScreenSourceContentSubtype, Flag True), (AverageBitRate, Num (kbps * 1000)),
      (DataRateLimits, Limit (data_limit (kbps * 1000)) 1), (ExpectedFrameRate, Num f),
      (MaxKeyFrameInterval, Num f), (MaxKeyFrameIntervalDuration, Num 1)]"

text \<open>\<open>created\<close> is whether \<open>VTCompressionSessionCreate\<close> gives a session.\<close>

definition make_encoder :: "bool \<Rightarrow> (vt_property \<Rightarrow> bool) \<Rightarrow> mac_session \<Rightarrow> bool \<times> mac_session" where
  "make_encoder created accepts m =
     (if created
      then (True, m\<lparr>ms_encoder := Some \<lparr>ve_width = ms_width m, ve_height = ms_height m,
             ve_props = fold (set_property accepts) (encoder_props (ms_bitrate m) (ms_fps m)) Map.empty\<rparr>\<rparr>)
      else (False, m))"

definition find_display :: "u32 \<Rightarrow> (u32 \<times> int \<times> int) list \<Rightarrow> u32 option" where
  "find_display d ds = map_option fst (find (\<lambda>x. fst x = d) ds)"

definition first_display :: "(u32 \<times> int \<times> int) list \<Rightarrow> u32 option" where
  "first_display ds = (case ds of [] \<Rightarrow> None | x # _ \<Rightarrow> Some (fst x))"

definition pick_display :: "u32 option \<Rightarrow> (u32 \<times> int \<times> int) list \<Rightarrow> u32 option" where
  "pick_display preferred ds =
     (case preferred of
        None \<Rightarrow> first_display ds
      | Some d \<Rightarrow> (case find_display d ds of Some x \<Rightarrow> Some x | None \<Rightarrow> first_display ds))"

definition session_stream :: "mac_session \<Rightarrow> u32 \<Rightarrow> sc_stream" where
  "session_stream m d = \<lparr>sc_width = ms_width m, sc_height = ms_height m, sc_fps = ms_fps m, sc_display = d\<rparr>"

text \<open>\<open>added\<close>: \<open>addStreamOutput\<close> succeeds. The flag of the result is whether the method returns without throwing.\<close>

definition start_capture :: "content \<Rightarrow> bool \<Rightarrow> reply \<Rightarrow> mac_session \<Rightarrow> bool \<times> mac_session" where
  "start_capture c added r m =
     (case fetch_shareable_content c of
        None \<Rightarrow> (False, m)
      | Some ds \<Rightarrow>
          (case pick_display (ms_preferred m) ds of
             None \<Rightarrow> (False, m)
           | Some d \<Rightarrow>
               (let m' = m\<lparr>ms_display := d\<rparr> in
                if \<not> added then (False, m')
                else if thrown r then (False, m')
                else (True, m'\<lparr>ms_stream := Some (session_stream m' d)\<rparr>))))"

definition session_start ::
  "bool \<Rightarrow> (vt_property \<Rightarrow> bool) \<Rightarrow> content \<Rightarrow> bool \<Rightarrow> reply \<Rightarrow> mac_session \<Rightarrow> bool \<times> mac_session" where
  "session_start created accepts c added r m =
     (let (ok, m') = make_encoder created accepts m in
      if ok then start_capture c added r m' else (False, m'))"

definition session_select_display :: "u32 \<Rightarrow> content \<Rightarrow> reply \<Rightarrow> mac_session \<Rightarrow> bool \<times> mac_session" where
  "session_select_display d c r m =
     (case ms_stream m of
        None \<Rightarrow> (False, m)
      | Some st \<Rightarrow>
          (if d = ms_display m then (True, m)
           else case fetch_shareable_content c of
             None \<Rightarrow> (False, m)
           | Some ds \<Rightarrow>
               (if find_display d ds = None then (False, m)
                else
                  let m' = (if applied r then m\<lparr>ms_stream := Some (st\<lparr>sc_display := d\<rparr>)\<rparr> else m) in
                  if thrown r then (False, m') else (True, m'\<lparr>ms_display := d\<rparr>))))"

definition session_set_fps :: "int \<Rightarrow> reply \<Rightarrow> (vt_property \<Rightarrow> bool) \<Rightarrow> mac_session \<Rightarrow> bool \<times> mac_session" where
  "session_set_fps f r accepts m =
     (if f = ms_fps m then (True, m)
      else case ms_stream m of
        None \<Rightarrow> (False, m)
      | Some st \<Rightarrow>
          (let m' = (if applied r then m\<lparr>ms_stream := Some (st\<lparr>sc_width := ms_width m, sc_height := ms_height m,
                 sc_fps := f\<rparr>)\<rparr> else m) in
           if thrown r then (False, m')
           else (True, m'\<lparr>ms_encoder := map_option (ve_props_update
                  (fold (set_property accepts) [(ExpectedFrameRate, Num f), (MaxKeyFrameInterval, Num f)])) (ms_encoder m),
                  ms_fps := f\<rparr>)))"

definition session_set_resolution ::
  "int \<Rightarrow> int \<Rightarrow> reply \<Rightarrow> bool \<Rightarrow> (vt_property \<Rightarrow> bool) \<Rightarrow> mac_session \<Rightarrow> bool \<times> mac_session" where
  "session_set_resolution w h r created accepts m =
     (if w = ms_width m \<and> h = ms_height m then (True, m)
      else case ms_stream m of
        None \<Rightarrow> (False, m)
      | Some st \<Rightarrow>
          (let m' = (if applied r then m\<lparr>ms_stream := Some (st\<lparr>sc_width := w, sc_height := h,
                 sc_fps := ms_fps m\<rparr>)\<rparr> else m) in
           if thrown r then (False, m')
           else make_encoder created accepts (m'\<lparr>ms_encoder := None, ms_width := w, ms_height := h\<rparr>)))"

section \<open>The C functions over the shared capturer\<close>

text \<open>Each call with what the frameworks answer while it runs; the result is the returned code.\<close>

datatype mac_call =
    CStart u32 u32 u32 u32 u32 bool "vt_property \<Rightarrow> bool" content bool reply
  | CSelectDisplay u32 content reply
  | CSetBitrate u32 bool
  | CSetFps u32 reply "vt_property \<Rightarrow> bool"
  | CSetResolution u32 u32 reply bool "vt_property \<Rightarrow> bool"

definition rc_of :: "u32 \<Rightarrow> bool \<times> mac_session \<Rightarrow> u32 \<times> mac_session option" where
  "rc_of e res = (if fst res then 0 else e, Some (snd res))"

fun c_call :: "mac_call \<Rightarrow> mac_session option \<Rightarrow> u32 \<times> mac_session option" where
  "c_call (CStart w h f b d created accepts c added r) s =
     (let (ok, m) = session_start created accepts c added r (session_new w h f b d) in
      if ok then (0, Some m) else (1, s))"
| "c_call _ None = (1, None)"
| "c_call (CSelectDisplay d c r) (Some m) = rc_of 2 (session_select_display d c r m)"
| "c_call (CSetBitrate kbps accepted) (Some m) =
     (case ms_encoder m of
        None \<Rightarrow> (1, Some m)
      | Some e \<Rightarrow>
          (let k = clamp 100 100000 (sint kbps) in
           if accepted
           then (0, Some (m\<lparr>ms_encoder := Some (e\<lparr>ve_props := (ve_props e)(AverageBitRate \<mapsto> Num (k * 1000))\<rparr>),
                  ms_bitrate := k\<rparr>))
           else (2, Some m)))"
| "c_call (CSetFps f r accepts) (Some m) = rc_of 2 (session_set_fps (clamp 5 120 (sint f)) r accepts m)"
| "c_call (CSetResolution w h r created accepts) (Some m) =
     rc_of 2 (session_set_resolution (clamp 160 7680 (sint w)) (clamp 120 4320 (sint h)) r created accepts m)"

definition mac_step :: "mac_call \<Rightarrow> mac_session option \<Rightarrow> mac_session option" where
  "mac_step e s = snd (c_call e s)"

section \<open>A frame\<close>

text \<open>
  An encoded sample: the data buffer with the bytes that lie behind its pointer and its total
  length, the attachments of the first entries (\<open>DependsOnOthers\<close>, if it is a Boolean), and the
  parameter sets of the format, some of which VideoToolbox may not hand out.
\<close>

record block_buffer =
  bb_pointer :: bool
  bb_bytes :: bytes
  bb_total :: nat

record cm_sample =
  cm_ready :: bool
  cm_block :: "block_buffer option"
  cm_attachments :: "bool option list option"
  cm_format :: "bytes option list option"

definition cm_is_keyframe :: "cm_sample \<Rightarrow> bool" where
  "cm_is_keyframe smp = (case cm_attachments smp of Some (Some depends # _) \<Rightarrow> \<not> depends | _ \<Rightarrow> False)"

definition parameter_sets :: "cm_sample \<Rightarrow> bytes list" where
  "parameter_sets smp = (case cm_format smp of None \<Rightarrow> [] | Some ps \<Rightarrow> map the (filter (\<lambda>p. p \<noteq> None) ps))"

text \<open>
  The messages handed to the callback; \<open>None\<close> when the buffer is in pieces, for the code reads
  its total length from a pointer to the first piece.
\<close>

definition handle_encoded :: "(nat \<Rightarrow> u64) \<Rightarrow> cm_sample \<Rightarrow> bytes list option" where
  "handle_encoded wall smp =
     (if \<not> cm_ready smp then Some []
      else case cm_block smp of
        None \<Rightarrow> Some []
      | Some b \<Rightarrow>
          (if \<not> bb_pointer b then Some []
           else if bb_total b \<noteq> length (bb_bytes b) then None
           else Some (mac_messages wall (cm_is_keyframe smp) (parameter_sets smp) (bb_bytes b))))"

text \<open>
  \<open>stream(_:didOutputSampleBuffer:of:)\<close>: \<open>usable\<close> is whether it is a valid screen sample with an
  image, \<open>encoded\<close> the sample VideoToolbox makes of it, if it does.
\<close>

definition did_output :: "(nat \<Rightarrow> u64) \<Rightarrow> bool \<Rightarrow> cm_sample option \<Rightarrow> mac_session \<Rightarrow> bytes list option" where
  "did_output wall usable encoded m =
     (if \<not> usable then Some []
      else if ms_encoder m = None then Some []
      else case encoded of None \<Rightarrow> Some [] | Some smp \<Rightarrow> handle_encoded wall smp)"

text \<open>
  The life of a capturer: calls of the C functions and frames, in the order in which they happen. A
  new start that succeeds releases the capturer, so that it sends nothing more; the boxed sender of
  its channel stays allocated, so that the old receiver is not told and goes on waiting.
\<close>

datatype mac_event = Call mac_call | Frame "nat \<Rightarrow> u64" bool "cm_sample option"

fun is_start :: "mac_call \<Rightarrow> bool" where
  "is_start (CStart w h f b d created accepts c added r) = True"
| "is_start _ = False"

fun session_run :: "mac_event list \<Rightarrow> mac_session \<Rightarrow> bytes list option" where
  "session_run [] m = Some []"
| "session_run (Call e # es) m =
     (case c_call e (Some m) of
        (rc, None) \<Rightarrow> Some []
      | (rc, Some m') \<Rightarrow> if is_start e \<and> rc = 0 then Some [] else session_run es m')"
| "session_run (Frame wall usable encoded # es) m =
     (case did_output wall usable encoded m of
        None \<Rightarrow> None
      | Some msgs \<Rightarrow> map_option ((@) msgs) (session_run es m))"

text \<open>The callback on every message in turn, while the receiver is alive.\<close>

lemma on_nal_messages:
  assumes "\<forall>d \<in> set msgs. d \<noteq> []"
  shows "fold (\<lambda>d. on_nal False (Some d) pts True) msgs chan
    = chan @ map (\<lambda>d. \<lparr>nal_data = d, nal_pts_us = pts\<rparr>) msgs"
  using assms by (induction msgs arbitrary: chan) (simp_all add: on_nal_def)

section \<open>The outcomes are those of the detailed calls\<close>

definition abs_session :: "mac_session \<Rightarrow> mac_capturer" where
  "abs_session m = \<lparr>mac_width = ms_width m, mac_height = ms_height m, mac_fps = ms_fps m,
     mac_bitrate = ms_bitrate m, mac_display = ms_display m, mac_has_encoder = (ms_encoder m \<noteq> None)\<rparr>"

definition start_outcome :: "u32 \<Rightarrow> bool \<Rightarrow> content \<Rightarrow> bool \<Rightarrow> reply \<Rightarrow> u32 option" where
  "start_outcome d created c added r =
     (if created \<and> added \<and> r = Completed
      then Option.bind (fetch_shareable_content c) (pick_display (if d = 0 then None else Some d))
      else None)"

definition resize_outcome :: "reply \<Rightarrow> bool \<Rightarrow> resize" where
  "resize_outcome r created =
     (if r \<noteq> Completed then StreamRefused else if created then Resized else EncoderRefused)"

fun a_call :: "mac_call \<Rightarrow> mac_capturer option \<Rightarrow> u32 \<times> mac_capturer option" where
  "a_call (CStart w h f b d created accepts c added r) s = xz_capturer_start w h f b (start_outcome d created c added r) s"
| "a_call (CSelectDisplay d c r) s =
     xz_capturer_select_display d (Option.bind (fetch_shareable_content c) (find_display d) \<noteq> None \<and> r = Completed) s"
| "a_call (CSetBitrate kbps accepted) s = xz_capturer_set_bitrate kbps accepted s"
| "a_call (CSetFps f r accepts) s = xz_capturer_set_fps f (r = Completed) s"
| "a_call (CSetResolution w h r created accepts) s = xz_capturer_set_resolution w h (resize_outcome r created) s"

text \<open>A shared capturer has a stream, and its encoder has its size.\<close>

definition mac_ok :: "mac_session option \<Rightarrow> bool" where
  "mac_ok s \<longleftrightarrow> (\<forall>m. s = Some m \<longrightarrow> ms_stream m \<noteq> None
     \<and> (\<forall>e. ms_encoder m = Some e \<longrightarrow> ve_width e = ms_width m \<and> ve_height e = ms_height m))"

text \<open>The session that a successful start leaves.\<close>

definition started_session ::
  "u32 \<Rightarrow> u32 \<Rightarrow> u32 \<Rightarrow> u32 \<Rightarrow> u32 \<Rightarrow> (vt_property \<Rightarrow> bool) \<Rightarrow> u32 \<Rightarrow> mac_session" where
  "started_session w h f b d accepts x =
     (let m = (snd (make_encoder True accepts (session_new w h f b d)))\<lparr>ms_display := x\<rparr> in
      m\<lparr>ms_stream := Some (session_stream m x)\<rparr>)"

lemma start_eq:
  "c_call (CStart w h f b d created accepts c added r) s =
     (case start_outcome d created c added r of
        None \<Rightarrow> (1, s)
      | Some x \<Rightarrow> (0, Some (started_session w h f b d accepts x)))"
  by (cases created; cases "fetch_shareable_content c"; cases added; cases "r = Completed")
    (simp_all add: session_start_def start_capture_def make_encoder_def session_new_def started_session_def
      start_outcome_def thrown_def Let_def split: option.splits)

lemma started_session_simps [simp]:
  "ms_width (started_session w h f b d accepts x) = sint w" "ms_height (started_session w h f b d accepts x) = sint h"
  "ms_fps (started_session w h f b d accepts x) = sint f" "ms_bitrate (started_session w h f b d accepts x) = sint b"
  "ms_display (started_session w h f b d accepts x) = x"
  "ms_stream (started_session w h f b d accepts x) =
     Some \<lparr>sc_width = sint w, sc_height = sint h, sc_fps = sint f, sc_display = x\<rparr>"
  "ms_encoder (started_session w h f b d accepts x) = Some \<lparr>ve_width = sint w, ve_height = sint h,
     ve_props = fold (set_property accepts) (encoder_props (sint b) (sint f)) Map.empty\<rparr>"
  by (simp_all add: started_session_def make_encoder_def session_new_def session_stream_def Let_def)

declare c_call.simps(1) [simp del]

lemma c_call_ok: "mac_ok s \<Longrightarrow> mac_ok (snd (c_call e s))"
proof (induction e s rule: c_call.induct)
  case (1 w h f b d created accepts c added r s)
  then show ?case by (cases "start_outcome d created c added r") (simp_all add: start_eq mac_ok_def)
next
  case (3 d c r m)
  then show ?case
    by (auto simp: mac_ok_def session_select_display_def rc_of_def Let_def split: option.splits if_splits)
next
  case (4 kbps accepted m)
  then show ?case by (cases "ms_encoder m") (auto simp: mac_ok_def Let_def)
next
  case (5 f r accepts m)
  then show ?case by (cases "ms_encoder m") (auto simp: mac_ok_def session_set_fps_def rc_of_def Let_def split: if_splits)
next
  case (6 w h r created accepts m)
  then show ?case
    by (auto simp: mac_ok_def session_set_resolution_def make_encoder_def rc_of_def thrown_def applied_def Let_def split: if_splits)
qed simp_all

lemma c_call_abs:
  assumes "mac_ok s"
  shows "map_prod id (map_option abs_session) (c_call e s) = a_call e (map_option abs_session s)"
  using assms
proof (induction e s rule: c_call.induct)
  case (1 w h f b d created accepts c added r s)
  then show ?case
    by (cases "start_outcome d created c added r") (simp_all add: start_eq xz_capturer_start_def abs_session_def)
next
  case (3 d c r m)
  then show ?case
    by (cases "fetch_shareable_content c")
      (auto simp: mac_ok_def session_select_display_def rc_of_def xz_capturer_select_display_def abs_session_def
        thrown_def Let_def split: if_splits)
next
  case (4 kbps accepted m)
  then show ?case by (cases "ms_encoder m") (auto simp: xz_capturer_set_bitrate_def abs_session_def Let_def)
next
  case (5 f r accepts m)
  then show ?case
    by (cases "ms_encoder m")
      (auto simp: mac_ok_def session_set_fps_def rc_of_def xz_capturer_set_fps_def abs_session_def thrown_def Let_def split: if_splits)
next
  case (6 w h r created accepts m)
  then show ?case
    by (auto simp: mac_ok_def session_set_resolution_def make_encoder_def rc_of_def xz_capturer_set_resolution_def
        resize_outcome_def abs_session_def thrown_def applied_def Let_def split: if_splits)
qed (simp_all add: xz_capturer_select_display_def xz_capturer_set_bitrate_def xz_capturer_set_fps_def
    xz_capturer_set_resolution_def)

definition a_step :: "mac_call \<Rightarrow> mac_capturer option \<Rightarrow> mac_capturer option" where
  "a_step e s = snd (a_call e s)"

interpretation mac: event_refinement mac_step mac_ok a_step "map_option abs_session"
proof
  show "mac_ok (mac_step e s)" if "mac_ok s" for s e using c_call_ok [OF that] by (simp add: mac_step_def)
  show "map_option abs_session (mac_step e s) = a_step e (map_option abs_session s)" if "mac_ok s" for s e
    using arg_cong [OF c_call_abs [OF that, of e], where f = snd] by (simp add: mac_step_def a_step_def)
qed

lemma mac_ok_reached: "mac_ok (fold mac_step es None)"
  by (rule mac.run_ok) (simp add: mac_ok_def)

text \<open>What every call of a kind keeps is kept by any number of them.\<close>

lemma calls_keep:
  assumes "\<And>e s. Q e \<Longrightarrow> P s \<Longrightarrow> P (snd (c_call e s))" "\<forall>e \<in> set es. Q e" "P s"
  shows "P (fold mac_step es s)"
  by (rule fold_invariant [where Q = Q]) (use assms in \<open>simp_all add: mac_step_def\<close>)

section \<open>Properties\<close>

text \<open>
  C31. The C functions of \<open>Mac_Capturer\<close> are what the Swift code does: after any calls, from a
  process without a capturer, with any answers of the frameworks, in time or too late, the next
  call returns the same code and leaves the same reported size, rates and display.
\<close>

theorem mac_calls_refine:
  "map_prod id (map_option abs_session) (c_call e (fold mac_step es None)) = a_call e (fold a_step es None)"
proof -
  have "map_option abs_session (fold mac_step es None) = fold a_step es None"
    using mac.run_abs [of None es] by (simp add: mac_ok_def)
  then show ?thesis using c_call_abs [OF mac_ok_reached, of e es] by simp
qed

text \<open>
  The settings the getters report are the settings in force: those of the stream, and those of
  the encoder if there is one.
\<close>

definition in_force :: "mac_session option \<Rightarrow> bool" where
  "in_force s \<longleftrightarrow> (\<forall>m. s = Some m \<longrightarrow> ms_stream m = Some (session_stream m (ms_display m))
     \<and> (\<forall>e. ms_encoder m = Some e \<longrightarrow> ve_width e = ms_width m \<and> ve_height e = ms_height m
         \<and> ve_props e AverageBitRate = Some (Num (ms_bitrate m * 1000))
         \<and> ve_props e ExpectedFrameRate = Some (Num (ms_fps m))
         \<and> ve_props e MaxKeyFrameInterval = Some (Num (ms_fps m))))"

text \<open>No change is made after the time is up, and VideoToolbox takes every property.\<close>

fun in_time :: "mac_call \<Rightarrow> bool" where
  "in_time (CStart w h f b d created accepts c added r) \<longleftrightarrow> (\<forall>p. accepts p)"
| "in_time (CSelectDisplay d c r) \<longleftrightarrow> r \<noteq> Late True"
| "in_time (CSetBitrate kbps accepted) \<longleftrightarrow> True"
| "in_time (CSetFps f r accepts) \<longleftrightarrow> r \<noteq> Late True \<and> (\<forall>p. accepts p)"
| "in_time (CSetResolution w h r created accepts) \<longleftrightarrow> r \<noteq> Late True \<and> (\<forall>p. accepts p)"

lemma set_property_all: "(\<And>p. accepts p) \<Longrightarrow> set_property accepts pv ps = ps(fst pv \<mapsto> snd pv)"
  by (simp add: set_property_def)

lemma in_force_step: "in_time e \<Longrightarrow> in_force s \<Longrightarrow> in_force (snd (c_call e s))"
proof (induction e s rule: c_call.induct)
  case (1 w h f b d created accepts c added r s)
  then show ?case
    by (cases "start_outcome d created c added r")
      (simp_all add: start_eq in_force_def session_stream_def encoder_props_def set_property_all)
next
  case (3 d c r m)
  then show ?case
    by (cases r) (auto simp: in_force_def session_select_display_def session_stream_def rc_of_def thrown_def
        applied_def Let_def split: option.splits)
next
  case (4 kbps accepted m)
  then show ?case
    by (cases "ms_encoder m") (auto simp: in_force_def session_stream_def Let_def)
next
  case (5 f r accepts m)
  then show ?case
    by (cases r) (auto simp: in_force_def session_set_fps_def session_stream_def rc_of_def thrown_def
        applied_def set_property_all Let_def)
next
  case (6 w h r created accepts m)
  then show ?case
    by (cases r) (auto simp: in_force_def session_set_resolution_def make_encoder_def encoder_props_def
        session_stream_def rc_of_def thrown_def applied_def set_property_all Let_def)
qed simp_all

text \<open>
  C32. What the getters report is in force. Start, the switch of the display and the three setters
  may come in any order and may fail as they like: as long as ScreenCaptureKit changes nothing
  after its five seconds are up and VideoToolbox takes the properties, the stream has the
  reported size, frame rate and display, and the encoder, unless the last rebuild failed, has the
  reported size, bit rate and frame rate.
\<close>

theorem mac_settings_in_force:
  assumes "\<forall>e \<in> set es. in_time e"
  shows "in_force (fold mac_step es None)"
proof (rule calls_keep [where P = in_force, OF in_force_step assms])
  show "in_force None" by (simp add: in_force_def)
qed

text \<open>The calls that leave the encoder session in place.\<close>

fun tunes :: "mac_call \<Rightarrow> bool" where
  "tunes (CStart w h f b d created accepts c added r) = False"
| "tunes (CSetResolution w h r created accepts) = False"
| "tunes _ = True"

definition rates :: "int \<Rightarrow> mac_session option \<Rightarrow> bool" where
  "rates limit s \<longleftrightarrow> (\<exists>m e. s = Some m \<and> ms_encoder m = Some e
     \<and> ve_props e DataRateLimits = Some (Limit limit 1)
     \<and> ve_props e AverageBitRate = Some (Num (ms_bitrate m * 1000)))"

lemma rates_step:
  assumes "tunes e" "rates l s"
  shows "rates l (snd (c_call e s))"
  using assms
proof (induction e s rule: c_call.induct)
  case (3 d c r m)
  then show ?case
    by (cases r) (auto simp: rates_def session_select_display_def rc_of_def thrown_def applied_def Let_def
        split: option.splits)
next
  case (5 f r accepts m)
  then show ?case
    by (cases r) (auto simp: rates_def session_set_fps_def rc_of_def thrown_def applied_def set_property_def Let_def
        split: option.splits)
qed (auto simp: rates_def Let_def)

text \<open>
  C33. A bit rate that is raised while the capturer runs does not take effect. \<open>set_bitrate\<close> changes
  the average rate but not the limit on the data of one second, which was set to one and a half
  times the rate at the last build of the encoder. However the capturer is tuned after a
  start, the limit stays where the start put it, and a rate of more than one and a half times the
  first one is reported, set as the average, and above the limit.
\<close>

theorem mac_bitrate_capped:
  assumes "c_call (CStart w h f b d created accepts c added r) s = (0, Some m0)" "\<forall>p. accepts p"
    and "\<forall>e \<in> set es. tunes e" "fold mac_step es (Some m0) = Some m"
  shows "\<exists>e limit. ms_encoder m = Some e \<and> ve_props e DataRateLimits = Some (Limit limit 1)
    \<and> limit = data_limit (sint b * 1000) \<and> ve_props e AverageBitRate = Some (Num (ms_bitrate m * 1000))
    \<and> (0 \<le> sint b \<and> 3 * sint b < 2 * ms_bitrate m \<longrightarrow> 8 * limit < ms_bitrate m * 1000)"
proof -
  let ?l = "data_limit (sint b * 1000)"
  have "rates ?l (Some m0)"
    using assms(1,2) by (auto simp: start_eq rates_def encoder_props_def set_property_all split: option.splits)
  then have "rates ?l (fold mac_step es (Some m0))" by (rule calls_keep [where Q = tunes, rotated 2]) (use assms(3) rates_step in blast)+
  then obtain e where e: "ms_encoder m = Some e" "ve_props e DataRateLimits = Some (Limit ?l 1)"
    "ve_props e AverageBitRate = Some (Num (ms_bitrate m * 1000))"
    by (auto simp: assms(4) rates_def)
  have "8 * ?l < ms_bitrate m * 1000" if "0 \<le> sint b" "3 * sint b < 2 * ms_bitrate m"
  proof -
    have "?l = sint b * 375 div 2"
      using that(1) by (cases "sint b = 0") (simp_all add: data_limit_def quot_def sgn_if)
    then show ?thesis using that by linarith
  qed
  with e show ?thesis by blast
qed

definition down :: "int \<Rightarrow> int \<Rightarrow> mac_session option \<Rightarrow> bool" where
  "down w h s \<longleftrightarrow> (\<exists>m. s = Some m \<and> ms_encoder m = None \<and> ms_width m = w \<and> ms_height m = h)"

fun leaves_down :: "int \<Rightarrow> int \<Rightarrow> mac_call \<Rightarrow> bool" where
  "leaves_down w h (CStart w' h' f b d created accepts c added r) \<longleftrightarrow> False"
| "leaves_down w h (CSetResolution w' h' r created accepts) \<longleftrightarrow>
     clamp 160 7680 (sint w') = w \<and> clamp 120 4320 (sint h') = h"
| "leaves_down w h _ \<longleftrightarrow> True"

lemma down_step:
  assumes "leaves_down w h e" "down w h s"
  shows "down w h (snd (c_call e s))"
  using assms
proof (induction e s rule: c_call.induct)
  case (3 d c r m)
  then show ?case
    by (cases r) (auto simp: down_def session_select_display_def rc_of_def thrown_def applied_def Let_def
        split: option.splits)
next
  case (5 f r accepts m)
  then show ?case
    by (cases r) (auto simp: down_def session_set_fps_def rc_of_def thrown_def applied_def Let_def
        split: option.splits)
next
  case (6 w h r created accepts m)
  then show ?case by (auto simp: down_def session_set_resolution_def rc_of_def)
qed (auto simp: down_def)

text \<open>
  C34. A resize whose encoder cannot be built silences the capturer. It is reported as failed, but
  the new size is stored and the old encoder gone: from then on no frame is sent, asking for the same size
  again succeeds without building anything, and setting the bit rate is answered \<open>capturer not
  started\<close>, whatever else is called and answered, until a resize to another size or a new start.
\<close>

theorem mac_failed_resize_silences:
  assumes "c_call (CSetResolution w h Completed created accepts) (Some m0) = (2, s)" "mac_ok (Some m0)"
    and "\<forall>e \<in> set es. leaves_down (clamp 160 7680 (sint w)) (clamp 120 4320 (sint h)) e"
    and "fold mac_step es s = Some m"
  shows "did_output wall usable encoded m = Some []
    \<and> c_call (CSetResolution w h r created' accepts') (Some m) = (0, Some m)
    \<and> rc_result ''set_bitrate failed'' (fst (c_call (CSetBitrate k accepted) (Some m))) = Inl ''capturer not started''"
proof -
  let ?w = "clamp 160 7680 (sint w)" and ?h = "clamp 120 4320 (sint h)"
  have "down ?w ?h s"
    using assms(1,2)
    by (auto simp: mac_ok_def down_def session_set_resolution_def make_encoder_def rc_of_def thrown_def Let_def
        split: option.splits if_splits)
  then have "down ?w ?h (fold mac_step es s)" by (rule calls_keep [where Q = "leaves_down (clamp 160 7680 (sint w)) (clamp 120 4320 (sint h))", rotated 2])
      (use assms(3) down_step in blast)+
  then have "ms_encoder m = None" "ms_width m = ?w" "ms_height m = ?h" by (simp_all add: assms(4) down_def)
  then show ?thesis by (simp add: did_output_def session_set_resolution_def rc_of_def rc_result_def)
qed

section \<open>Witnesses\<close>

text \<open>A start on display 5 at 4 Mbit/s, with every answer in time.\<close>

definition demo_start :: mac_call where
  "demo_start = CStart 1920 1080 30 4000 0 True (\<lambda>_. True) (Content (Some [(5, 2560, 1440)]) None) True Completed"

definition demo_mac :: mac_session where
  "demo_mac = started_session 1920 1080 30 4000 0 (\<lambda>_. True) 5"

lemma demo_mac_starts: "c_call demo_start s = (0, Some demo_mac)"
  by (simp add: demo_start_def demo_mac_def start_eq start_outcome_def fetch_shareable_content_def pick_display_def
      first_display_def)

theorem mac_settings_in_force_witness:
  "\<exists>m. fold mac_step [demo_start, CSetFps 60 Completed (\<lambda>_. True), CSetResolution 1280 720 Refused True (\<lambda>_. True)] None
      = Some m \<and> ms_fps m = 60 \<and> ms_width m = 1920
    \<and> ms_stream m = Some \<lparr>sc_width = 1920, sc_height = 1080, sc_fps = 60, sc_display = 5\<rparr>"
proof -
  let ?es = "[demo_start, CSetFps 60 Completed (\<lambda>_. True), CSetResolution 1280 720 Refused True (\<lambda>_. True)]"
  have "in_force (fold mac_step ?es None)"
    by (rule mac_settings_in_force) (simp add: demo_start_def)
  moreover have "\<exists>m. fold mac_step ?es None = Some m \<and> ms_fps m = 60 \<and> ms_width m = 1920 \<and> ms_height m = 1080
      \<and> ms_display m = 5"
    by (simp add: mac_step_def demo_mac_starts)
      (simp add: demo_mac_def session_set_fps_def session_set_resolution_def rc_of_def thrown_def applied_def clamp_def)
  ultimately show ?thesis by (auto simp: in_force_def session_stream_def)
qed

theorem mac_bitrate_capped_witness:
  "\<exists>m e. fold mac_step [CSetBitrate 20000 True] (Some demo_mac) = Some m \<and> ms_bitrate m = 20000
    \<and> ms_encoder m = Some e \<and> ve_props e DataRateLimits = Some (Limit 750000 1)"
proof -
  obtain m where m: "fold mac_step [CSetBitrate 20000 True] (Some demo_mac) = Some m" "ms_bitrate m = 20000"
    by (simp add: mac_step_def demo_mac_def clamp_def)
  have "\<exists>e limit. ms_encoder m = Some e \<and> ve_props e DataRateLimits = Some (Limit limit 1)
      \<and> limit = data_limit (sint (4000 :: u32) * 1000) \<and> ve_props e AverageBitRate = Some (Num (ms_bitrate m * 1000))
      \<and> (0 \<le> sint (4000 :: u32) \<and> 3 * sint (4000 :: u32) < 2 * ms_bitrate m \<longrightarrow> 8 * limit < ms_bitrate m * 1000)"
    by (rule mac_bitrate_capped [OF demo_mac_starts [unfolded demo_start_def] _ _ m(1)]) simp_all
  with m show ?thesis by (auto simp: data_limit_def quot_def)
qed

theorem mac_failed_resize_silences_witness:
  "\<exists>m. fold mac_step [CSetResolution 1280 720 Completed False (\<lambda>_. True), CSetFps 60 Completed (\<lambda>_. True)]
      (Some demo_mac) = Some m
    \<and> did_output (\<lambda>_. 0) True None m = Some []
    \<and> fst (c_call (CSetResolution 1280 720 Completed True (\<lambda>_. True)) (Some m)) = 0"
proof -
  let ?s = "Some (demo_mac\<lparr>ms_stream := Some \<lparr>sc_width = 1280, sc_height = 720, sc_fps = 30, sc_display = 5\<rparr>,
    ms_encoder := None, ms_width := 1280, ms_height := 720\<rparr>)"
  have f: "c_call (CSetResolution 1280 720 Completed False (\<lambda>_. True)) (Some demo_mac) = (2, ?s)"
    by (simp add: demo_mac_def session_set_resolution_def make_encoder_def rc_of_def thrown_def applied_def clamp_def)
  have ok: "mac_ok (Some demo_mac)" by (simp add: mac_ok_def demo_mac_def)
  obtain m where m: "fold mac_step [CSetFps 60 Completed (\<lambda>_. True)] ?s = Some m"
    by (simp add: mac_step_def demo_mac_def session_set_fps_def rc_of_def thrown_def applied_def clamp_def)
  have "did_output (\<lambda>_. 0) True None m = Some []
      \<and> c_call (CSetResolution 1280 720 Completed True (\<lambda>_. True)) (Some m) = (0, Some m)
      \<and> rc_result ''set_bitrate failed'' (fst (c_call (CSetBitrate 8000 True) (Some m))) = Inl ''capturer not started''"
    by (rule mac_failed_resize_silences [OF f ok _ m]) simp
  with m f show ?thesis by (simp add: mac_step_def)
qed

end
