(* ===== verification/Mac_Build.thy ===== *)
theory Mac_Build
  imports Relay_Prelude
begin

text \<open>
  The build script of the macOS capturer, \<open>crates/mac-capturer/build.rs\<close>: from cargo's environment
  to the command line of the Swift compiler and the link directives printed for cargo.
  Running the compiler is a parameter: \<open>None\<close> if it cannot be run, else whether it succeeds.
\<close>

text \<open>\<open>Path::join\<close> with a relative second path.\<close>

definition path_join :: "string \<Rightarrow> string \<Rightarrow> string" where
  "path_join p q = (if p = [] then q else if last p = CHR ''/'' then p @ q else p @ ''/'' @ q)"

definition swift_arch :: "string \<Rightarrow> string" where
  "swift_arch arch = (if arch = ''aarch64'' then ''arm64'' else arch)"

definition swift_target :: "string \<Rightarrow> string" where
  "swift_target arch = swift_arch arch @ ''-apple-macos12.3''"

definition swiftc_args :: "string \<Rightarrow> string \<Rightarrow> string \<Rightarrow> string list" where
  "swiftc_args arch manifest out_dir =
     [''-emit-library'', ''-static'', ''-parse-as-library'', ''-O'', ''-target'', swift_target arch,
      ''-module-name'', ''MacCapturer'', ''-runtime-compatibility-version'', ''none'',
      ''-Xfrontend'', ''-disable-autolink-framework'', ''-Xfrontend'', ''CoreAudioTypes'',
      ''-emit-module'', ''-emit-module-path'', path_join out_dir ''MacCapturer.swiftmodule'',
      ''-o'', path_join out_dir ''libMacCapturer.a'',
      path_join (path_join manifest ''swift'') ''MacCapturer.swift'']"

definition frameworks :: "string list" where
  "frameworks = [''ScreenCaptureKit'', ''VideoToolbox'', ''CoreMedia'', ''CoreVideo'', ''Foundation'',
     ''CoreFoundation'', ''AVFoundation'', ''CoreGraphics'']"

definition link_directives :: "string \<Rightarrow> string list" where
  "link_directives out_dir =
     [''cargo:rustc-link-search=native='' @ out_dir, ''cargo:rustc-link-lib=static=MacCapturer'']
     @ map (\<lambda>fw. ''cargo:rustc-link-lib=framework='' @ fw) frameworks
     @ [''cargo:rustc-link-arg=-L/usr/lib/swift'', ''cargo:rustc-link-arg=-Wl,-rpath,/usr/lib/swift'']
     @ map (\<lambda>l. ''cargo:rustc-link-lib=dylib='' @ l) [''swiftCore'', ''swiftFoundation'', ''swiftDispatch'']"

text \<open>What the script does: the compiler command it runs, if it gets so far, what it prints, and whether it panics.\<close>

record build =
  command :: "string list option"
  printed :: "string list"
  panic :: "string option"

definition build_main :: "(string \<rightharpoonup> string) \<Rightarrow> (string list \<Rightarrow> bool option) \<Rightarrow> build" where
  "build_main env swiftc =
     (if (case env ''CARGO_CFG_TARGET_OS'' of None \<Rightarrow> [] | Some os \<Rightarrow> os) \<noteq> ''macos''
      then \<lparr>command = None, printed = [], panic = None\<rparr>
      else case (env ''CARGO_MANIFEST_DIR'', env ''OUT_DIR'') of
        (Some manifest, Some out_dir) \<Rightarrow>
          (let arch = (case env ''CARGO_CFG_TARGET_ARCH'' of None \<Rightarrow> ''aarch64'' | Some a \<Rightarrow> a);
               args = swiftc_args arch manifest out_dir;
               changed = ''cargo:rerun-if-changed='' @ path_join (path_join manifest ''swift'') ''MacCapturer.swift'' in
           case swiftc args of
             None \<Rightarrow> \<lparr>command = Some args, printed = [changed], panic = Some ''run swiftc''\<rparr>
           | Some False \<Rightarrow> \<lparr>command = Some args, printed = [changed], panic = Some ''swiftc failed''\<rparr>
           | Some True \<Rightarrow>
               \<lparr>command = Some args, printed = changed # link_directives out_dir, panic = None\<rparr>)
      | _ \<Rightarrow> \<lparr>command = None, printed = [], panic = Some ''unwrap''\<rparr>)"

text \<open>
  The script links what it has built: when it ends without a panic on macOS, the file the
  compiler was told to write is the static library the linker looks for, under the name and
  in the directory printed for it; on any other system it prints nothing and runs nothing,
  so the crate builds without a Swift compiler.
\<close>

theorem build_links_what_it_built:
  assumes "build_main env swiftc = \<lparr>command = cmd, printed = out, panic = None\<rparr>"
  shows "if env ''CARGO_CFG_TARGET_OS'' = Some ''macos''
    then \<exists>dir args before after. cmd = Some args \<and> swiftc args = Some True
      \<and> args = before @ [''-o'', path_join dir ''libMacCapturer.a''] @ after
      \<and> ''cargo:rustc-link-search=native='' @ dir \<in> set out
      \<and> ''cargo:rustc-link-lib=static=MacCapturer'' \<in> set out
    else cmd = None \<and> out = []"
proof (cases "env ''CARGO_CFG_TARGET_OS'' = Some ''macos''")
  case True
  then obtain manifest dir where dirs: "env ''CARGO_MANIFEST_DIR'' = Some manifest" "env ''OUT_DIR'' = Some dir"
    using assms by (auto simp: build_main_def split: option.splits)
  let ?arch = "case env ''CARGO_CFG_TARGET_ARCH'' of None \<Rightarrow> ''aarch64'' | Some a \<Rightarrow> a"
  let ?args = "swiftc_args ?arch manifest dir"
  have "swiftc ?args = Some True" "cmd = Some ?args" "set (link_directives dir) \<subseteq> set out"
    using assms True by (auto simp: build_main_def dirs Let_def split: option.splits bool.splits)
  moreover have "?args = take 17 ?args @ [''-o'', path_join dir ''libMacCapturer.a''] @ drop 19 ?args"
    by (simp add: swiftc_args_def)
  moreover have "''cargo:rustc-link-search=native='' @ dir \<in> set (link_directives dir)"
    "''cargo:rustc-link-lib=static=MacCapturer'' \<in> set (link_directives dir)"
    by (simp_all add: link_directives_def)
  ultimately have "cmd = Some ?args \<and> swiftc ?args = Some True
      \<and> ?args = take 17 ?args @ [''-o'', path_join dir ''libMacCapturer.a''] @ drop 19 ?args
      \<and> ''cargo:rustc-link-search=native='' @ dir \<in> set out
      \<and> ''cargo:rustc-link-lib=static=MacCapturer'' \<in> set out" by blast
  then show ?thesis using True by (simp only: simp_thms if_True) blast
next
  case False
  with assms show ?thesis
    by (cases "env ''CARGO_CFG_TARGET_OS''") (simp_all add: build_main_def)
qed

end
