(* ===== verification/Proto_Build.thy ===== *)
theory Proto_Build
  imports Mac_Build
begin

text \<open>
  The build script of the wire protocol, \<open>crates/proto/build.rs\<close>: it compiles \<open>rendezvous.proto\<close> with
  the directory of that file as the only include path, and generates the message types. The
  compiler of the schema and the generator are parameters.
\<close>

text \<open>What is printed for cargo, and the panic, if any.\<close>

definition proto_build_main ::
  "string \<Rightarrow> (string list \<Rightarrow> string list \<Rightarrow> 'fds option) \<Rightarrow> ('fds \<Rightarrow> bool) \<Rightarrow> string list \<times> string option" where
  "proto_build_main manifest compile generate =
     (let dir = path_join manifest ''protos''; proto = path_join dir ''rendezvous.proto'' in
      ([''cargo:rerun-if-changed='' @ proto],
       case compile [proto] [dir] of
         None \<Rightarrow> Some ''failed to compile rendezvous.proto with protox''
       | Some fds \<Rightarrow>
           (if generate fds then None else Some ''failed to generate prost types'')))"

text \<open>A build without a panic has generated the types of the schema that cargo watches.\<close>

lemma proto_build_generates:
  assumes "proto_build_main manifest compile generate = (out, None)"
  shows "\<exists>proto fds. out = [''cargo:rerun-if-changed='' @ proto] \<and> compile [proto] [path_join manifest ''protos''] = Some fds
    \<and> generate fds"
  using assms by (auto simp: proto_build_main_def Let_def split: option.splits if_splits)

end
