(* ===== verification/Capturer.thy ===== *)
theory Capturer
  imports Relay_Prelude "HOL-Library.Sublist"
begin

text \<open>
  The publishing tail of \<open>xyzen-capturer\<close>, \<open>main\<close> of \<open>crates/capturer/src/main.rs\<close>: a thread moves
  the NALs of the native capturer into a bounded channel, the main task sends each as one
  binary frame, and the first failed send ends it. The two run concurrently; the native
  capturer, the channel's capacity and the WebSocket are as their documentation says.
\<close>

text \<open>The room's URL: trailing slashes are cut off, then the peer id is appended.\<close>

definition publisher_url :: "string \<Rightarrow> string \<Rightarrow> string" where
  "publisher_url stream_url peer_id = rev (dropWhile (\<lambda>c. c = CHR ''/'') (rev stream_url)) @ ''/'' @ peer_id"

definition CHANNEL_CAP :: nat where
  "CHANNEL_CAP = 256"

text \<open>
  The main task waits for a NAL, holds one while \<open>sink.send\<close> is awaited, awaits \<open>sink.close\<close>
  after its loop, and is gone when \<open>main\<close> returns, which drops its end of the channel.
\<close>

datatype task_pc = Receiving | Sending bytes | Closing | Returned

text \<open>
  \<open>source\<close> is what the native capturer has put into its own channel (a \<open>std\<close> one, without a
  bound) and the thread has not taken, \<open>in_hand\<close> the NAL the thread holds while \<open>blocking_send\<close>
  waits, \<open>queue\<close> the bounded channel, \<open>wire\<close> the frames sent. \<open>emitted\<close> records all the capturer
  ever produced. The native channel is never closed: \<open>start\<close> boxes its sender, gives the pointer
  away (\<open>mac-capturer/src/lib.rs\<close>) and drops it only when it fails, and the other platforms never
  get this far; so \<open>rx.recv\<close> waits or succeeds.
\<close>

record bridge =
  source :: "bytes list"
  in_hand :: "bytes option"
  thread_runs :: bool
  queue :: "bytes list"
  task :: task_pc
  wire :: "bytes list"
  emitted :: "bytes list"

definition bridge_init :: bridge where
  "bridge_init = \<lparr>source = [], in_hand = None, thread_runs = True, queue = [], task = Receiving, wire = [],
     emitted = []\<rparr>"

text \<open>
  The capturer emits. The thread takes a NAL, delivers it when there is room, or ends when the
  receiver is gone. The task receives, sends, fails to send (the frame is lost), meets the end of
  the channel, and returns.
\<close>

inductive bridge_step :: "bridge \<Rightarrow> bridge \<Rightarrow> bool" where
  emit: "bridge_step b (b\<lparr>source := source b @ [n], emitted := emitted b @ [n]\<rparr>)"
| take: "thread_runs b \<Longrightarrow> in_hand b = None \<Longrightarrow> source b = n # ns \<Longrightarrow>
    bridge_step b (b\<lparr>source := ns, in_hand := Some n\<rparr>)"
| deliver: "thread_runs b \<Longrightarrow> in_hand b = Some n \<Longrightarrow> task b \<noteq> Returned \<Longrightarrow> length (queue b) < CHANNEL_CAP \<Longrightarrow>
    bridge_step b (b\<lparr>in_hand := None, queue := queue b @ [n]\<rparr>)"
| deliver_fails: "thread_runs b \<Longrightarrow> in_hand b = Some n \<Longrightarrow> task b = Returned \<Longrightarrow>
    bridge_step b (b\<lparr>in_hand := None, thread_runs := False\<rparr>)"
| recv: "task b = Receiving \<Longrightarrow> queue b = n # ns \<Longrightarrow> bridge_step b (b\<lparr>queue := ns, task := Sending n\<rparr>)"
| recv_end: "task b = Receiving \<Longrightarrow> queue b = [] \<Longrightarrow> \<not> thread_runs b \<Longrightarrow> bridge_step b (b\<lparr>task := Closing\<rparr>)"
| send_ok: "task b = Sending n \<Longrightarrow> bridge_step b (b\<lparr>task := Receiving, wire := wire b @ [n]\<rparr>)"
| send_fails: "task b = Sending n \<Longrightarrow> bridge_step b (b\<lparr>task := Closing\<rparr>)"
| return: "task b = Closing \<Longrightarrow> bridge_step b (b\<lparr>task := Returned, queue := []\<rparr>)"

inductive bridge_reachable :: "bridge \<Rightarrow> bool" where
  init: "bridge_reachable bridge_init"
| step: "bridge_reachable b \<Longrightarrow> bridge_step b c \<Longrightarrow> bridge_reachable c"

definition hand :: "bytes option \<Rightarrow> bytes list" where
  "hand x = (case x of None \<Rightarrow> [] | Some n \<Rightarrow> [n])"

definition awaited :: "task_pc \<Rightarrow> bytes list" where
  "awaited t = (case t of Sending n \<Rightarrow> [n] | _ \<Rightarrow> [])"

definition looping :: "task_pc \<Rightarrow> bool" where
  "looping t \<longleftrightarrow> t = Receiving \<or> (\<exists>n. t = Sending n)"

lemma looping_simps [simp]:
  "looping Receiving" "looping (Sending n)" "\<not> looping Closing" "\<not> looping Returned"
  by (simp_all add: looping_def)

lemma hand_simps [simp]:
  "hand None = []" "hand (Some n) = [n]" "awaited Receiving = []" "awaited (Sending n) = [n]"
  by (simp_all add: hand_def awaited_def)

definition bridge_ok :: "bridge \<Rightarrow> bool" where
  "bridge_ok b \<longleftrightarrow>
     length (queue b) \<le> CHANNEL_CAP
     \<and> prefix (wire b) (emitted b)
     \<and> (task b \<noteq> Returned \<longrightarrow> thread_runs b)
     \<and> (looping (task b) \<longrightarrow> emitted b = wire b @ awaited (task b) @ queue b @ hand (in_hand b) @ source b)"

lemma bridge_step_ok: "bridge_step b c \<Longrightarrow> bridge_ok b \<Longrightarrow> bridge_ok c"
  by (induction rule: bridge_step.induct) (auto simp: bridge_ok_def prefix_def)

interpretation bridge_sys: safe_system bridge_init bridge_step bridge_reachable bridge_ok
proof
  show "bridge_ok bridge_init" by (simp add: bridge_ok_def bridge_init_def)
  show "P b" if "bridge_reachable b" "P bridge_init" "\<And>c d. bridge_reachable c \<Longrightarrow> P c \<Longrightarrow> bridge_step c d \<Longrightarrow> P d"
    for b and P using that by (rule bridge_reachable.induct)
qed (auto intro: bridge_reachable.intros bridge_step_ok)

text \<open>What is still to be done with what has been emitted.\<close>

definition bridge_work :: "bridge \<Rightarrow> nat" where
  "bridge_work b = 4 * length (source b) + 3 * length (hand (in_hand b)) + 2 * length (queue b)
     + (if thread_runs b then 1 else 0) + (case task b of Receiving \<Rightarrow> 2 | Sending n \<Rightarrow> 3 | Closing \<Rightarrow> 1 | Returned \<Rightarrow> 0)"

lemma bridge_step_works:
  "bridge_step b c \<Longrightarrow> emitted c = emitted b \<Longrightarrow> bridge_work c < bridge_work b"
  by (induction rule: bridge_step.induct) (auto simp: bridge_work_def)

text \<open>Nothing but a further NAL can move a bridge whose task still loops only when all is sent.\<close>

lemma bridge_rests:
  assumes "bridge_ok b" "looping (task b)" "\<And>c. bridge_step b c \<Longrightarrow> emitted c \<noteq> emitted b"
  shows "wire b = emitted b"
proof -
  have t: "thread_runs b" and e: "emitted b = wire b @ awaited (task b) @ queue b @ hand (in_hand b) @ source b"
    using assms(1,2) by (auto simp: bridge_ok_def)
  have r: "task b = Receiving"
    using assms(2,3) send_ok [of b] by (fastforce simp: looping_def)
  have q: "queue b = []"
    using assms(3) recv [OF r] by (cases "queue b") fastforce+
  have h: "in_hand b = None"
  proof (cases "in_hand b")
    case (Some n)
    show ?thesis using assms(3) [OF deliver [OF t Some]] r q by (simp add: CHANNEL_CAP_def)
  qed
  have "source b = []"
    using assms(3) [OF take [OF t h]] by (cases "source b") fastforce+
  with e r q h show ?thesis by simp
qed

text \<open>
  C35. What the native capturer emits goes out in order: at every moment the frames on the wire are
  a prefix of the NALs emitted, one frame each, and the bounded channel holds at most 256 (the
  native channel before it has no bound). While the task's loop goes on, which only a failed send ends,
  the thread runs and every NAL is either sent, awaited in \<open>sink.send\<close>, queued, held by the
  thread or not yet taken. Between two emissions no more than \<open>bridge_work\<close> steps are possible,
  and the loop comes to rest only with everything sent.
\<close>

theorem bridge_forwards_in_order:
  assumes "bridge_reachable b"
  shows "prefix (wire b) (emitted b) \<and> length (queue b) \<le> CHANNEL_CAP
    \<and> (looping (task b) \<longrightarrow> thread_runs b
        \<and> emitted b = wire b @ awaited (task b) @ queue b @ hand (in_hand b) @ source b)
    \<and> (\<forall>c. bridge_step b c \<and> looping (task b) \<and> \<not> looping (task c) \<longrightarrow> (\<exists>n. task b = Sending n \<and> wire c = wire b))
    \<and> (\<forall>c. bridge_step b c \<and> emitted c = emitted b \<longrightarrow> bridge_work c < bridge_work b)
    \<and> (looping (task b) \<and> (\<forall>c. bridge_step b c \<longrightarrow> emitted c \<noteq> emitted b) \<longrightarrow> wire b = emitted b)"
proof -
  have ok: "bridge_ok b" using assms by (rule bridge_sys.reach_safe)
  have "\<exists>n. task b = Sending n \<and> wire c = wire b" if "bridge_step b c" "looping (task b)" "\<not> looping (task c)" for c
    using that ok by (cases rule: bridge_step.cases) (auto simp: bridge_ok_def)
  then show ?thesis using ok bridge_step_works bridge_rests [OF ok] unfolding bridge_ok_def by auto
qed

theorem bridge_forwards_in_order_witness:
  "\<exists>b. bridge_reachable b \<and> emitted b = [[1], [2]] \<and> wire b = [[1]] \<and> task b = Sending [2]
    \<and> emitted b = wire b @ awaited (task b) @ queue b @ hand (in_hand b) @ source b"
proof -
  let ?e = "\<lparr>source = [[1], [2]], in_hand = None, thread_runs = True, queue = [], task = Receiving, wire = [],
     emitted = [[1], [2]]\<rparr>"
  let ?f = "\<lparr>source = [[2]], in_hand = Some [1], thread_runs = True, queue = [], task = Receiving, wire = [],
     emitted = [[1], [2]]\<rparr>"
  let ?g = "\<lparr>source = [], in_hand = None, thread_runs = True, queue = [[1], [2]], task = Receiving, wire = [],
     emitted = [[1], [2]]\<rparr>"
  let ?b = "\<lparr>source = [], in_hand = None, thread_runs = True, queue = [], task = Sending [2], wire = [[1]],
     emitted = [[1], [2]]\<rparr>"
  note go = bridge_reachable.step
  have "bridge_reachable ?e"
    using go [OF go [OF bridge_reachable.init emit [of _ "[1]"]] emit [of _ "[2]"]] by (simp add: bridge_init_def)
  from go [OF this take [of _ "[1]" "[[2]]"]] have f: "bridge_reachable ?f" by simp
  from go [OF this deliver [of _ "[1]"]] have "bridge_reachable (?f\<lparr>in_hand := None, queue := [[1]]\<rparr>)"
    by (simp add: CHANNEL_CAP_def)
  from go [OF this take [of _ "[2]" "[]"]] have
    "bridge_reachable (?f\<lparr>source := [], in_hand := Some [2], queue := [[1]]\<rparr>)" by simp
  from go [OF this deliver [of _ "[2]"]] have "bridge_reachable ?g" by (simp add: CHANNEL_CAP_def)
  from go [OF this recv [of _ "[1]" "[[2]]"]] have "bridge_reachable (?g\<lparr>queue := [[2]], task := Sending [1]\<rparr>)"
    by simp
  from go [OF this send_ok [of _ "[1]"]] have "bridge_reachable (?g\<lparr>queue := [[2]], wire := [[1]]\<rparr>)" by simp
  from go [OF this recv [of _ "[2]" "[]"]] have b: "bridge_reachable ?b" by simp
  from bridge_forwards_in_order [OF b] have
    "emitted ?b = wire ?b @ awaited (task ?b) @ queue ?b @ hand (in_hand ?b) @ source ?b" by simp
  with b show ?thesis by (intro exI [of _ ?b]) simp
qed

end
