(* ===== verification/Pipeline.thy ===== *)
theory Pipeline
  imports Rooms Mac_Session Capturer
begin

text \<open>
  The whole way of a frame: the samples of the macOS encoder become messages
  (\<open>Mac_Capturer\<close>), cross the capturer's bridge (\<open>Capturer\<close>), are recorded and broadcast in a room
  of the stream server, and reach a viewer's socket (\<open>Rooms\<close>, \<open>Warmup\<close>). Between the
  bridge and the room is one WebSocket over TCP: what the room has recorded is a prefix of
  what the bridge has sent.
\<close>

text \<open>What a viewer can decode after stripping the stamp: an Annex-B unit.\<close>

definition stamped :: "bytes \<Rightarrow> bool" where
  "stamped f \<longleftrightarrow> (\<exists>wall nal. f = be_bytes8 wall @ start_code @ nal)"

lemma avcc_loop_coded: "c \<in> set (avcc_loop buf off) \<Longrightarrow> \<exists>nal. c = start_code @ nal"
proof (induction buf off rule: avcc_loop.induct)
  case (1 avcc off)
  from "1.prems" have off: "off + 4 \<le> length avcc"
    by (subst (asm) avcc_loop.simps) (simp split: if_splits)
  note ih = "1.IH" [OF off refl refl]
  from "1.prems" ih show ?case
    by (subst (asm) avcc_loop.simps) (auto simp: Let_def split: if_splits)
qed

lemma mac_messages_stamped: "f \<in> set (mac_messages wall is_key psets avcc) \<Longrightarrow> stamped f"
proof -
  have "\<exists>nal. mac_prefix is_key psets = start_code @ nal" if "mac_prefix is_key psets \<noteq> []"
    using that by (cases psets) (auto simp: mac_prefix_def)
  then have "\<exists>nal. c = start_code @ nal" if "c \<in> set (mac_chunks is_key psets avcc)" for c
    using that avcc_loop_coded by (auto simp: mac_chunks_def Let_def split: if_splits)
  then show "f \<in> set (mac_messages wall is_key psets avcc) \<Longrightarrow> stamped f"
    by (fastforce simp: mac_messages_def stamped_def in_set_enumerate_eq)
qed

text \<open>A sample with the clock readings of its chunks.\<close>

record mac_sample =
  clock :: "nat \<Rightarrow> u64"
  is_keyframe :: bool
  param_blobs :: "bytes list"
  avcc_data :: bytes

definition capture :: "mac_sample list \<Rightarrow> bytes list" where
  "capture samples = concat (map (\<lambda>x. mac_messages (clock x) (is_keyframe x) (param_blobs x) (avcc_data x)) samples)"

lemma capture_stamped: "f \<in> set (capture samples) \<Longrightarrow> stamped f"
  using mac_messages_stamped by (auto simp: capture_def)

lemma list_all_sub: "set xs \<subseteq> set ys \<Longrightarrow> (\<And>y. y \<in> set ys \<Longrightarrow> P y) \<Longrightarrow> list_all P xs"
  by (auto simp: list_all_iff)

text \<open>
  From the samples to the viewer. Whatever the interleaving in the capturer's bridge and in
  the stream server, a viewer whose sends succeed and that does not lag gets, in order, the replay
  of the first \<open>n\<close> messages the encoder's samples gave rise to and then those messages one by one
  from a position \<open>m \<le> n\<close> on, without a gap; each is an eight-byte stamp and an Annex-B unit.
\<close>

theorem capture_reaches_viewer:
  assumes "bridge_reachable b" "prefix (emitted b) (capture samples)"
    and "stream_reachable s" "viewers s v = VLive r m n warm" "list_all (\<lambda>x. fst x = p) (recorded (heap s r))"
    and "prefix (map snd (recorded (heap s r))) (wire b)"
    and "delivers (map snd (drop m (sent (heap s r)))) (recvs es)"
    and "length warm \<le> length oks" "list_all id oks" "list_all smooth es"
  shows "payloads (handle_viewer warm oks es)
      = snapshot (record_all (take n (capture samples)) warmup_default)
        @ take (length (recvs es)) (drop m (capture samples))
    \<and> m \<le> n \<and> list_all stamped (payloads (handle_viewer warm oks es))"
proof -
  let ?F = "map snd (recorded (heap s r))" and ?C = "capture samples"
  have "prefix (wire b) (emitted b)"
    using bridge_sys.reach_safe [OF assms(1)] by (auto simp: bridge_ok_def prefix_def)
  then have "prefix ?F ?C" using assms(2,6) prefix_order.trans by blast
  then obtain rest where C: "?C = ?F @ rest" by (auto simp: prefix_def)
  have one: "\<forall>x \<in> set (recorded (heap s r)). fst x = p" using assms(5) by (simp add: list_all_iff)
  note v = viewer_payloads [OF assms(3,4) refl one assms(7-10)]
  have "take n ?F = take n ?C" "take (length (recvs es)) (drop m ?F) = take (length (recvs es)) (drop m ?C)"
    using v by (simp_all add: C)
  then have eq: "payloads (handle_viewer warm oks es)
      = snapshot (record_all (take n ?C) warmup_default) @ take (length (recvs es)) (drop m ?C)"
    using v by simp
  moreover have "list_all stamped (payloads (handle_viewer warm oks es))"
  proof (rule list_all_sub)
    show "set (payloads (handle_viewer warm oks es)) \<subseteq> set ?C"
      unfolding eq using snapshot_recorded [of "take n ?C"] set_take_subset [of n ?C]
        set_take_subset [of "length (recvs es)" "drop m ?C"] set_drop_subset [of m ?C] by auto
  qed (rule capture_stamped)
  ultimately show ?thesis using v by blast
qed

text \<open>The messages of a capturer are those of the samples it was given while it had an encoder.\<close>

definition sample_of :: "(nat \<Rightarrow> u64) \<Rightarrow> cm_sample \<Rightarrow> mac_sample" where
  "sample_of wall smp = \<lparr>clock = wall, is_keyframe = cm_is_keyframe smp, param_blobs = parameter_sets smp,
     avcc_data = (case cm_block smp of None \<Rightarrow> [] | Some b \<Rightarrow> bb_bytes b)\<rparr>"

lemma did_output_capture:
  assumes "did_output wall usable encoded m = Some msgs"
  shows "\<exists>xs. msgs = capture xs"
proof -
  have "msgs = capture [] \<or> encoded \<noteq> None \<and> msgs = capture [sample_of wall (the encoded)]"
    using assms
    by (auto simp: did_output_def handle_encoded_def capture_def sample_of_def split: if_splits option.splits)
  then show ?thesis by blast
qed

lemma session_run_capture: "session_run es m = Some msgs \<Longrightarrow> \<exists>samples. msgs = capture samples"
proof (induction es m arbitrary: msgs rule: session_run.induct)
  case (1 m)
  then show ?case by (intro exI [of _ "[]"]) (simp add: capture_def)
next
  case (2 e es m)
  then show ?case
    by (auto simp: capture_def intro: exI [of _ "[]"] split: prod.splits option.splits if_splits)
next
  case (3 wall usable encoded es m)
  from "3.prems" obtain now later where out: "did_output wall usable encoded m = Some now"
    "session_run es m = Some later" "msgs = now @ later" by (auto split: option.splits)
  from did_output_capture [OF out(1)] "3.IH" [OF out(1,2)] obtain xs ys where "now = capture xs" "later = capture ys"
    by blast
  then have "msgs = capture (xs @ ys)" by (simp add: out(3) capture_def)
  then show ?case by blast
qed

text \<open>
  C2. From the screen to the viewer. Take a macOS capturer, called and answered in any way while it
  delivers frames, whose encoded buffers are each in one piece: the messages it makes of them cross
  the capturer's bridge and the stream server under any interleaving. Under three conditions, that
  this capturer is the only publisher of the room, that every send to the viewer's socket succeeds,
  and that the viewer's receiver neither lags nor is closed, the viewer gets, in order,
  the replay of the first \<open>n\<close> messages and then the messages one by one from a position \<open>m \<le> n\<close> on, without a
  gap; each is an eight-byte stamp and an Annex-B unit. A receiver that lags skips messages.
\<close>

theorem session_reaches_viewer:
  assumes "session_run evs mac = Some msgs" "bridge_reachable b" "prefix (emitted b) msgs"
    and "stream_reachable s" "viewers s v = VLive r m n warm" "list_all (\<lambda>x. fst x = p) (recorded (heap s r))"
    and "prefix (map snd (recorded (heap s r))) (wire b)"
    and "delivers (map snd (drop m (sent (heap s r)))) (recvs es)"
    and "length warm \<le> length oks" "list_all id oks" "list_all smooth es"
  shows "payloads (handle_viewer warm oks es)
      = snapshot (record_all (take n msgs) warmup_default) @ take (length (recvs es)) (drop m msgs)
    \<and> m \<le> n \<and> list_all stamped (payloads (handle_viewer warm oks es))"
proof -
  obtain samples where msgs: "msgs = capture samples" using session_run_capture [OF assms(1)] by blast
  show ?thesis
    using capture_reaches_viewer [OF assms(2) _ assms(4-11), of samples] assms(3) unfolding msgs by blast
qed

section \<open>Witness\<close>

text \<open>The bridge can pass on any messages; the room can record them.\<close>

definition idle_bridge :: "bytes list \<Rightarrow> bridge" where
  "idle_bridge fs = bridge_init\<lparr>wire := fs, emitted := fs\<rparr>"

lemma idle_bridge_reachable: "bridge_reachable (idle_bridge fs)"
proof (induction fs rule: rev_induct)
  case Nil
  show ?case using bridge_reachable.init by (simp add: idle_bridge_def bridge_init_def)
next
  case (snoc f fs)
  let ?e = "(idle_bridge fs)\<lparr>source := [f], emitted := fs @ [f]\<rparr>"
  let ?t = "?e\<lparr>source := [], in_hand := Some f\<rparr>" and ?d = "?e\<lparr>source := [], queue := [f]\<rparr>"
  let ?s = "(idle_bridge fs)\<lparr>task := Sending f, emitted := fs @ [f]\<rparr>"
  have "bridge_step (idle_bridge fs) ?e"
    using bridge_step.emit [of "idle_bridge fs" f] by (simp add: idle_bridge_def bridge_init_def)
  moreover have "bridge_step ?e ?t"
    using bridge_step.take [of ?e f "[]"] by (simp add: idle_bridge_def bridge_init_def)
  moreover have "bridge_step ?t ?d"
    using bridge_step.deliver [of ?t f] by (simp add: idle_bridge_def bridge_init_def CHANNEL_CAP_def)
  moreover have "bridge_step ?d ?s"
    using bridge_step.recv [of ?d f "[]"] by (simp add: idle_bridge_def bridge_init_def)
  moreover have "bridge_step ?s (idle_bridge (fs @ [f]))"
    using bridge_step.send_ok [of ?s f] by (simp add: idle_bridge_def bridge_init_def)
  ultimately show ?case using snoc bridge_reachable.step by blast
qed

text \<open>An HEVC keyframe, which the viewer is replayed, and a frame that it sees live.\<close>

definition demo_samples :: "mac_sample list" where
  "demo_samples =
     [\<lparr>clock = (\<lambda>_. 0), is_keyframe = True, param_blobs = [[0x40, 1], [0x42, 1], [0x44, 1]], avcc_data = avcc_encode [[0x26, 8]]\<rparr>,
      \<lparr>clock = (\<lambda>_. 0), is_keyframe = False, param_blobs = [], avcc_data = avcc_encode [[0x02, 9]]\<rparr>]"

definition demo_message :: "bytes \<Rightarrow> bytes" where
  "demo_message nals = be_bytes8 0 @ start_code @ nals"

definition demo_key :: "bytes list" where
  "demo_key = [demo_message [0x40, 1, 0, 0, 0, 1, 0x42, 1, 0, 0, 0, 1, 0x44, 1], demo_message [0x26, 8]]"

lemma demo_capture: "capture demo_samples = demo_key @ [demo_message [0x02, 9]]"
proof -
  have "avcc_loop ([] @ avcc_encode [n] @ []) (length ([] :: bytes)) = [start_code @ n]" if "length n < 2 ^ 32" for n
    using avcc_loop_encode [of "[n]" "[]" "[]"] that by simp
  then have "avcc_loop (avcc_encode [[a, b]]) 0 = [start_code @ [a, b]]" for a b by simp
  then show ?thesis
    by (simp add: capture_def demo_samples_def demo_key_def demo_message_def mac_messages_def mac_chunks_def
        mac_prefix_def start_code_def)
qed

lemma demo_key_snapshot: "snapshot (record_all demo_key warmup_default) = demo_key"
proof -
  have "classify_nal (be_bytes8 0 @ [0, 0, 0, 1, 0x40] @ p) None = ParamSet Hevc 32"
    "classify_nal (be_bytes8 0 @ [0, 0, 0, 1, 0x26] @ p) (Some Hevc) = Keyframe" for p
    by (subst classify_framed; simp add: classify_eval)+
  then have "classify_nal (hd demo_key) None = ParamSet Hevc 32" "classify_nal (demo_key ! 1) (Some Hevc) = Keyframe"
    by (simp_all add: demo_key_def demo_message_def start_code_def)
  moreover have "length (demo_key ! 1) \<le> WARMUP_KEY_MAX_BYTES"
    by (simp add: demo_key_def demo_message_def start_code_def WARMUP_KEY_MAX_BYTES_def)
  ultimately show ?thesis
    by (simp add: demo_key_def warmup_default_def record_param record_key snapshot_def)
qed

definition demo_joined :: stream where
  "demo_joined = viewer_join 5 ''p'' (publish 1 ''p'' 0 demo_key demo_open)"

definition demo_live :: stream where
  "demo_live = publish 1 ''p'' 0 [demo_message [0x02, 9]] demo_joined"

lemma demo_live_facts:
  "stream_reachable demo_live" "viewers demo_live 5 = VLive 0 2 2 demo_key"
  "recorded (heap demo_live 0) = map (Pair 1) (capture demo_samples)"
  "sent (heap demo_live 0) = map (Pair 1) (capture demo_samples)"
proof -
  let ?s = "publish 1 ''p'' 0 demo_key demo_open"
  have c: "pubs demo_open 1 = PubConnected ''p'' 0" by (simp add: demo_open_facts)
  have rs: "stream_reachable ?s"
    using publish_steps [OF c, of demo_key] stream_sys.reach_run demo_open_facts(1) by blast
  note eff = publish_effect [OF c, of demo_key]
  have facts: "pubs ?s 1 = PubConnected ''p'' 0" "rooms ?s = [''p'' \<mapsto> 0]" "viewers ?s = (\<lambda>_. VIdle)"
    "recorded (heap ?s 0) = map (Pair 1) demo_key" "sent (heap ?s 0) = map (Pair 1) demo_key"
    using eff by (simp_all add: demo_open_facts room_new_def del: One_nat_def)
  have "map snd (recorded (heap ?s 0)) = demo_key" unfolding facts by (simp add: comp_def)
  then have "warmup (heap ?s 0) = record_all demo_key warmup_default"
    using stream_room_ok [OF rs, of 0] unfolding room_ok_def by metis
  then have snap: "snapshot (warmup (heap ?s 0)) = demo_key" by (simp add: demo_key_snapshot)
  have rj: "stream_reachable demo_joined"
    unfolding demo_joined_def by (rule stream_sys.reach_run [OF viewer_join_steps rs]) (simp add: facts del: One_nat_def)
  have room: "room_for ''p'' ?s = (0, ?s)" by (simp add: room_for_def facts del: One_nat_def)
  have len: "length demo_key = 2" by (simp add: demo_key_def)
  have joined: "pubs demo_joined 1 = PubConnected ''p'' 0" "viewers demo_joined 5 = VLive 0 2 2 demo_key"
    "recorded (heap demo_joined 0) = map (Pair 1) demo_key" "sent (heap demo_joined 0) = map (Pair 1) demo_key"
    by (simp_all add: demo_joined_def viewer_join_def room subscribe_def facts snap len del: One_nat_def)
  show "stream_reachable demo_live"
    unfolding demo_live_def
    using publish_steps [OF joined(1), of "[demo_message [0x02, 9]]"] stream_sys.reach_run rj by blast
  show "viewers demo_live 5 = VLive 0 2 2 demo_key"
    "recorded (heap demo_live 0) = map (Pair 1) (capture demo_samples)"
    "sent (heap demo_live 0) = map (Pair 1) (capture demo_samples)"
    using publish_effect [OF joined(1), of "[demo_message [0x02, 9]]"]
    by (simp_all add: demo_live_def joined demo_capture del: One_nat_def)
qed

theorem capture_reaches_viewer_witness:
  "payloads (handle_viewer demo_key [True, True] [Heartbeat True, Received (RecvOk (demo_message [0x02, 9])) True])
    = demo_key @ [demo_message [0x02, 9]]"
proof -
  let ?es = "[Heartbeat True, Received (RecvOk (demo_message [0x02, 9])) True]"
  have len: "length demo_key = 2" by (simp add: demo_key_def)
  have C: "take 2 (capture demo_samples) = demo_key" "drop 2 (capture demo_samples) = [demo_message [0x02, 9]]"
    using len by (simp_all add: demo_capture)
  have "payloads (handle_viewer demo_key [True, True] ?es)
      = snapshot (record_all (take 2 (capture demo_samples)) warmup_default)
        @ take (length (recvs ?es)) (drop 2 (capture demo_samples))"
    by (rule conjunct1 [OF capture_reaches_viewer [OF idle_bridge_reachable [of "capture demo_samples"] _
            demo_live_facts(1,2), where p = 1]])
      (simp_all add: idle_bridge_def demo_live_facts(3,4) C len comp_def list_all_iff drop_map)
  then show ?thesis by (simp add: C demo_key_snapshot)
qed

text \<open>The same two frames out of a capturer whose frame rate is changed in between.\<close>

definition demo_frame :: "bool \<Rightarrow> bytes list \<Rightarrow> bytes \<Rightarrow> mac_event" where
  "demo_frame key psets nal = Frame (\<lambda>_. 0) True (Some \<lparr>cm_ready = True,
     cm_block = Some \<lparr>bb_pointer = True, bb_bytes = avcc_encode [nal], bb_total = length (avcc_encode [nal])\<rparr>,
     cm_attachments = Some [Some (\<not> key)], cm_format = Some (map Some psets)\<rparr>)"

definition demo_events :: "mac_event list" where
  "demo_events = [demo_frame True [[0x40, 1], [0x42, 1], [0x44, 1]] [0x26, 8], Call (CSetFps 60 Completed (\<lambda>_. True)),
     demo_frame False [] [0x02, 9]]"

lemma demo_session_run: "session_run demo_events demo_mac = Some (demo_key @ [demo_message [0x02, 9]])"
proof -
  have "\<exists>m. c_call (CSetFps 60 Completed (\<lambda>_. True)) (Some demo_mac) = (0, Some m) \<and> ms_encoder m \<noteq> None"
    by (simp add: demo_mac_def session_set_fps_def rc_of_def thrown_def applied_def clamp_def)
  moreover have "ms_encoder demo_mac \<noteq> None" by (simp add: demo_mac_def)
  ultimately show ?thesis
    using demo_capture
    by (auto simp: demo_events_def demo_frame_def did_output_def handle_encoded_def cm_is_keyframe_def
        parameter_sets_def capture_def demo_samples_def)
qed

theorem session_reaches_viewer_witness:
  "list_all stamped (payloads (handle_viewer demo_key [True, True]
      [Heartbeat True, Received (RecvOk (demo_message [0x02, 9])) True]))"
proof -
  let ?es = "[Heartbeat True, Received (RecvOk (demo_message [0x02, 9])) True]"
  let ?msgs = "demo_key @ [demo_message [0x02, 9]]"
  have len: "length demo_key = 2" by (simp add: demo_key_def)
  show ?thesis
    by (rule conjunct2 [OF conjunct2 [OF session_reaches_viewer [OF demo_session_run idle_bridge_reachable [of ?msgs] _
            demo_live_facts(1,2), where p = 1]]])
      (simp_all add: idle_bridge_def demo_live_facts(3,4) demo_capture len comp_def list_all_iff drop_map)
qed

end
