(* ===== verification/Control.thy ===== *)
theory Control
  imports Relay_Prelude
begin

text \<open>
  The control plane: \<open>crates/control/src/http.rs\<close>, \<open>ids.rs\<close> and \<open>audit.rs\<close>, over the two
  tables of \<open>migrations/0001_init.sql\<close>. A request is cut at its database calls, since axum runs
  the handlers concurrently over a pool of eight connections: \<open>bind_step\<close> is \<open>bind_peer\<close> from
  one call to the next. Each query may fail; the flag \<open>ok\<close> says whether it does not. A text is
  the list of its code points, a header and a token are bytes.
\<close>

section \<open>Errors and authentication\<close>

record app_error =
  status :: nat
  msg :: string

definition bad :: "string \<Rightarrow> app_error" where
  "bad m = \<lparr>status = 400, msg = m\<rparr>"

definition unauthorized :: "string \<Rightarrow> app_error" where
  "unauthorized m = \<lparr>status = 401, msg = m\<rparr>"

definition not_found :: "string \<Rightarrow> app_error" where
  "not_found m = \<lparr>status = 404, msg = m\<rparr>"

definition db_error :: app_error where
  "db_error = \<lparr>status = 500, msg = ''database error''\<rparr>"

definition internal_error :: app_error where
  "internal_error = \<lparr>status = 500, msg = ''internal error''\<rparr>"

text \<open>Constant-time comparison: the loop never leaves early, it accumulates the difference.\<close>

definition ct_eq :: "bytes \<Rightarrow> bytes \<Rightarrow> bool" where
  "ct_eq a b \<longleftrightarrow> length a = length b \<and> fold (\<lambda>(x, y) diff. diff OR (x XOR y)) (zip a b) 0 = 0"

text \<open>The bytes of \<open>"Bearer "\<close>.\<close>

definition bearer_prefix :: bytes where
  "bearer_prefix = [66, 101, 97, 114, 101, 114, 32]"

text \<open>
  \<open>header\<close> is the value of the first Authorization header, if any; \<open>to_str\<close> stands for
  \<open>HeaderValue::to_str\<close>, which fails on bytes that are not visible ASCII.
\<close>

definition require_token :: "(bytes \<Rightarrow> bytes option) \<Rightarrow> bytes option \<Rightarrow> bytes \<Rightarrow> app_error + unit" where
  "require_token to_str header expected =
     (case Option.bind header to_str of
        None \<Rightarrow> Inl (unauthorized ''missing Authorization'')
      | Some v \<Rightarrow>
          (if \<not> starts_with v bearer_prefix then Inl (unauthorized ''expected Bearer token'')
           else if \<not> ct_eq (drop (length bearer_prefix) v) expected
           then Inl (unauthorized ''invalid token'')
           else Inr ()))"

section \<open>The tables\<close>

record peer_row =
  user_id :: ustring
  peer_id :: ustring
  created_at :: int

record audit_row =
  audit_id :: nat
  ts :: int
  kind :: ustring
  audit_peer :: "ustring option"
  controller_peer :: "ustring option"
  addr :: "ustring option"
  meta_json :: "ustring option"

record db =
  peers :: "peer_row list"
  audit :: "audit_row list"
  next_audit_id :: nat

definition db_empty :: db where
  "db_empty = \<lparr>peers = [], audit = [], next_audit_id = 1\<rparr>"

text \<open>\<open>SELECT peer_id FROM peers WHERE user_id = ?\<close> and \<open>... WHERE peer_id = ?\<close>\<close>

definition select_by_user :: "ustring \<Rightarrow> db \<Rightarrow> ustring option" where
  "select_by_user u d = map_option peer_id (find (\<lambda>r. user_id r = u) (peers d))"

definition select_by_peer :: "ustring \<Rightarrow> db \<Rightarrow> ustring option" where
  "select_by_peer p d = map_option peer_id (find (\<lambda>r. peer_id r = p) (peers d))"

text \<open>The insert fails on the primary key \<open>user_id\<close> and on the unique \<open>peer_id\<close>.\<close>

definition insert_peer :: "peer_row \<Rightarrow> db \<Rightarrow> db option" where
  "insert_peer r d =
     (if \<exists>q \<in> set (peers d). user_id q = user_id r \<or> peer_id q = peer_id r then None
      else Some (d\<lparr>peers := peers d @ [r]\<rparr>))"

text \<open>\<open>audit::record\<close>: best effort, a failed insert is only logged.\<close>

definition audit_record ::
  "bool \<Rightarrow> int \<Rightarrow> ustring \<Rightarrow> ustring option \<Rightarrow> ustring option \<Rightarrow> ustring option \<Rightarrow> ustring option \<Rightarrow> db \<Rightarrow> db" where
  "audit_record ok now k p c a meta d =
     (if ok
      then d\<lparr>audit := audit d @ [\<lparr>audit_id = next_audit_id d, ts = now, kind = k, audit_peer = p,
               controller_peer = c, addr = a, meta_json = meta\<rparr>],
             next_audit_id := Suc (next_audit_id d)\<rparr>
      else d)"

section \<open>Peer ids\<close>

definition SPAN :: nat where
  "SPAN = 900000000"

definition BASE :: nat where
  "BASE = 100000000"

text \<open>\<open>draw\<close> is the little-endian value of the eight random bytes.\<close>

definition random_id :: "u64 \<Rightarrow> ustring" where
  "random_id draw = decimal (unat draw mod SPAN + BASE)"

section \<open>\<open>bind_peer\<close>\<close>

definition whitespace :: "nat \<Rightarrow> bool" where
  "whitespace c \<longleftrightarrow> 9 \<le> c \<and> c \<le> 13 \<or> c = 32 \<or> c = 0x85 \<or> c = 0xa0 \<or> c = 0x1680
     \<or> 0x2000 \<le> c \<and> c \<le> 0x200a \<or> c = 0x2028 \<or> c = 0x2029 \<or> c = 0x202f \<or> c = 0x205f \<or> c = 0x3000"

definition trim :: "ustring \<Rightarrow> ustring" where
  "trim s = rev (dropWhile whitespace (rev (dropWhile whitespace s)))"

record request =
  header :: "bytes option"
  req_user :: ustring

datatype bind_pc =
    BindStart request
  | BindFresh ustring nat
  | BindInsert ustring ustring
  | BindAudit ustring ustring
  | BindDone "app_error + ustring \<times> ustring"

record ctl_env =
  to_str :: "bytes \<Rightarrow> bytes option"
  token :: bytes
  user_meta :: "ustring \<Rightarrow> ustring"

text \<open>
  The handler up to and including its next database call, on the database of that moment:
  \<open>ok\<close> whether the call succeeds, \<open>draw\<close> the random bytes and \<open>now\<close> the clock if it uses them.
  \<open>fresh_step\<close> is one round of the loop of \<open>ids::fresh\<close>, of which there are sixteen.
\<close>

definition PEER_BOUND :: ustring where
  "PEER_BOUND = [112, 101, 101, 114, 95, 98, 111, 117, 110, 100]"

definition fresh_step :: "bool \<Rightarrow> u64 \<Rightarrow> ustring \<Rightarrow> nat \<Rightarrow> db \<Rightarrow> bind_pc" where
  "fresh_step ok draw u k d =
     (if \<not> ok then BindDone (Inl internal_error)
      else case select_by_peer (random_id draw) d of
             None \<Rightarrow> BindInsert u (random_id draw)
           | Some _ \<Rightarrow> (if k + 1 < 16 then BindFresh u (k + 1) else BindDone (Inl internal_error)))"

fun bind_step :: "ctl_env \<Rightarrow> bool \<Rightarrow> u64 \<Rightarrow> int \<Rightarrow> bind_pc \<Rightarrow> db \<Rightarrow> bind_pc \<times> db" where
  "bind_step v ok draw now (BindStart r) d =
     (case require_token (to_str v) (header r) (token v) of
        Inl e \<Rightarrow> (BindDone (Inl e), d)
      | Inr _ \<Rightarrow>
          (if trim (req_user r) = [] then (BindDone (Inl (bad ''user_id required'')), d)
           else if \<not> ok then (BindDone (Inl db_error), d)
           else case select_by_user (req_user r) d of
                  Some p \<Rightarrow> (BindDone (Inr (req_user r, p)), d)
                | None \<Rightarrow> (BindFresh (req_user r) 0, d)))"
| "bind_step v ok draw now (BindFresh u k) d = (fresh_step ok draw u k d, d)"
| "bind_step v ok draw now (BindInsert u p) d =
     (if \<not> ok then (BindDone (Inl db_error), d)
      else case insert_peer \<lparr>user_id = u, peer_id = p, created_at = now\<rparr> d of
             None \<Rightarrow> (BindDone (Inl db_error), d)
           | Some d' \<Rightarrow> (BindAudit u p, d'))"
| "bind_step v ok draw now (BindAudit u p) d =
     (BindDone (Inr (u, p)), audit_record ok now PEER_BOUND (Some p) None None (Some (user_meta v u)) d)"
| "bind_step v ok draw now (BindDone res) d = (BindDone res, d)"

section \<open>The other handlers\<close>

definition get_peer :: "ctl_env \<Rightarrow> bool \<Rightarrow> bytes option \<Rightarrow> ustring \<Rightarrow> db \<Rightarrow> app_error + ustring \<times> ustring" where
  "get_peer v ok hdr u d =
     (case require_token (to_str v) hdr (token v) of
        Inl e \<Rightarrow> Inl e
      | Inr _ \<Rightarrow>
          (if \<not> ok then Inl db_error
           else case select_by_user u d of
                  None \<Rightarrow> Inl (not_found ''user_id not bound'')
                | Some p \<Rightarrow> Inr (u, p)))"

record ingest =
  in_kind :: ustring
  in_peer :: "ustring option"
  in_controller :: "ustring option"
  in_addr :: "ustring option"
  in_meta :: "ustring option"

definition ingest_audit :: "ctl_env \<Rightarrow> bool \<Rightarrow> int \<Rightarrow> bytes option \<Rightarrow> ingest \<Rightarrow> db \<Rightarrow> (app_error + nat) \<times> db" where
  "ingest_audit v ok now hdr ev d =
     (case require_token (to_str v) hdr (token v) of
        Inl e \<Rightarrow> (Inl e, d)
      | Inr _ \<Rightarrow> (Inr 202, audit_record ok now (in_kind ev) (in_peer ev) (in_controller ev) (in_addr ev) (in_meta ev) d))"

record audit_query =
  since :: "int option"
  q_user :: "ustring option"
  q_peer :: "ustring option"
  limit :: "int option"

definition clamp_limit :: "int option \<Rightarrow> int" where
  "clamp_limit l = max 1 (min 1000 (case l of None \<Rightarrow> 100 | Some n \<Rightarrow> n))"

definition about_peer :: "ustring \<Rightarrow> audit_row \<Rightarrow> bool" where
  "about_peer p r \<longleftrightarrow> audit_peer r = Some p \<or> controller_peer r = Some p"

text \<open>\<open>SELECT ... WHERE ts >= ? AND ... ORDER BY id DESC LIMIT ?\<close>\<close>

definition select_audit :: "int \<Rightarrow> (audit_row \<Rightarrow> bool) \<Rightarrow> int \<Rightarrow> db \<Rightarrow> audit_row list" where
  "select_audit from P n d =
     take (nat n) (rev (sort_key audit_id (filter (\<lambda>r. from \<le> ts r \<and> P r) (audit d))))"

text \<open>Two queries, \<open>ok1\<close> for the lookup of the user and \<open>ok2\<close> for the rows.\<close>

definition list_audit ::
  "ctl_env \<Rightarrow> bool \<Rightarrow> bool \<Rightarrow> bytes option \<Rightarrow> audit_query \<Rightarrow> db \<Rightarrow> app_error + audit_row list" where
  "list_audit v ok1 ok2 hdr q d =
     (case require_token (to_str v) hdr (token v) of
        Inl e \<Rightarrow> Inl e
      | Inr _ \<Rightarrow>
          (let n = clamp_limit (limit q); from = (case since q of None \<Rightarrow> 0 | Some t \<Rightarrow> t);
               rows = (\<lambda>P. if ok2 then Inr (select_audit from P n d) else Inl db_error) in
           case q_peer q of
             Some p \<Rightarrow> rows (about_peer p)
           | None \<Rightarrow>
               (case q_user q of
                  None \<Rightarrow> rows (\<lambda>_. True)
                | Some u \<Rightarrow>
                    (if \<not> ok1 then Inl db_error
                     else case select_by_user u d of
                            None \<Rightarrow> Inr []
                          | Some p \<Rightarrow> rows (about_peer p)))))"

section \<open>Concurrent requests\<close>

record ctl =
  cdb :: db
  tasks :: "nat \<Rightarrow> bind_pc"

definition ctl_init :: "(nat \<Rightarrow> request) \<Rightarrow> ctl" where
  "ctl_init reqs = \<lparr>cdb = db_empty, tasks = (\<lambda>i. BindStart (reqs i))\<rparr>"

text \<open>Request \<open>i\<close> moves, or an audit event comes in.\<close>

inductive ctl_step :: "ctl_env \<Rightarrow> ctl \<Rightarrow> ctl \<Rightarrow> bool" for v where
  bind: "bind_step v ok draw now (tasks s i) (cdb s) = (pc, d) \<Longrightarrow>
    ctl_step v s (s\<lparr>cdb := d, tasks := (tasks s)(i := pc)\<rparr>)"
| ingest: "ingest_audit v ok now hdr ev (cdb s) = (res, d) \<Longrightarrow> ctl_step v s (s\<lparr>cdb := d\<rparr>)"

inductive ctl_reachable :: "ctl_env \<Rightarrow> (nat \<Rightarrow> request) \<Rightarrow> ctl \<Rightarrow> bool" for v reqs where
  init: "ctl_reachable v reqs (ctl_init reqs)"
| step: "ctl_reachable v reqs s \<Longrightarrow> ctl_step v s s' \<Longrightarrow> ctl_reachable v reqs s'"

section \<open>Peer ids have nine digits\<close>

definition nine_digits :: "ustring \<Rightarrow> bool" where
  "nine_digits p \<longleftrightarrow> length p = 9 \<and> (\<forall>c \<in> set p. 48 \<le> c \<and> c \<le> 57)"

lemma random_id_digits: "nine_digits (random_id w)"
proof -
  have "unat w mod SPAN < SPAN" by (simp add: SPAN_def)
  then have "10 ^ 8 \<le> unat w mod SPAN + BASE" "unat w mod SPAN + BASE < 10 ^ Suc 8"
    by (simp_all add: SPAN_def BASE_def)
  then show ?thesis
    using decimal_length [of 8] decimal_digits unfolding nine_digits_def random_id_def by fastforce
qed

section \<open>What the tables keep\<close>

definition db_ok :: "db \<Rightarrow> bool" where
  "db_ok d \<longleftrightarrow>
     distinct (map user_id (peers d)) \<and> distinct (map peer_id (peers d))
     \<and> (\<forall>r \<in> set (peers d). nine_digits (peer_id r))
     \<and> sorted_wrt (<) (map audit_id (audit d)) \<and> (\<forall>r \<in> set (audit d). audit_id r < next_audit_id d)"

definition pc_ok :: "db \<Rightarrow> request \<Rightarrow> bind_pc \<Rightarrow> bool" where
  "pc_ok d r pc =
     (case pc of
        BindStart r' \<Rightarrow> r' = r
      | BindFresh u k \<Rightarrow> u = req_user r \<and> k < 16
      | BindInsert u p \<Rightarrow> u = req_user r \<and> nine_digits p
      | BindAudit u p \<Rightarrow> u = req_user r \<and> select_by_user u d = Some p
      | BindDone (Inr (u, p)) \<Rightarrow> u = req_user r \<and> select_by_user u d = Some p
      | BindDone (Inl e) \<Rightarrow> status e \<in> {400, 401, 500})"

lemma select_by_user_Some:
  "select_by_user u d = Some p \<Longrightarrow> \<exists>r \<in> set (peers d). user_id r = u \<and> peer_id r = p"
  by (auto simp: select_by_user_def find_Some_iff intro!: bexI [OF _ nth_mem])

lemma select_by_user_row:
  "db_ok d \<Longrightarrow> r \<in> set (peers d) \<Longrightarrow> select_by_user (user_id r) d = Some (peer_id r)"
proof -
  have "distinct (map user_id rs) \<Longrightarrow> r \<in> set rs \<Longrightarrow> find (\<lambda>q. user_id q = user_id r) rs = Some r" for rs
    by (induction rs) auto
  then show "db_ok d \<Longrightarrow> r \<in> set (peers d) \<Longrightarrow> select_by_user (user_id r) d = Some (peer_id r)"
    by (simp add: select_by_user_def db_ok_def)
qed

lemma audit_record_peers [simp]: "peers (audit_record ok now k p c a meta d) = peers d"
  by (simp add: audit_record_def)

lemma audit_record_ok: "db_ok d \<Longrightarrow> db_ok (audit_record ok now k p c a meta d)"
  by (auto simp: audit_record_def db_ok_def sorted_wrt_append)

lemma insert_peer_ok:
  assumes "insert_peer \<lparr>user_id = u, peer_id = p, created_at = now\<rparr> d = Some d'" "db_ok d" "nine_digits p"
  shows "db_ok d'" "select_by_user u d' = Some p"
    "select_by_user w d = Some q \<Longrightarrow> select_by_user w d' = Some q"
proof -
  have d': "peers d' = peers d @ [\<lparr>user_id = u, peer_id = p, created_at = now\<rparr>]" "audit d' = audit d"
    "next_audit_id d' = next_audit_id d"
    and new: "\<forall>q \<in> set (peers d). user_id q \<noteq> u \<and> peer_id q \<noteq> p"
    using assms(1) by (auto simp: insert_peer_def split: if_splits)
  show ok: "db_ok d'" using assms(2,3) new by (auto simp: db_ok_def d')
  show "select_by_user u d' = Some p"
    using select_by_user_row [OF ok, of "\<lparr>user_id = u, peer_id = p, created_at = now\<rparr>"] by (simp add: d')
  assume "select_by_user w d = Some q"
  then obtain r where "r \<in> set (peers d)" "user_id r = w" "peer_id r = q"
    using select_by_user_Some by blast
  then show "select_by_user w d' = Some q"
    using select_by_user_row [OF ok, of r] by (simp add: d')
qed

lemma select_by_user_inj:
  assumes "db_ok d" "select_by_user u d = Some p" "select_by_user w d = Some p"
  shows "w = u"
proof -
  obtain r where r: "r \<in> set (peers d)" "user_id r = u" "peer_id r = p"
    using select_by_user_Some [OF assms(2)] by blast
  obtain t where t: "t \<in> set (peers d)" "user_id t = w" "peer_id t = p"
    using select_by_user_Some [OF assms(3)] by blast
  have "distinct (map peer_id (peers d))" using assms(1) by (simp add: db_ok_def)
  then have "r = t" using r t by (auto simp: distinct_map inj_on_def)
  with r t show ?thesis by simp
qed

text \<open>One step of one request: the tables stay well-formed and no binding is lost or changed.\<close>

lemma bind_step_ok:
  assumes "bind_step v ok draw now pc d = (pc', d')" "db_ok d" "pc_ok d r pc"
  shows "db_ok d' \<and> pc_ok d' r pc' \<and> (\<forall>w q. select_by_user w d = Some q \<longrightarrow> select_by_user w d' = Some q)"
proof (cases pc)
  case (BindStart r')
  with assms show ?thesis
    by (auto simp: pc_ok_def require_token_def unauthorized_def bad_def db_error_def
        split: sum.splits if_splits option.splits)
next
  case (BindFresh u k)
  with assms show ?thesis
    by (auto simp: pc_ok_def fresh_step_def internal_error_def random_id_digits split: if_splits option.splits)
next
  case (BindInsert u p)
  with assms(3) have r: "u = req_user r" "nine_digits p" by (simp_all add: pc_ok_def)
  show ?thesis
  proof (cases "ok \<and> insert_peer \<lparr>user_id = u, peer_id = p, created_at = now\<rparr> d \<noteq> None")
    case True
    then obtain d1 where i: "insert_peer \<lparr>user_id = u, peer_id = p, created_at = now\<rparr> d = Some d1" by auto
    with True BindInsert assms(1) have "pc' = BindAudit u p" "d' = d1" by simp_all
    then show ?thesis using insert_peer_ok [OF i assms(2) r(2)] r(1) by (simp add: pc_ok_def)
  next
    case False
    then have "bind_step v ok draw now pc d = (BindDone (Inl db_error), d)"
      by (auto simp: BindInsert)
    with assms(1) have "pc' = BindDone (Inl db_error)" "d' = d" by simp_all
    then show ?thesis using assms(2) by (simp add: pc_ok_def db_error_def)
  qed
next
  case (BindAudit u p)
  then have "pc' = BindDone (Inr (u, p))" "peers d' = peers d" "db_ok d'"
    using assms(1) audit_record_ok [OF assms(2)] by auto
  with assms(3) BindAudit show ?thesis by (auto simp: pc_ok_def select_by_user_def)
next
  case (BindDone res)
  with assms show ?thesis by auto
qed

lemma pc_ok_mono:
  assumes "pc_ok d r pc" "\<And>w q. select_by_user w d = Some q \<Longrightarrow> select_by_user w d' = Some q"
  shows "pc_ok d' r pc"
  using assms by (auto simp: pc_ok_def split: bind_pc.splits sum.splits)

text \<open>One step of the server: what \<open>bind_step_ok\<close> says, for all requests.\<close>

definition ctl_ok :: "(nat \<Rightarrow> request) \<Rightarrow> ctl \<Rightarrow> bool" where
  "ctl_ok reqs s \<longleftrightarrow> db_ok (cdb s) \<and> (\<forall>i. pc_ok (cdb s) (reqs i) (tasks s i))"

lemma ctl_step_ok:
  assumes "ctl_step v s s'" "ctl_ok reqs s"
  shows "ctl_ok reqs s'
    \<and> (\<forall>w q. select_by_user w (cdb s) = Some q \<longrightarrow> select_by_user w (cdb s') = Some q)"
  using assms(1)
proof cases
  case (bind ok draw now i pc d)
  from bind_step_ok [OF bind(2), of "reqs i"] assms(2) have
    "db_ok d" "pc_ok d (reqs i) pc" "\<And>w q. select_by_user w (cdb s) = Some q \<Longrightarrow> select_by_user w d = Some q"
    by (auto simp: ctl_ok_def)
  with assms(2) pc_ok_mono [of "cdb s" _ _ d] show ?thesis by (simp add: bind(1) ctl_ok_def)
next
  case (ingest ok now hdr ev res d)
  then have "peers d = peers (cdb s)" "db_ok d"
    using assms(2) by (auto simp: ingest_audit_def audit_record_ok ctl_ok_def split: sum.splits)
  moreover from this(1) have "select_by_user w d = select_by_user w (cdb s)" for w
    by (simp add: select_by_user_def)
  ultimately show ?thesis using assms(2) pc_ok_mono [of "cdb s" _ _ d] by (simp add: ingest(1) ctl_ok_def)
qed

interpretation ctl_sys: safe_system "ctl_init reqs" "ctl_step v" "ctl_reachable v reqs" "ctl_ok reqs" for v reqs
proof
  show "ctl_ok reqs (ctl_init reqs)" by (simp add: ctl_ok_def ctl_init_def db_ok_def db_empty_def pc_ok_def)
  show "P s" if "ctl_reachable v reqs s" "P (ctl_init reqs)"
    "\<And>t u. ctl_reachable v reqs t \<Longrightarrow> P t \<Longrightarrow> ctl_step v t u \<Longrightarrow> P u" for s and P
    using that by (rule ctl_reachable.induct)
qed (auto intro: ctl_reachable.intros dest: ctl_step_ok)

lemma ctl_reachable_ok:
  "ctl_reachable v reqs s \<Longrightarrow> db_ok (cdb s) \<and> (\<forall>i. pc_ok (cdb s) (reqs i) (tasks s i))"
  using ctl_sys.reach_safe by (simp add: ctl_ok_def)

text \<open>A schedule: which request moves, whether its call succeeds, its random draw, its clock.\<close>

fun ctl_run :: "ctl_env \<Rightarrow> (nat \<times> bool \<times> u64 \<times> int) list \<Rightarrow> ctl \<Rightarrow> ctl" where
  "ctl_run v [] s = s"
| "ctl_run v ((i, ok, draw, now) # moves) s =
     (let (pc, d) = bind_step v ok draw now (tasks s i) (cdb s) in
      ctl_run v moves (s\<lparr>cdb := d, tasks := (tasks s)(i := pc)\<rparr>))"

lemma ctl_run_reachable: "ctl_reachable v reqs s \<Longrightarrow> ctl_reachable v reqs (ctl_run v moves s)"
proof (induction v moves s rule: ctl_run.induct)
  case (2 v i ok draw now moves s)
  obtain pc d where m: "bind_step v ok draw now (tasks s i) (cdb s) = (pc, d)" by fastforce
  from ctl_reachable.step [OF "2.prems" ctl_step.bind [OF m]] "2.IH" [OF m [symmetric] refl]
  show ?case by (simp add: m)
qed simp

section \<open>Properties\<close>

text \<open>
  C37. However many bind requests run at once, however their database calls interleave and
  whichever of them fail, the answers agree: a request that succeeds is answered with the user
  it asked for and the peer id the table holds for it, nine digits; two successes carry the
  same peer id exactly when they are for the same user.
\<close>

theorem bind_answers_agree:
  assumes "ctl_reachable v reqs s"
    and "tasks s i = BindDone (Inr (u, p))" "tasks s j = BindDone (Inr (w, q))"
  shows "u = req_user (reqs i) \<and> nine_digits p \<and> select_by_user u (cdb s) = Some p \<and> (u = w \<longleftrightarrow> p = q)"
proof -
  from ctl_reachable_ok [OF assms(1)] have db: "db_ok (cdb s)"
    and pc: "pc_ok (cdb s) (reqs i) (tasks s i)" "pc_ok (cdb s) (reqs j) (tasks s j)" by auto
  have up: "u = req_user (reqs i)" "select_by_user u (cdb s) = Some p"
    using pc(1) unfolding assms(2) by (auto simp: pc_ok_def)
  have wq: "select_by_user w (cdb s) = Some q"
    using pc(2) unfolding assms(3) by (auto simp: pc_ok_def)
  obtain r where r: "r \<in> set (peers (cdb s))" "user_id r = u" "peer_id r = p"
    using select_by_user_Some [OF up(2)] by blast
  have "p = q \<Longrightarrow> u = w" using select_by_user_inj [OF db] up(2) wq by blast
  moreover have "u = w \<Longrightarrow> p = q" using up(2) wq by simp
  moreover have "nine_digits p" using db r by (auto simp: db_ok_def)
  ultimately show ?thesis using up by auto
qed

definition demo_env :: ctl_env where
  "demo_env = \<lparr>to_str = Some, token = [116], user_meta = id\<rparr>"

definition demo_request :: "ustring \<Rightarrow> request" where
  "demo_request u = \<lparr>header = Some (bearer_prefix @ [116]), req_user = u\<rparr>"

text \<open>Two users; the second one draws the id of the first one before it finds its own.\<close>

definition demo_state :: ctl where
  "demo_state =
     ctl_run demo_env
       [(0, True, 0, 0), (1, True, 0, 0), (0, True, 7, 0), (0, True, 0, 50), (1, True, 7, 0), (1, True, 8, 0),
        (1, True, 0, 51), (1, False, 0, 52), (0, True, 0, 53)]
       (ctl_init (\<lambda>i. demo_request [97 + i]))"

lemmas demo_defs = demo_state_def demo_env_def demo_request_def ctl_init_def db_empty_def require_token_def
  starts_with_iff ct_eq_def bearer_prefix_def trim_def whitespace_def select_by_user_def select_by_peer_def
  insert_peer_def audit_record_def fresh_step_def random_id_def SPAN_def BASE_def decimal.simps

lemma demo_state_eq:
  "tasks demo_state 0 = BindDone (Inr ([97], [49, 48, 48, 48, 48, 48, 48, 48, 55]))"
  "tasks demo_state 1 = BindDone (Inr ([98], [49, 48, 48, 48, 48, 48, 48, 48, 56]))"
  "map audit_peer (audit (cdb demo_state)) = [Some [49, 48, 48, 48, 48, 48, 48, 48, 55]]"
  "select_by_user [98] (cdb demo_state) = Some [49, 48, 48, 48, 48, 48, 48, 48, 56]"
  by (simp_all add: demo_defs)

lemma demo_state_reachable: "ctl_reachable demo_env (\<lambda>i. demo_request [97 + i]) demo_state"
  unfolding demo_state_def by (intro ctl_run_reachable ctl_reachable.init)

theorem bind_answers_agree_witness: "nine_digits [49, 48, 48, 48, 48, 48, 48, 48, 55]"
  using bind_answers_agree [OF demo_state_reachable demo_state_eq(1,2)] by simp

text \<open>
  Binding is not idempotent under concurrency: of two requests for one new user, both past the
  lookup before either has inserted, the second is answered 500 although the user is bound.
\<close>

lemma concurrent_bind_fails:
  assumes "require_token (to_str v) (header r) (token v) = Inr ()" "trim (req_user r) \<noteq> []"
  shows "\<exists>s. ctl_reachable v (\<lambda>_. r) s \<and> tasks s 0 = BindDone (Inr (req_user r, random_id w))
    \<and> tasks s 1 = BindDone (Inl db_error) \<and> select_by_user (req_user r) (cdb s) = Some (random_id w)"
proof -
  let ?moves = "[(0, True, w, 0), (1, True, w, 0), (0, True, w, 0), (1, True, w, 0), (0, True, w, 0),
    (1, True, w, 0), (0, True, w, 0)]"
  let ?s = "ctl_run v ?moves (ctl_init (\<lambda>_. r))"
  have "ctl_reachable v (\<lambda>_. r) ?s" by (intro ctl_run_reachable ctl_reachable.init)
  moreover have "tasks ?s 0 = BindDone (Inr (req_user r, random_id w))" "tasks ?s 1 = BindDone (Inl db_error)"
    "select_by_user (req_user r) (cdb ?s) = Some (random_id w)"
    using assms by (simp_all add: ctl_init_def db_empty_def select_by_user_def select_by_peer_def
        fresh_step_def insert_peer_def audit_record_def)
  ultimately show ?thesis by blast
qed

lemma fold_or_zero:
  "fold (\<lambda>(x, y) diff. diff OR (x XOR y)) ps (d :: u8) = 0 \<longleftrightarrow> d = 0 \<and> (\<forall>(x, y) \<in> set ps. x = y)"
proof (induction ps arbitrary: d)
  case Nil
  then show ?case by simp
next
  case (Cons p ps)
  have "(a OR b = 0) \<longleftrightarrow> a = 0 \<and> b = 0" for a b :: u8
    by (rule or_eq_0_iff)
  moreover have "(x XOR y = 0) \<longleftrightarrow> x = y" for x y :: u8
  proof
    assume "x XOR y = 0"
    then have "x XOR (x XOR y) = x XOR 0" by simp
    then show "x = y" by (simp flip: xor.assoc)
  qed simp
  ultimately show ?case using Cons.IH by (cases p) auto
qed

lemma ct_eq_iff: "ct_eq a b \<longleftrightarrow> a = b"
proof
  assume "ct_eq a b"
  then have "length a = length b" "\<forall>(x, y) \<in> set (zip a b). x = y"
    by (simp_all add: ct_eq_def fold_or_zero)
  then have "a ! i = b ! i" if "i < length a" for i
    using that nth_mem [of i "zip a b"] by fastforce
  with \<open>length a = length b\<close> show "a = b" by (simp add: list_eq_iff_nth_eq)
next
  assume "a = b"
  then show "ct_eq a b" by (simp add: ct_eq_def fold_or_zero zip_same_conv_map)
qed

lemma require_token_iff:
  "require_token f hdr t = Inr () \<longleftrightarrow> (\<exists>h. hdr = Some h \<and> f h = Some (bearer_prefix @ t))"
proof (cases "Option.bind hdr f")
  case None
  then have "\<not> (\<exists>h x. hdr = Some h \<and> f h = Some x)" by (cases hdr) auto
  with None show ?thesis by (simp add: require_token_def)
next
  case (Some x)
  then obtain h where h: "hdr = Some h" "f h = Some x" by (auto simp: Option.bind_eq_Some_conv)
  have "(starts_with x bearer_prefix \<and> drop (length bearer_prefix) x = t) \<longleftrightarrow> x = bearer_prefix @ t"
    by (auto simp: starts_with_iff)
  then show ?thesis using h by (auto simp: require_token_def ct_eq_iff)
qed

text \<open>
  Nobody without the token gets past any handler: unless the Authorization header is
  exactly the prefix and the configured token, every request is answered 401 at its first step,
  before any query, and the tables are as they were.
\<close>

theorem control_requires_token:
  assumes "\<not> (\<exists>h. hdr = Some h \<and> to_str v h = Some (bearer_prefix @ token v))"
  shows "\<exists>e. status e = 401
    \<and> bind_step v ok draw now (BindStart \<lparr>header = hdr, req_user = u\<rparr>) d = (BindDone (Inl e), d)
    \<and> get_peer v ok hdr u d = Inl e
    \<and> ingest_audit v ok now hdr ev d = (Inl e, d)
    \<and> list_audit v ok ok2 hdr q d = Inl e"
proof -
  from assms have "require_token (to_str v) hdr (token v) \<noteq> Inr ()" by (simp add: require_token_iff)
  then obtain e where e: "require_token (to_str v) hdr (token v) = Inl e"
    by (cases "require_token (to_str v) hdr (token v)") auto
  moreover from e have "status e = 401"
    by (auto simp: require_token_def unauthorized_def split: option.splits if_splits)
  ultimately show ?thesis
    by (intro exI [of _ e]) (simp add: get_peer_def ingest_audit_def list_audit_def)
qed

theorem control_requires_token_witness:
  "get_peer demo_env True (Some (bearer_prefix @ [117])) [97] db_empty = Inl (unauthorized ''invalid token'')"
proof -
  have "\<not> (\<exists>h. Some (bearer_prefix @ [117]) = Some h \<and> to_str demo_env h = Some (bearer_prefix @ token demo_env))"
    by (simp add: demo_env_def)
  from control_requires_token [OF this, of True 0 0 "[97]" db_empty]
  have "\<exists>e. get_peer demo_env True (Some (bearer_prefix @ [117])) [97] db_empty = Inl e" by blast
  then show ?thesis by (simp add: get_peer_def demo_defs)
qed

fun bind_run :: "ctl_env \<Rightarrow> (bool \<times> u64 \<times> int \<times> db) list \<Rightarrow> bind_pc \<Rightarrow> bind_pc" where
  "bind_run v [] pc = pc"
| "bind_run v ((ok, draw, now, d) # ins) pc = bind_run v ins (fst (bind_step v ok draw now pc d))"

fun calls_left :: "bind_pc \<Rightarrow> nat" where
  "calls_left (BindStart r) = 19"
| "calls_left (BindFresh u k) = 18 - k"
| "calls_left (BindInsert u p) = 2"
| "calls_left (BindAudit u p) = 1"
| "calls_left (BindDone res) = 0"

definition attempts_bounded :: "bind_pc \<Rightarrow> bool" where
  "attempts_bounded pc \<longleftrightarrow> (\<forall>u k. pc = BindFresh u k \<longrightarrow> k < 16)"

lemma bind_step_progress:
  assumes "attempts_bounded pc"
  shows "calls_left (fst (bind_step v ok draw now pc d)) \<le> calls_left pc - 1
    \<and> attempts_bounded (fst (bind_step v ok draw now pc d))"
proof (cases pc)
  case (BindFresh u k)
  with assms have "k < 16" by (simp add: attempts_bounded_def)
  with BindFresh show ?thesis by (auto simp: attempts_bounded_def fresh_step_def split: option.split)
qed (auto simp: attempts_bounded_def split: sum.split option.split)

lemma bind_run_progress:
  "attempts_bounded pc \<Longrightarrow>
    calls_left (bind_run v ins pc) \<le> calls_left pc - length ins \<and> attempts_bounded (bind_run v ins pc)"
proof (induction ins arbitrary: pc)
  case Nil
  then show ?case by simp
next
  case (Cons x ins)
  obtain ok draw now d where x: "x = (ok, draw, now, d)" by (cases x)
  let ?pc = "fst (bind_step v ok draw now pc d)"
  have step: "calls_left ?pc \<le> calls_left pc - 1" "attempts_bounded ?pc"
    using bind_step_progress [OF Cons.prems] by simp_all
  have "calls_left (bind_run v ins ?pc) \<le> calls_left ?pc - length ins" "attempts_bounded (bind_run v ins ?pc)"
    using Cons.IH [OF step(2)] by simp_all
  then show ?case using step(1) by (simp add: x)
qed

lemma no_calls_left: "calls_left pc = 0 \<Longrightarrow> attempts_bounded pc \<Longrightarrow> \<exists>res. pc = BindDone res"
  by (cases pc) (auto simp: attempts_bounded_def)

text \<open>
  C40. Every bind request is answered: whatever the other requests do to the tables between its
  database calls, whichever calls fail and however the random draws collide, nineteen calls of
  its own are enough, sixteen of them for the id.
\<close>

theorem bind_terminates:
  assumes "19 \<le> length ins"
  shows "\<exists>res. bind_run v ins (BindStart r) = BindDone res"
proof (rule no_calls_left)
  have "attempts_bounded (BindStart r)" by (simp add: attempts_bounded_def)
  from bind_run_progress [OF this, of v ins] assms
  show "calls_left (bind_run v ins (BindStart r)) = 0" "attempts_bounded (bind_run v ins (BindStart r))"
    by simp_all
qed

text \<open>Every draw collides with the user already bound.\<close>

theorem bind_terminates_witness:
  "bind_run demo_env (replicate 19 (True, 7, 0, cdb demo_state)) (BindStart (demo_request [99]))
     = BindDone (Inl internal_error)"
proof -
  have "\<exists>res. bind_run demo_env (replicate 19 (True, 7, 0, cdb demo_state)) (BindStart (demo_request [99]))
     = BindDone res"
    by (rule bind_terminates) simp
  moreover have "select_by_peer (random_id 7) (cdb demo_state) \<noteq> None"
    "select_by_user [99] (cdb demo_state) = None"
    by (simp_all add: demo_defs)
  then have "bind_run demo_env (replicate 19 (True, 7, 0, cdb demo_state)) (BindStart (demo_request [99]))
     = BindDone (Inl internal_error)"
    by (auto simp: numeral_eq_Suc demo_defs(2-3,6-11) fresh_step_def)
  ultimately show ?thesis by simp
qed

section \<open>The audit listing\<close>

text \<open>The rows a listing is about, whatever its limit.\<close>

definition audit_matches :: "audit_query \<Rightarrow> db \<Rightarrow> audit_row \<Rightarrow> bool" where
  "audit_matches q d r \<longleftrightarrow>
     (case since q of None \<Rightarrow> 0 | Some t \<Rightarrow> t) \<le> ts r
     \<and> (case q_peer q of
          Some p \<Rightarrow> about_peer p r
        | None \<Rightarrow> (case q_user q of
                    None \<Rightarrow> True
                  | Some u \<Rightarrow> (case select_by_user u d of None \<Rightarrow> False | Some p \<Rightarrow> about_peer p r)))"

lemma sort_key_id: "sorted_wrt (<) (map f xs) \<Longrightarrow> sort_key f xs = xs"
  for f :: "'a \<Rightarrow> nat"
  by (rule sort_key_id_if_sorted) (simp add: strict_sorted_imp_sorted)

lemma newest_first:
  fixes f :: "'a \<Rightarrow> nat"
  assumes "sorted_wrt (<) (map f xs)"
  shows "sorted_wrt (\<lambda>a b. f b < f a) (take n (rev xs))"
    and "x \<in> set xs \<Longrightarrow> x \<notin> set (take n (rev xs)) \<Longrightarrow>
      length (take n (rev xs)) = n \<and> (\<forall>y \<in> set (take n (rev xs)). f x < f y)"
proof -
  have r: "sorted_wrt (\<lambda>a b. f b < f a) (rev xs)"
    using assms by (simp add: sorted_wrt_rev sorted_wrt_map)
  then show "sorted_wrt (\<lambda>a b. f b < f a) (take n (rev xs))" by (rule sorted_wrt_take)
  assume "x \<in> set xs" "x \<notin> set (take n (rev xs))"
  moreover have "set xs = set (take n (rev xs)) \<union> set (drop n (rev xs))"
    by (metis append_take_drop_id set_append set_rev)
  ultimately have x: "x \<in> set (drop n (rev xs))" by blast
  then have "n \<le> length xs" by (cases "n \<le> length xs") auto
  moreover have "\<forall>y \<in> set (take n (rev xs)). f x < f y"
    using r x sorted_wrt_append [of "\<lambda>a b. f b < f a" "take n (rev xs)" "drop n (rev xs)"] by simp
  ultimately show "length (take n (rev xs)) = n \<and> (\<forall>y \<in> set (take n (rev xs)). f x < f y)" by simp
qed

lemma sorted_filter_ids: "sorted_wrt (<) (map f xs) \<Longrightarrow> sorted_wrt (<) (map f (filter P xs))"
  by (simp add: sorted_wrt_map sorted_wrt_filter)

lemma list_audit_rows:
  assumes "list_audit v ok1 ok2 hdr q d = Inr rows" "db_ok d"
  shows "rows = take (nat (clamp_limit (limit q))) (rev (filter (audit_matches q d) (audit d)))"
proof -
  have "sorted_wrt (<) (map audit_id (audit d))" using assms(2) by (simp add: db_ok_def)
  then have sel: "select_audit t0 P n d = take (nat n) (rev (filter (\<lambda>r. t0 \<le> ts r \<and> P r) (audit d)))"
    for t0 P n by (simp add: select_audit_def sort_key_id sorted_filter_ids)
  obtain u where tok: "require_token (to_str v) hdr (token v) = Inr u"
    using assms(1) by (cases "require_token (to_str v) hdr (token v)") (auto simp: list_audit_def)
  let ?from = "case since q of None \<Rightarrow> 0 | Some t \<Rightarrow> t"
  have by_peer: "rows = select_audit ?from (about_peer p) (clamp_limit (limit q)) d"
    if "q_peer q = Some p \<or> q_peer q = None \<and> (\<exists>u. q_user q = Some u \<and> select_by_user u d = Some p)" for p
    using assms(1) that by (auto simp: list_audit_def tok Let_def split: if_splits)
  show ?thesis
  proof (cases "q_peer q")
    case (Some p)
    then have "audit_matches q d = (\<lambda>r. ?from \<le> ts r \<and> about_peer p r)"
      by (simp add: audit_matches_def [abs_def])
    with by_peer [of p] Some show ?thesis by (simp add: sel)
  next
    case peer: None
    show ?thesis
    proof (cases "q_user q")
      case None
      with peer have "audit_matches q d = (\<lambda>r. ?from \<le> ts r \<and> True)"
        by (simp add: audit_matches_def [abs_def])
      moreover have "rows = select_audit ?from (\<lambda>_. True) (clamp_limit (limit q)) d"
        using assms(1) peer None by (auto simp: list_audit_def tok Let_def split: if_splits)
      ultimately show ?thesis by (simp add: sel)
    next
      case user: (Some u)
      show ?thesis
      proof (cases "select_by_user u d")
        case None
        with peer user have "audit_matches q d = (\<lambda>r. False)"
          by (simp add: audit_matches_def [abs_def])
        moreover have "rows = []"
          using assms(1) peer user None by (auto simp: list_audit_def tok Let_def split: if_splits)
        ultimately show ?thesis by simp
      next
        case (Some p)
        with peer user have "audit_matches q d = (\<lambda>r. ?from \<le> ts r \<and> about_peer p r)"
          by (simp add: audit_matches_def [abs_def])
        with by_peer [of p] peer user Some show ?thesis by (simp add: sel)
      qed
    qed
  qed
qed

text \<open>
  An audit listing is what it claims to be, in any reachable state: at most as many rows as
  the clamped limit allows, strictly newest first, each of them in the table and matching the
  filter, and a matching row is left out only when the limit is used up by newer ones.
\<close>

theorem audit_listing:
  assumes "ctl_reachable v reqs s" "list_audit v ok1 ok2 hdr q (cdb s) = Inr rows"
  shows "1 \<le> clamp_limit (limit q) \<and> clamp_limit (limit q) \<le> 1000
    \<and> int (length rows) \<le> clamp_limit (limit q)
    \<and> sorted_wrt (\<lambda>a b. audit_id b < audit_id a) rows
    \<and> (\<forall>r \<in> set rows. r \<in> set (audit (cdb s)) \<and> audit_matches q (cdb s) r)
    \<and> (\<forall>r \<in> set (audit (cdb s)). audit_matches q (cdb s) r \<longrightarrow> r \<notin> set rows \<longrightarrow>
         int (length rows) = clamp_limit (limit q) \<and> (\<forall>x \<in> set rows. audit_id r < audit_id x))"
proof -
  have db: "db_ok (cdb s)" using ctl_reachable_ok [OF assms(1)] by blast
  let ?n = "clamp_limit (limit q)" and ?m = "filter (audit_matches q (cdb s)) (audit (cdb s))"
  have n: "1 \<le> ?n" "?n \<le> 1000" by (simp_all add: clamp_limit_def)
  have rows: "rows = take (nat ?n) (rev ?m)" by (rule list_audit_rows [OF assms(2) db])
  have ids: "sorted_wrt (<) (map audit_id ?m)"
    by (rule sorted_filter_ids) (use db in \<open>simp add: db_ok_def\<close>)
  have "set rows \<subseteq> set ?m" unfolding rows using set_take_subset [of "nat ?n" "rev ?m"] by simp
  moreover have "int (length rows) \<le> ?n" using n by (simp add: rows)
  moreover have "int (length rows) = ?n \<and> (\<forall>x \<in> set rows. audit_id r < audit_id x)"
    if "r \<in> set (audit (cdb s))" "audit_matches q (cdb s) r" "r \<notin> set rows" for r
    using newest_first(2) [OF ids, of r "nat ?n"] that n unfolding rows by auto
  moreover have "sorted_wrt (\<lambda>a b. audit_id b < audit_id a) rows"
    unfolding rows by (rule newest_first(1) [OF ids])
  ultimately show ?thesis using n by auto
qed

text \<open>The second user's rows: the limit 0 is raised to 1, and there are none about that peer yet.\<close>

theorem audit_listing_witness:
  "list_audit demo_env True True (header (demo_request []))
     \<lparr>since = None, q_user = Some [98], q_peer = None, limit = Some 0\<rparr> (cdb demo_state) = Inr []"
proof -
  let ?q = "\<lparr>since = None, q_user = Some [98], q_peer = None, limit = Some 0\<rparr>"
  have tok: "require_token (to_str demo_env) (header (demo_request [])) (token demo_env) = Inr ()"
    by (simp add: demo_env_def demo_request_def require_token_iff)
  have l: "list_audit demo_env True True (header (demo_request [])) ?q (cdb demo_state)
    = Inr (select_audit 0 (about_peer [49, 48, 48, 48, 48, 48, 48, 48, 56]) 1 (cdb demo_state))"
    by (simp add: list_audit_def tok demo_state_eq(4) clamp_limit_def)
  from audit_listing [OF demo_state_reachable l]
  have "\<forall>r \<in> set (select_audit 0 (about_peer [49, 48, 48, 48, 48, 48, 48, 48, 56]) 1 (cdb demo_state)).
    r \<in> set (audit (cdb demo_state)) \<and> audit_matches ?q (cdb demo_state) r" by blast
  moreover have "\<not> audit_matches ?q (cdb demo_state) r" if "r \<in> set (audit (cdb demo_state))" for r
    using that by (auto simp: audit_matches_def about_peer_def demo_defs)
  ultimately show ?thesis using l by (metis list.set_intros(1) neq_Nil_conv)
qed

end
