(* ===== verification/Stream_Server.thy ===== *)
theory Stream_Server
  imports Control Sockets Capturer Mac_Capturer Rooms
begin

text \<open>
  How a publisher and a viewer reach the same room: the start and the routes of the stream
  server (\<open>main\<close>, \<open>stream_publisher\<close> and \<open>stream_viewer\<close> of \<open>crates/stream/src/main.rs\<close>) and the
  start of the capturer (\<open>main\<close> and \<open>start_native\<close> of \<open>crates/capturer/src/main.rs\<close>), which builds the
  publisher's address. axum's path matching and the opening of a connection are parameters.
\<close>

section \<open>The stream server's start and routes\<close>

record stream_args =
  sa_port :: nat

definition stream_args_default :: stream_args where
  "stream_args_default = \<lparr>sa_port = 21130\<rparr>"

definition stream_main :: "(protocol \<times> nat \<Rightarrow> bool) \<Rightarrow> stream_args \<Rightarrow> string + stream" where
  "stream_main free args =
     (case bind_all free [(TCP, sa_port args, ''bind '' @ any_addr (sa_port args))] of
        Inl e \<Rightarrow> Inl e | Inr _ \<Rightarrow> Inr stream_init)"

datatype stream_route = PublisherRoute | ViewerRoute | HealthRoute

definition stream_routes :: "(string \<times> stream_route) list" where
  "stream_routes =
     [(''/ws/stream/:peer_id'', PublisherRoute), (''/ws/view/:peer_id'', ViewerRoute),
      (''/healthz'', HealthRoute)]"

text \<open>
  What a request ends in: the upgraded socket is handed to \<open>handle_publisher\<close> or \<open>handle_viewer\<close>
  with the peer id of the path; a request that is no upgrade is refused. All routes are for GET;
  \<open>captures\<close> is the router's matching.
\<close>

datatype served = Publish string | Watch string | HealthOk | Refused nat

definition stream_publisher :: "bool \<Rightarrow> string \<Rightarrow> served" where
  "stream_publisher upgrade peer = (if upgrade then Publish peer else Refused 400)"

definition stream_viewer :: "bool \<Rightarrow> string \<Rightarrow> served" where
  "stream_viewer upgrade peer = (if upgrade then Watch peer else Refused 400)"

definition stream_serve :: "(string \<Rightarrow> string \<Rightarrow> string option) \<Rightarrow> bool \<Rightarrow> bool \<Rightarrow> string \<Rightarrow> served" where
  "stream_serve captures is_get upgrade path =
     (case find (\<lambda>(pat, _). captures pat path \<noteq> None) stream_routes of
        None \<Rightarrow> Refused 404
      | Some (pat, route) \<Rightarrow>
          (if \<not> is_get then Refused 405
           else case route of
             HealthRoute \<Rightarrow> HealthOk
           | PublisherRoute \<Rightarrow> stream_publisher upgrade (the (captures pat path))
           | ViewerRoute \<Rightarrow> stream_viewer upgrade (the (captures pat path))))"

section \<open>The capturer's start\<close>

record capturer_args =
  cp_peer_id :: string
  cp_stream_url :: string
  cp_width :: u32
  cp_height :: u32
  cp_fps :: u32
  cp_bitrate_kbps :: u32

definition capturer_args_default :: "string \<Rightarrow> capturer_args" where
  "capturer_args_default peer =
     \<lparr>cp_peer_id = peer, cp_stream_url = ''ws://127.0.0.1:21130/ws/stream'',
      cp_width = 1920, cp_height = 1080, cp_fps = 30, cp_bitrate_kbps = 4000\<rparr>"

datatype os = MacOS | OtherOS

text \<open>\<open>start_native\<close>: on macOS the native capturer on the default display, elsewhere an error.\<close>

definition start_native ::
  "os \<Rightarrow> u32 option \<Rightarrow> u32 \<Rightarrow> u32 \<Rightarrow> u32 \<Rightarrow> u32 \<Rightarrow> mac_capturer option \<Rightarrow> (string + unit) \<times> mac_capturer option" where
  "start_native os picked w h f b s =
     (case os of
        MacOS \<Rightarrow> mac_start w h f b picked s
      | OtherOS \<Rightarrow> (Inl ''xyzen-capturer: only macOS is supported in v1'', s))"

text \<open>
  \<open>main\<close>: connect first, then start the capturer; \<open>reachable\<close> says which URLs accept a
  connection. The result is the bridge that then runs, and the URL.
\<close>

definition capturer_main ::
  "(string \<Rightarrow> bool) \<Rightarrow> os \<Rightarrow> u32 option \<Rightarrow> capturer_args \<Rightarrow> (string + bridge \<times> string) \<times> mac_capturer option" where
  "capturer_main reachable os picked args =
     (let url = publisher_url (cp_stream_url args) (cp_peer_id args) in
      if \<not> reachable url then (Inl (''ws connect '' @ url), None)
      else case start_native os picked (cp_width args) (cp_height args) (cp_fps args) (cp_bitrate_kbps args) None of
        (Inl e, s) \<Rightarrow> (Inl e, s)
      | (Inr _, s) \<Rightarrow> (Inr (bridge_init, url), s))"

section \<open>The same room\<close>

text \<open>The documented meaning of \<open>:peer_id\<close>: one path segment, not empty.\<close>

definition segment_after :: "string \<Rightarrow> string \<Rightarrow> string option" where
  "segment_after base path =
     (let x = drop (length base) path in
      if starts_with path base \<and> x \<noteq> [] \<and> CHR ''/'' \<notin> set x then Some x else None)"

definition segment_router :: "(string \<Rightarrow> string \<Rightarrow> string option) \<Rightarrow> bool" where
  "segment_router captures \<longleftrightarrow>
     (\<forall>path. CHR ''%'' \<notin> set path \<longrightarrow>
        captures ''/ws/stream/:peer_id'' path = segment_after ''/ws/stream/'' path
        \<and> captures ''/ws/view/:peer_id'' path = segment_after ''/ws/view/'' path
        \<and> captures ''/healthz'' path = (if path = ''/healthz'' then Some [] else None))"

lemma publisher_url_slashes:
  assumes "base \<noteq> []" "last base \<noteq> CHR ''/''"
  shows "publisher_url (base @ replicate n (CHR ''/'')) peer = base @ ''/'' @ peer"
proof -
  have "dropWhile (\<lambda>c. c = CHR ''/'') (replicate n (CHR ''/'') @ rev base) = rev base"
    using assms by (subst dropWhile_append2) (auto simp: hd_rev dropWhile_eq_self_iff)
  then have "dropWhile (\<lambda>c. c = CHR ''/'') (rev (base @ replicate n (CHR ''/''))) = rev base"
    by simp
  then show ?thesis by (simp add: publisher_url_def)
qed

lemma nine_digits_plain:
  assumes "nine_digits (utext peer)"
  shows "peer \<noteq> []" "CHR ''/'' \<notin> set peer" "CHR ''%'' \<notin> set peer"
  using assms by (auto simp: nine_digits_def utext_def)

lemma starts_with_append [simp]: "starts_with (xs @ ys) xs"
  by (simp add: starts_with_iff)

lemma segment_after_append: "x \<noteq> [] \<Longrightarrow> CHR ''/'' \<notin> set x \<Longrightarrow> segment_after base (base @ x) = Some x"
  by (simp add: segment_after_def)

lemma room_for_again: "room_for k s = (r, s') \<Longrightarrow> room_for k s' = (r, s')"
  by (auto simp: room_for_def split: option.splits)

text \<open>
  C36. A publisher and a viewer of one user meet. For a peer id as the control plane hands them
  out, and any stream URL with the publishing path, whatever its trailing slashes, the address
  the capturer connects to is routed to the publisher's handler and the viewing address to the
  viewer's, both with that peer id, and whichever comes second finds the room the first one made.
\<close>

theorem capturer_and_viewer_meet:
  assumes "nine_digits (utext peer)" "segment_router captures"
    and "cp_peer_id args = peer" "cp_stream_url args = host @ ''/ws/stream'' @ replicate n (CHR ''/'')"
    and "capturer_main reachable os picked args = (Inr (b, url), m)"
  shows "os = MacOS \<and> url = host @ ''/ws/stream/'' @ peer
    \<and> stream_serve captures True True (drop (length host) url) = Publish peer
    \<and> stream_serve captures True True (''/ws/view/'' @ peer) = Watch peer
    \<and> (\<forall>s r s'. room_for peer s = (r, s') \<longrightarrow> room_for peer s' = (r, s'))"
proof -
  note plain = nine_digits_plain [OF assms(1)]
  have start: "os = MacOS" "url = publisher_url (cp_stream_url args) peer"
    using assms(3,5)
    by (auto simp: capturer_main_def start_native_def Let_def split: if_splits sum.splits prod.splits os.splits)
  have url: "url = host @ ''/ws/stream/'' @ peer"
    using publisher_url_slashes [of "host @ ''/ws/stream''" n peer]
    by (simp add: start(2) assms(4))
  have "CHR ''%'' \<notin> set (''/ws/stream/'' @ peer)" "CHR ''%'' \<notin> set (''/ws/view/'' @ peer)"
    using plain(3) by simp_all
  note router = assms(2) [unfolded segment_router_def, rule_format, OF this(1)]
    assms(2) [unfolded segment_router_def, rule_format, OF this(2)]
  have "segment_after ''/ws/stream/'' (''/ws/stream/'' @ peer) = Some peer"
    "segment_after ''/ws/view/'' (''/ws/view/'' @ peer) = Some peer"
    using plain by (simp_all only: segment_after_append not_False_eq_True)
  moreover have "segment_after ''/ws/stream/'' (''/ws/view/'' @ peer) = None"
    by (simp add: segment_after_def)
  ultimately have "stream_serve captures True True (''/ws/stream/'' @ peer) = Publish peer"
    "stream_serve captures True True (''/ws/view/'' @ peer) = Watch peer"
    using router
    by (simp_all add: stream_serve_def stream_routes_def stream_publisher_def stream_viewer_def del: append_Cons)
  moreover have "drop (length host) url = ''/ws/stream/'' @ peer" by (simp add: url)
  ultimately show ?thesis using start(1) url room_for_again by (simp only: simp_thms) blast
qed

definition demo_router :: "string \<Rightarrow> string \<Rightarrow> string option" where
  "demo_router pat path =
     (if pat = ''/ws/stream/:peer_id'' then segment_after ''/ws/stream/'' path
      else if pat = ''/ws/view/:peer_id'' then segment_after ''/ws/view/'' path
      else if pat = path then Some [] else None)"

text \<open>The default arguments, for the first peer id there is.\<close>

theorem capturer_and_viewer_meet_witness:
  "stream_serve demo_router True True ''/ws/stream/100000000'' = Publish ''100000000''"
proof -
  let ?args = "capturer_args_default ''100000000''"
  let ?url = "publisher_url (cp_stream_url ?args) ''100000000''"
  have "nine_digits (utext ''100000000'')" by (simp add: nine_digits_def)
  moreover have "segment_router demo_router" by (simp add: segment_router_def demo_router_def)
  moreover have "cp_stream_url ?args = ''ws://127.0.0.1:21130'' @ ''/ws/stream'' @ replicate 0 (CHR ''/'')"
    by (simp add: capturer_args_default_def)
  moreover have "capturer_main (\<lambda>_. True) MacOS (Some 1) ?args
      = (Inr (bridge_init, ?url), snd (capturer_main (\<lambda>_. True) MacOS (Some 1) ?args))"
    by (simp add: capturer_main_def start_native_def mac_start_def xz_capturer_start_def capturer_args_default_def)
  moreover have "cp_peer_id ?args = ''100000000''" by (simp add: capturer_args_default_def)
  ultimately have "stream_serve demo_router True True (drop (length ''ws://127.0.0.1:21130'') ?url) = Publish ''100000000''"
    using capturer_and_viewer_meet [of "''100000000''" demo_router ?args "''ws://127.0.0.1:21130''" 0
        "\<lambda>_. True" MacOS "Some 1" bridge_init ?url] by blast
  moreover have "drop (length ''ws://127.0.0.1:21130'') ?url = ''/ws/stream/100000000''"
    by (simp add: publisher_url_def capturer_args_default_def)
  ultimately show ?thesis by (simp only:)
qed

end
