(* ===== verification/Control_Server.thy ===== *)
theory Control_Server
  imports Control Sockets
begin

text \<open>
  The control plane around its handlers: the start in \<open>main.rs\<close> with \<open>connect\<close> and \<open>migrate\<close> of
  \<open>db.rs\<close>, the route table of \<open>serve\<close> in \<open>http.rs\<close>, and what a request to any path is answered.
  axum's path matching and its extractors, serde and SQLite's opening of a file are
  parameters. A database file holds the tables, or none yet.
\<close>

section \<open>The start\<close>

record control_args =
  ca_port :: nat
  ca_token :: bytes
  ca_db :: string

definition control_args_default :: "bytes \<Rightarrow> control_args" where
  "control_args_default t = \<lparr>ca_port = 21120, ca_token = t, ca_db = ''xyzen-control.sqlite''\<rparr>"

record sqlite_options =
  so_url :: string
  so_create_if_missing :: bool
  so_max_connections :: nat

definition sqlite_options_of :: "string \<Rightarrow> sqlite_options" where
  "sqlite_options_of path =
     \<lparr>so_url = ''sqlite://'' @ path, so_create_if_missing = True, so_max_connections = 8\<rparr>"

type_synonym db_file = "db option"

text \<open>
  \<open>parses\<close> is what the driver accepts as a URL, \<open>opens\<close> what it finds when it opens it.
\<close>

definition connect ::
  "(string \<Rightarrow> bool) \<Rightarrow> (sqlite_options \<Rightarrow> db_file option) \<Rightarrow> string \<Rightarrow> string + db_file" where
  "connect parses opens path =
     (let opts = sqlite_options_of path in
      if \<not> parses (so_url opts) then Inl (''parse sqlite url for '' @ path)
      else case opens opts of
             None \<Rightarrow> Inl (''open sqlite at '' @ path)
           | Some file \<Rightarrow> Inr file)"

text \<open>The migration creates the tables if they do not exist; \<open>ok\<close> is whether it succeeds.\<close>

definition migrate :: "bool \<Rightarrow> db_file \<Rightarrow> string + db" where
  "migrate ok file =
     (if ok then Inr (case file of None \<Rightarrow> db_empty | Some d \<Rightarrow> d) else Inl ''run migrations'')"

definition control_main ::
  "(string \<Rightarrow> bool) \<Rightarrow> (sqlite_options \<Rightarrow> db_file option) \<Rightarrow> bool \<Rightarrow> (protocol \<times> nat \<Rightarrow> bool)
     \<Rightarrow> control_args \<Rightarrow> string + db" where
  "control_main parses opens ok free args =
     (case connect parses opens (ca_db args) of
        Inl e \<Rightarrow> Inl e
      | Inr file \<Rightarrow>
          (case migrate ok file of
             Inl e \<Rightarrow> Inl e
           | Inr d \<Rightarrow>
               (case bind_all free [(TCP, ca_port args, ''bind '' @ any_addr (ca_port args))] of
                  Inl e \<Rightarrow> Inl e
                | Inr _ \<Rightarrow> Inr d)))"

text \<open>The server as it then runs, with the requests it will get.\<close>

definition ctl_start :: "(nat \<Rightarrow> request) \<Rightarrow> db \<Rightarrow> ctl" where
  "ctl_start reqs d = \<lparr>cdb = d, tasks = (\<lambda>i. BindStart (reqs i))\<rparr>"

section \<open>Routes\<close>

datatype http_method = GET | HEAD | POST | OtherMethod string

datatype endpoint = Healthz | BindPeer | GetPeer | ListAudit | IngestAudit

definition control_routes :: "(string \<times> http_method \<times> endpoint) list" where
  "control_routes =
     [(''/healthz'', GET, Healthz),
      (''/v1/peers'', POST, BindPeer),
      (''/v1/peers/:user_id'', GET, GetPeer),
      (''/v1/audit'', GET, ListAudit),
      (''/v1/_internal/audit'', POST, IngestAudit)]"

record http_request =
  hr_method :: http_method
  hr_path :: string
  hr_auth :: "bytes option"
  hr_query :: string
  hr_body :: bytes

text \<open>
  What axum and serde contribute: the text a pattern captures from a path, and the extractors,
  which yield a value or the status they refuse the request with.
\<close>

record web =
  captures :: "string \<Rightarrow> string \<Rightarrow> ustring option"
  json_bind :: "http_request \<Rightarrow> nat + ustring"
  json_ingest :: "http_request \<Rightarrow> nat + ingest"
  query_audit :: "http_request \<Rightarrow> nat + audit_query"

datatype response =
    Health
  | Refused nat
  | Failed app_error
  | Accepted nat
  | PeerResp ustring ustring
  | Rows "audit_row list"
  | Running bind_pc

text \<open>
  \<open>IntoResponse\<close> of an error, the status line and the JSON body. \<open>to_response\<close> is that of a
  handler's result.
\<close>

definition into_response :: "app_error \<Rightarrow> nat \<times> string \<times> string" where
  "into_response e = (status e, ''error'', msg e)"

definition to_response :: "('a \<Rightarrow> response) \<Rightarrow> app_error + 'a \<Rightarrow> response" where
  "to_response f r = (case r of Inl e \<Rightarrow> Failed e | Inr x \<Rightarrow> f x)"

text \<open>A path that no route matches is 404, a method that the route does not have 405; a route
  for GET serves HEAD too.\<close>

definition find_route :: "web \<Rightarrow> http_request \<Rightarrow> nat + endpoint \<times> ustring" where
  "find_route w r =
     (case find (\<lambda>(pat, _). captures w pat (hr_path r) \<noteq> None) control_routes of
        None \<Rightarrow> Inl 404
      | Some (pat, m, e) \<Rightarrow>
          (if hr_method r = m \<or> m = GET \<and> hr_method r = HEAD then Inr (e, the (captures w pat (hr_path r))) else Inl 405))"

text \<open>
  The handlers with the responses they turn into: \<open>bind_peer\<close> up to its first database call, and
  the three others as a whole.
\<close>

definition serve_bind ::
  "ctl_env \<Rightarrow> bool \<Rightarrow> u64 \<Rightarrow> int \<Rightarrow> ustring \<Rightarrow> bytes option \<Rightarrow> db \<Rightarrow> response \<times> db" where
  "serve_bind v ok draw now u hdr d =
     (case bind_step v ok draw now (BindStart \<lparr>header = hdr, req_user = u\<rparr>) d of
        (BindDone res, d') \<Rightarrow> (to_response (\<lambda>(u, p). PeerResp u p) res, d')
      | (pc, d') \<Rightarrow> (Running pc, d'))"

definition serve_get :: "ctl_env \<Rightarrow> bool \<Rightarrow> ustring \<Rightarrow> bytes option \<Rightarrow> db \<Rightarrow> response \<times> db" where
  "serve_get v ok u hdr d = (to_response (\<lambda>(u, p). PeerResp u p) (get_peer v ok hdr u d), d)"

definition serve_list ::
  "ctl_env \<Rightarrow> bool \<Rightarrow> bool \<Rightarrow> audit_query \<Rightarrow> bytes option \<Rightarrow> db \<Rightarrow> response \<times> db" where
  "serve_list v ok ok2 q hdr d = (to_response Rows (list_audit v ok ok2 hdr q d), d)"

definition serve_ingest ::
  "ctl_env \<Rightarrow> bool \<Rightarrow> int \<Rightarrow> ingest \<Rightarrow> bytes option \<Rightarrow> db \<Rightarrow> response \<times> db" where
  "serve_ingest v ok now ev hdr d =
     (case ingest_audit v ok now hdr ev d of (res, d') \<Rightarrow> (to_response Accepted res, d'))"

text \<open>
  A request from the router to its handler. The extractors run before the handler's body.
\<close>

definition healthz :: response where
  "healthz = Health"

definition with_extractor ::
  "nat + 'a \<Rightarrow> ('a \<Rightarrow> bytes option \<Rightarrow> db \<Rightarrow> response \<times> db) \<Rightarrow> bytes option \<Rightarrow> db \<Rightarrow> response \<times> db" where
  "with_extractor x h hdr d = (case x of Inl st \<Rightarrow> (Refused st, d) | Inr a \<Rightarrow> h a hdr d)"

definition control_serve ::
  "web \<Rightarrow> ctl_env \<Rightarrow> bool \<Rightarrow> bool \<Rightarrow> u64 \<Rightarrow> int \<Rightarrow> http_request \<Rightarrow> db \<Rightarrow> response \<times> db" where
  "control_serve w v ok ok2 draw now r d =
     (case find_route w r of
        Inl st \<Rightarrow> (Refused st, d)
      | Inr (Healthz, _) \<Rightarrow> (healthz, d)
      | Inr (BindPeer, _) \<Rightarrow> with_extractor (json_bind w r) (serve_bind v ok draw now) (hr_auth r) d
      | Inr (GetPeer, u) \<Rightarrow> serve_get v ok u (hr_auth r) d
      | Inr (ListAudit, _) \<Rightarrow> with_extractor (query_audit w r) (serve_list v ok ok2) (hr_auth r) d
      | Inr (IngestAudit, _) \<Rightarrow>
          with_extractor (json_ingest w r) (serve_ingest v ok now) (hr_auth r) d)"

section \<open>Nothing without the token\<close>

text \<open>
  What every protected handler has in common: it is given the header and the database, and
  unless the header carries the token it fails with 401 and leaves the database alone.
\<close>

locale guarded =
  fixes v :: ctl_env and handle :: "bytes option \<Rightarrow> db \<Rightarrow> response \<times> db"
  assumes guard: "require_token (to_str v) hdr (token v) = Inl e \<Longrightarrow> handle hdr d = (Failed e, d)"
begin

lemma unauthenticated:
  assumes "hdr \<noteq> None \<longrightarrow> to_str v (the hdr) \<noteq> Some (bearer_prefix @ token v)"
  shows "\<exists>e. handle hdr d = (Failed e, d) \<and> status e = 401"
proof -
  have "require_token (to_str v) hdr (token v) \<noteq> Inr ()"
    using assms by (auto simp: require_token_iff)
  then obtain e where e: "require_token (to_str v) hdr (token v) = Inl e"
    by (cases "require_token (to_str v) hdr (token v)") auto
  moreover from e have "status e = 401"
    by (auto simp: require_token_def unauthorized_def split: option.splits if_splits)
  ultimately show ?thesis using guard by blast
qed

end

interpretation bind: guarded v "serve_bind v ok draw now u"
  by unfold_locales (simp add: serve_bind_def to_response_def)

interpretation get: guarded v "serve_get v ok u"
  by unfold_locales (simp add: serve_get_def get_peer_def to_response_def)

interpretation listing: guarded v "serve_list v ok ok2 q"
  by unfold_locales (simp add: serve_list_def list_audit_def to_response_def)

interpretation ingest: guarded v "serve_ingest v ok now ev"
  by unfold_locales (simp add: serve_ingest_def ingest_audit_def to_response_def)

text \<open>The tables are as they were, and the answer tells nothing.\<close>

definition gives_nothing :: "db \<Rightarrow> response \<times> db \<Rightarrow> bool" where
  "gives_nothing d out \<longleftrightarrow> snd out = d
    \<and> (case fst out of
         Health \<Rightarrow> True | Refused _ \<Rightarrow> True | Failed e \<Rightarrow> status e = 401 | _ \<Rightarrow> False)"

lemma gives_nothing_intros:
  "gives_nothing d (healthz, d)" "gives_nothing d (Refused st, d)"
  "\<exists>e. out = (Failed e, d) \<and> status e = 401 \<Longrightarrow> gives_nothing d out"
  by (auto simp: gives_nothing_def healthz_def)

lemma with_extractor_gives_nothing:
  assumes "\<And>a. \<exists>e. h a hdr d = (Failed e, d) \<and> status e = 401"
  shows "gives_nothing d (with_extractor x h hdr d)"
  using assms by (cases x) (auto simp: with_extractor_def intro: gives_nothing_intros)

text \<open>
  C38. Nothing is to be had without the token, whatever the method, the path, the query and the
  body: unless the Authorization header is exactly the prefix and the configured token, the
  answer is the health check's, a refusal by the router or an extractor, or 401; the tables
  are not touched.
\<close>

theorem unauthenticated_gets_nothing:
  assumes "\<not> (\<exists>h. hr_auth r = Some h \<and> to_str v h = Some (bearer_prefix @ token v))"
  shows "gives_nothing d (control_serve w v ok ok2 draw now r d)"
proof -
  have h: "hr_auth r \<noteq> None \<longrightarrow> to_str v (the (hr_auth r)) \<noteq> Some (bearer_prefix @ token v)"
    using assms by auto
  note guarded = bind.unauthenticated [OF h] get.unauthenticated [OF h]
    listing.unauthenticated [OF h] ingest.unauthenticated [OF h]
  show ?thesis
    unfolding control_serve_def
    by (auto intro!: gives_nothing_intros with_extractor_gives_nothing guarded
        split: sum.split endpoint.split)
qed

definition demo_web :: web where
  "demo_web = \<lparr>captures = (\<lambda>pat path. if pat = path then Some [] else None),
     json_bind = (\<lambda>r. if hr_body r = [] then Inl 400 else Inr (map unat (hr_body r))),
     json_ingest = (\<lambda>r. Inl 415), query_audit = (\<lambda>r. Inl 400)\<rparr>"

definition demo_post :: "bytes option \<Rightarrow> http_request" where
  "demo_post hdr = \<lparr>hr_method = POST, hr_path = ''/v1/peers'', hr_auth = hdr, hr_query = [], hr_body = [97]\<rparr>"

theorem unauthenticated_gets_nothing_witness:
  "gives_nothing db_empty (control_serve demo_web demo_env True True 0 0 (demo_post (Some [117])) db_empty)
    \<and> \<not> gives_nothing db_empty
        (control_serve demo_web demo_env True True 0 0 (demo_post (Some (bearer_prefix @ [116]))) db_empty)"
proof -
  have "\<not> (\<exists>h. hr_auth (demo_post (Some [117])) = Some h \<and> to_str demo_env h = Some (bearer_prefix @ token demo_env))"
    by (simp add: demo_post_def demo_env_def bearer_prefix_def)
  from unauthenticated_gets_nothing [OF this]
  have "gives_nothing db_empty
    (control_serve demo_web demo_env True True 0 0 (demo_post (Some [117])) db_empty)" .
  moreover have "require_token (to_str demo_env) (Some (bearer_prefix @ [116])) (token demo_env) = Inr ()"
    by (simp add: require_token_iff demo_env_def)
  then have "\<not> gives_nothing db_empty
        (control_serve demo_web demo_env True True 0 0 (demo_post (Some (bearer_prefix @ [116]))) db_empty)"
    by (simp add: gives_nothing_def control_serve_def find_route_def control_routes_def demo_web_def
        demo_post_def with_extractor_def serve_bind_def select_by_user_def db_empty_def trim_def whitespace_def)
  ultimately show ?thesis by blast
qed

section \<open>Restarting\<close>

lemma ctl_start_ok: "db_ok d \<Longrightarrow> ctl_ok reqs (ctl_start reqs d)"
  by (simp add: ctl_ok_def ctl_start_def pc_ok_def)

lemma db_empty_ok: "db_ok db_empty"
  by (simp add: db_ok_def db_empty_def)

lemma ctl_run_ok:
  assumes "rtranclp (ctl_step v) s t" "ctl_ok reqs s"
  shows "ctl_ok reqs t
    \<and> (\<forall>w q. select_by_user w (cdb s) = Some q \<longrightarrow> select_by_user w (cdb t) = Some q)"
  using assms
proof (induction rule: rtranclp_induct)
  case (step t u)
  from ctl_step_ok [OF step.hyps(2)] step.IH [OF step.prems] show ?case by blast
qed simp

lemma control_main_reopens:
  assumes "control_main parses opens ok free args = Inr d" "opens (sqlite_options_of (ca_db args)) = Some file"
  shows "d = (case file of None \<Rightarrow> db_empty | Some d' \<Rightarrow> d')"
  using assms
  by (auto simp: control_main_def connect_def migrate_def Let_def split: sum.splits option.splits if_splits)

text \<open>
  C39. Bindings are for good. The server is killed at any moment, with any number of requests in any
  stage, and started again on the same file, as often as one likes: a user who had a row keeps
  it, and whenever that user binds again, successfully, in the new process, the answer is the
  old peer id, whatever the other requests of the new process do.
\<close>

theorem binding_survives_restart:
  assumes "ctl_reachable v reqs s" "select_by_user u (cdb s) = Some p"
    and "opens (sqlite_options_of (ca_db args)) = Some (Some (cdb s))"
    and "control_main parses opens ok free args = Inr d"
    and "rtranclp (ctl_step v') (ctl_start reqs' d) t"
  shows "select_by_user u (cdb t) = Some p
    \<and> (\<forall>i w q. tasks t i = BindDone (Inr (w, q)) \<longrightarrow> w = u \<longrightarrow> q = p)
    \<and> (\<forall>i w q. tasks t i = BindDone (Inr (w, q)) \<longrightarrow> w \<noteq> u \<longrightarrow> q \<noteq> p)"
proof -
  have d: "d = cdb s" using control_main_reopens [OF assms(4,3)] by simp
  have "db_ok d" using ctl_reachable_ok [OF assms(1)] by (simp add: d)
  from ctl_run_ok [OF assms(5) ctl_start_ok [OF this]] assms(2)
  have t: "ctl_ok reqs' t" "select_by_user u (cdb t) = Some p" by (simp_all add: ctl_start_def d)
  have answered: "select_by_user w (cdb t) = Some q" if "tasks t i = BindDone (Inr (w, q))" for i w q
  proof -
    have "pc_ok (cdb t) (reqs' i) (tasks t i)" using t(1) by (simp add: ctl_ok_def)
    with that show ?thesis by (auto simp: pc_ok_def)
  qed
  have same: "w = u" if "select_by_user w (cdb t) = Some p" for w
    using select_by_user_inj t that by (auto simp: ctl_ok_def)
  show ?thesis
  proof (intro conjI allI impI)
    show "select_by_user u (cdb t) = Some p" by (rule t(2))
  next
    fix i w q
    assume "tasks t i = BindDone (Inr (w, q))"
    note a = answered [OF this]
    show "q = p" if "w = u" using a t(2) that by simp
    show "q \<noteq> p" if "w \<noteq> u" using a same that by blast
  qed
qed

text \<open>The first of the two demonstration users asks again after a restart.\<close>

theorem binding_survives_restart_witness:
  "\<exists>t. rtranclp (ctl_step demo_env) (ctl_start (\<lambda>_. demo_request [97]) (cdb demo_state)) t
    \<and> tasks t 0 = BindDone (Inr ([97], [49, 48, 48, 48, 48, 48, 48, 48, 55]))"
proof -
  let ?s = "ctl_start (\<lambda>_. demo_request [97]) (cdb demo_state)"
  let ?p = "[49, 48, 48, 48, 48, 48, 48, 48, 55]"
  have "pc_ok (cdb demo_state) (demo_request [97 + 0]) (tasks demo_state 0)"
    using ctl_reachable_ok [OF demo_state_reachable] by blast
  then have bound: "select_by_user [97] (cdb demo_state) = Some ?p"
    by (simp add: pc_ok_def demo_state_eq(1))
  have tok: "require_token (to_str demo_env) (header (demo_request [97])) (token demo_env) = Inr ()"
    by (simp add: demo_env_def demo_request_def require_token_iff)
  have m: "control_main (\<lambda>_. True) (\<lambda>_. Some (Some (cdb demo_state))) True (\<lambda>_. True)
      (control_args_default [116]) = Inr (cdb demo_state)"
    by (simp add: control_main_def connect_def migrate_def)
  have b: "bind_step demo_env True 0 0 (tasks ?s 0) (cdb ?s) = (BindDone (Inr ([97], ?p)), cdb demo_state)"
    using bound tok by (simp add: ctl_start_def demo_request_def trim_def whitespace_def)
  let ?t = "?s\<lparr>cdb := cdb demo_state, tasks := (tasks ?s)(0 := BindDone (Inr ([97], ?p)))\<rparr>"
  have r: "rtranclp (ctl_step demo_env) ?s ?t"
    by (rule r_into_rtranclp) (rule ctl_step.bind [OF b])
  from binding_survives_restart [OF demo_state_reachable bound _ m r] have
    "select_by_user [97] (cdb ?t) = Some ?p" by simp
  with r show ?thesis by (intro exI [of _ ?t]) simp
qed

end
