(* ===== verification/Audit_Trail.thy ===== *)
theory Audit_Trail
  imports Control_Server Rendezvous "HOL-Library.Multiset"
begin

text \<open>
  The rendezvous server and the control plane together: the events that \<open>Auditor::emit\<close> posts
  from the handlers (\<open>Rendezvous\<close>) become rows of the audit table (\<open>Control\<close>). Each post is a task
  of its own, so posts may arrive in any order, or not at all. The HTTP client and serde are
  parameters: the header a bearer token is sent in, and the event a body is read as.
\<close>

section \<open>Events of the handlers\<close>

definition event_of :: "env \<Rightarrow> string \<Rightarrow> string option \<Rightarrow> socket_addr \<Rightarrow> string \<Rightarrow> event" where
  "event_of v k pid a transport =
     \<lparr>ev_kind = k, ev_peer_id = pid, ev_controller_peer_id = None,
      ev_addr = Some (show_addr v a), ev_meta = Some [(''transport'', transport)]\<rparr>"

text \<open>The event of one message, if it has one: a \<open>RegisterPk\<close> has none.\<close>

definition message_events :: "env \<Rightarrow> socket_addr \<Rightarrow> string \<Rightarrow> rendezvous_message \<Rightarrow> event list" where
  "message_events v a transport m =
     (case msg_union m of
        Some (RegisterPeer rp) \<Rightarrow> [event_of v ''register'' (Some (rp_id rp)) a transport]
      | Some (PunchHoleRequest ph) \<Rightarrow> [event_of v ''punch_request'' (Some (ph_id ph)) a transport]
      | Some (RelayResponse _) \<Rightarrow> [event_of v ''relay_ack'' None a transport]
      | _ \<Rightarrow> [])"

definition is_registration :: "event \<Rightarrow> bool" where
  "is_registration ev \<longleftrightarrow> ev_kind ev = ''register''"

fun udp_events :: "env \<Rightarrow> (nat \<times> udp_recv) list \<Rightarrow> event list" where
  "udp_events v [] = []"
| "udp_events v ((_, UdpRecvError) # rs) = udp_events v rs"
| "udp_events v ((_, Datagram buf a) # rs) =
     (case pb_decode v buf of
        None \<Rightarrow> []
      | Some m \<Rightarrow> filter is_registration (message_events v a ''udp'' m)) @ udp_events v rs"

definition tcp_events :: "env \<Rightarrow> socket_addr \<Rightarrow> first_frame \<Rightarrow> event list" where
  "tcp_events v a frame =
     (case frame of
        FrameOk bs \<Rightarrow>
          (case pb_decode v bs of
             None \<Rightarrow> []
           | Some m \<Rightarrow> filter (\<lambda>ev. \<not> is_registration ev) (message_events v a ''tcp'' m))
      | _ \<Rightarrow> [])"

fun ws_events :: "env \<Rightarrow> socket_addr \<Rightarrow> (nat \<times> string option \<times> ws_item) list \<Rightarrow> event list" where
  "ws_events v a [] = []"
| "ws_events v a ((_, _, WsBinary bs) # items) =
     (case pb_decode v bs of None \<Rightarrow> [] | Some m \<Rightarrow> message_events v a ''ws'' m) @ ws_events v a items"
| "ws_events v a ((_, _, WsClose) # items) = []"
| "ws_events v a ((_, _, WsError) # items) = []"
| "ws_events v a (_ # items) = ws_events v a items"

section \<open>Posts\<close>

fun posts :: "action list \<Rightarrow> (string \<times> string) list" where
  "posts [] = []"
| "posts (Post url t body # acts) = (t, body) # posts acts"
| "posts (_ # acts) = posts acts"

definition post_of :: "env \<Rightarrow> event \<Rightarrow> (string \<times> string) list" where
  "post_of v ev =
     (case env_auditor v of
        None \<Rightarrow> []
      | Some inner \<Rightarrow> (case to_json v ev of None \<Rightarrow> [] | Some body \<Rightarrow> [(ai_token inner, body)]))"

lemma posts_append [simp]: "posts (xs @ ys) = posts xs @ posts ys"
  by (induction xs rule: posts.induct) auto

lemma posts_audit_event [simp]: "posts (audit_event v k pid a t) = post_of v (event_of v k pid a t)"
  by (simp add: audit_event_def emit_def post_of_def event_of_def split: option.split)

lemma posts_helpers [simp]:
  "posts (send_udp v m a) = []" "posts (punch_notify v r) = []"
  "posts (snd (dispatch_punch v target ch s)) = []" "posts (snd (dispatch_relay_ack v key s)) = []"
  by (auto simp: send_udp_def punch_notify_def dispatch_punch_def dispatch_relay_ack_def
      split: option.split reachable.split)

lemma event_of_kind [simp]: "is_registration (event_of v k pid a t) \<longleftrightarrow> k = ''register''"
  by (simp add: is_registration_def event_of_def)

abbreviation posts_of :: "env \<Rightarrow> event list \<Rightarrow> (string \<times> string) list" where
  "posts_of v evs \<equiv> concat (map (post_of v) evs)"

lemma udp_handle_posts: "posts (snd (udp_handle v now r s)) = posts_of v (udp_events v [(now, r)])"
  by (auto simp: udp_handle_def message_events_def split: udp_recv.split option.split union.split)

lemma udp_loop_posts: "posts (snd (udp_loop v rs s)) = posts_of v (udp_events v rs)"
proof (induction rs arbitrary: s)
  case (Cons x rs)
  obtain now r where x: "x = (now, r)" by (cases x)
  have "udp_events v ((now, r) # rs) = udp_events v [(now, r)] @ udp_events v rs"
    by (cases r) simp_all
  with Cons udp_handle_posts [of v now r s] show ?case by (simp add: x split_beta)
qed simp

lemma tcp_first_posts:
  "handle_tcp_first v ch a key frame s = (s', acts, oc) \<Longrightarrow> posts acts = posts_of v (tcp_events v a frame)"
  using posts_helpers(3,4)
  by (auto simp: handle_tcp_first_def tcp_events_def message_events_def split_beta
      split: first_frame.splits option.splits union.splits)

lemma ws_item_flow:
  "fst (handle_ws_item v tx a now key item my_id s) = (if item = WsClose \<or> item = WsError then Break else Continue)"
proof (cases item)
  case (WsBinary bs)
  show ?thesis
  proof (cases "pb_decode v bs")
    case (Some m)
    then show ?thesis
      unfolding WsBinary handle_ws_item_def
      by (cases "msg_union m") (simp_all add: split_beta split: union.split)
  qed (simp add: WsBinary handle_ws_item_def)
qed (simp_all add: handle_ws_item_def)

lemma ws_binary_posts:
  assumes "pb_decode v bs = Some m"
  shows "posts (snd (snd (snd (handle_ws_item v tx a now key (WsBinary bs) my_id s))))
    = posts_of v (message_events v a ''ws'' m)"
  using assms unfolding handle_ws_item_def message_events_def
  by (cases "msg_union m") (simp_all add: split_beta split: union.split)

lemma ws_item_posts:
  assumes "handle_ws_item v tx a now key item my_id s = (fl, my_id', s', acts)"
  shows "posts acts = posts_of v (ws_events v a [(now, key, item)])"
    and "ws_events v a ((now, key, item) # items) =
      ws_events v a [(now, key, item)] @ (if fl = Break then [] else ws_events v a items)"
proof -
  have acts: "acts = snd (snd (snd (handle_ws_item v tx a now key item my_id s)))"
    and fl: "fl = fst (handle_ws_item v tx a now key item my_id s)"
    by (simp_all add: assms)
  show "posts acts = posts_of v (ws_events v a [(now, key, item)])"
  proof (cases item)
    case (WsBinary bs)
    show ?thesis
    proof (cases "pb_decode v bs")
      case (Some m)
      with ws_binary_posts [OF Some] show ?thesis by (simp add: acts WsBinary)
    qed (simp add: acts WsBinary handle_ws_item_def)
  qed (simp_all add: acts handle_ws_item_def)
  show "ws_events v a ((now, key, item) # items) =
      ws_events v a [(now, key, item)] @ (if fl = Break then [] else ws_events v a items)"
    unfolding fl ws_item_flow by (cases item) simp_all
qed

lemma handle_ws_posts:
  "handle_ws v tx a items my_id s = (s', acts) \<Longrightarrow> posts acts = posts_of v (ws_events v a items)"
proof (induction items arbitrary: my_id s acts)
  case (Cons x items)
  obtain now key item where x: "x = (now, key, item)" by (cases x)
  obtain fl my1 s1 a1 where h: "handle_ws_item v tx a now key item my_id s = (fl, my1, s1, a1)"
    by (cases "handle_ws_item v tx a now key item my_id s")
  show ?case
  proof (cases fl)
    case Break
    with Cons.prems h ws_item_posts(1) [OF h] ws_item_posts(2) [OF h, of items]
    show ?thesis by (auto simp: x)
  next
    case Continue
    with Cons.prems h obtain a2 where r: "handle_ws v tx a items my1 s1 = (s', a2)" "acts = a1 @ a2"
      by (auto simp: x split: prod.splits)
    with Cons.IH [OF r(1)] ws_item_posts(1) [OF h] ws_item_posts(2) [OF h, of items] Continue
    show ?thesis by (simp add: x)
  qed
qed simp

text \<open>
  A peer that registers over a WebSocket with \<open>RegisterPk\<close> alone gets its route, but the audit
  log never hears of it.
\<close>

lemma pk_registration_unaudited:
  assumes "pb_decode v bs = Some m" "msg_union m = Some (RegisterPk rk)" "rk_id rk \<noteq> []"
    and "handle_ws_item v tx a now key (WsBinary bs) my_id s = (fl, my_id', s', acts)"
  shows "registry_get (rk_id rk) (peers s') = Some (WsPush tx) \<and> posts acts = []"
  using assms by (auto simp: handle_ws_item_def reg.look_put)

section \<open>Arrival at the control plane\<close>

record link =
  auth_header :: "string \<Rightarrow> bytes"
  body_event :: "string \<Rightarrow> ingest option"
  render_meta :: "(string \<times> string) list \<Rightarrow> ustring"

text \<open>The two ends agree: a posted event is read back field by field, the token is sent as it is.\<close>

definition ingest_of :: "link \<Rightarrow> event \<Rightarrow> ingest" where
  "ingest_of l ev =
     \<lparr>in_kind = utext (ev_kind ev), in_peer = map_option utext (ev_peer_id ev),
      in_controller = map_option utext (ev_controller_peer_id ev),
      in_addr = map_option utext (ev_addr ev), in_meta = map_option (render_meta l) (ev_meta ev)\<rparr>"

definition link_ok :: "link \<Rightarrow> env \<Rightarrow> bool" where
  "link_ok l v \<longleftrightarrow>
     (\<forall>ev body. to_json v ev = Some body \<longrightarrow> body_event l body = Some (ingest_of l ev))
     \<and> (\<forall>t. auth_header l t = bearer_prefix @ map of_char t)"

text \<open>One post arriving, with whether the insert succeeds and the clock.\<close>

definition receive_post :: "link \<Rightarrow> ctl_env \<Rightarrow> (string \<times> string) \<times> bool \<times> int \<Rightarrow> db \<Rightarrow> db" where
  "receive_post l c arrival d =
     (case arrival of ((t, body), ok, now) \<Rightarrow>
        (case body_event l body of
           None \<Rightarrow> d
         | Some ev \<Rightarrow> snd (ingest_audit c ok now (Some (auth_header l t)) ev d)))"

definition receive_posts :: "link \<Rightarrow> ctl_env \<Rightarrow> ((string \<times> string) \<times> bool \<times> int) list \<Rightarrow> db \<Rightarrow> db" where
  "receive_posts l c arrivals d = fold (receive_post l c) arrivals d"

definition logged :: "audit_row \<Rightarrow> ingest" where
  "logged r =
     \<lparr>in_kind = Control.kind r, in_peer = audit_peer r, in_controller = controller_peer r,
      in_addr = Control.addr r, in_meta = meta_json r\<rparr>"

lemma logged_record:
  "audit (audit_record ok now (in_kind ev) (in_peer ev) (in_controller ev) (in_addr ev) (in_meta ev) d)
    = audit d @ (if ok then [\<lparr>audit_id = next_audit_id d, ts = now, kind = in_kind ev, audit_peer = in_peer ev,
         controller_peer = in_controller ev, addr = in_addr ev, meta_json = in_meta ev\<rparr>] else [])"
  by (simp add: audit_record_def)

lemma receive_posts_rows:
  assumes "\<forall>((t, b), _) \<in> set arrivals.
      require_token (to_str c) (Some (auth_header l t)) (token c) = Inr () \<and> body_event l b \<noteq> None"
  shows "\<exists>new. audit (receive_posts l c arrivals d) = audit d @ new
    \<and> map logged new = map (\<lambda>((t, b), _). the (body_event l b)) (filter (\<lambda>(_, ok, _). ok) arrivals)"
  using assms
proof (induction arrivals arbitrary: d)
  case (Cons x arrivals)
  obtain t b ok now where x: "x = ((t, b), ok, now)" by (metis prod.collapse)
  with Cons.prems obtain ev where ev: "body_event l b = Some ev"
    and tok: "require_token (to_str c) (Some (auth_header l t)) (token c) = Inr ()" by auto
  obtain new where new: "audit (receive_posts l c arrivals (receive_post l c x d)) = audit (receive_post l c x d) @ new"
    "map logged new = map (\<lambda>((t, b), _). the (body_event l b)) (filter (\<lambda>(_, ok, _). ok) arrivals)"
    using Cons.IH [of "receive_post l c x d"] Cons.prems by (metis list.set_intros(2))
  let ?row = "\<lparr>audit_id = next_audit_id d, ts = now, kind = in_kind ev, audit_peer = in_peer ev,
     controller_peer = in_controller ev, addr = in_addr ev, meta_json = in_meta ev\<rparr>"
  have "audit (receive_post l c x d) = audit d @ (if ok then [?row] else [])"
    by (simp add: receive_post_def x ev ingest_audit_def tok logged_record)
  moreover have "logged ?row = ev" by (simp add: logged_def)
  ultimately show ?case
    using new by (intro exI [of _ "(if ok then [?row] else []) @ new"]) (simp add: receive_posts_def x ev)
qed (simp add: receive_posts_def)

lemma receive_posts_refused:
  assumes "\<forall>((t, b), _) \<in> set arrivals. require_token (to_str c) (Some (auth_header l t)) (token c) \<noteq> Inr ()"
  shows "receive_posts l c arrivals d = d"
  using assms
proof (induction arrivals arbitrary: d)
  case (Cons x arrivals)
  obtain t b ok now where x: "x = ((t, b), ok, now)" by (metis prod.collapse)
  with Cons.prems have "receive_post l c x d = d"
    by (auto simp: receive_post_def ingest_audit_def split: option.split sum.split)
  with Cons show ?case by (simp add: receive_posts_def)
qed (simp add: receive_posts_def)

lemma posts_of_events:
  assumes "link_ok l v" "env_auditor v = Some inner"
  shows "map (\<lambda>(t, b). the (body_event l b)) (posts_of v evs) = map (ingest_of l) (filter (\<lambda>ev. to_json v ev \<noteq> None) evs)"
    and "(t, b) \<in> set (posts_of v evs) \<Longrightarrow> t = ai_token inner \<and> body_event l b \<noteq> None"
  using assms by (induction evs) (auto simp: post_of_def link_ok_def)

lemma mset_filter_image_subset: "mset (map f (filter P xs)) \<subseteq># mset (map f xs)"
  by (simp add: image_mset_subseteq_mono mset_filter)

text \<open>Of the posts that arrive, each carries the auditor's token and an event that can be read.\<close>

lemma arrivals_from:
  assumes "link_ok l v" "env_auditor v = Some inner" "mset (map fst arrivals) \<subseteq># mset (posts_of v evs)"
    and "((t, b), f) \<in> set arrivals"
  shows "t = ai_token inner \<and> body_event l b \<noteq> None"
proof -
  have "(t, b) \<in># mset (map fst arrivals)" using assms(4) by force
  then have "(t, b) \<in> set (posts_of v evs)" using assms(3) mset_subset_eqD by fastforce
  then show ?thesis using posts_of_events(2) [OF assms(1,2)] by blast
qed

lemma arrived_events:
  assumes "link_ok l v" "env_auditor v = Some inner" "mset (map fst arrivals) \<subseteq># mset (posts_of v evs)"
    and "rows = map (\<lambda>((t, b), f). the (body_event l b)) (filter (\<lambda>(_, ok, _). ok) arrivals)"
  shows "mset rows \<subseteq># mset (map (ingest_of l) evs)"
    and "mset (map fst arrivals) = mset (posts_of v evs) \<Longrightarrow> \<forall>(_, ok, _) \<in> set arrivals. ok \<Longrightarrow>
      \<forall>ev \<in> set evs. to_json v ev \<noteq> None \<Longrightarrow> mset rows = mset (map (ingest_of l) evs)"
proof -
  let ?read = "\<lambda>(t, b). the (body_event l b)" and ?ok = "\<lambda>(_, ok, _). ok"
  have rows: "rows = map (?read \<circ> fst) (filter ?ok arrivals)" by (simp add: assms(4) comp_def split_beta)
  have all: "image_mset ?read (mset (posts_of v evs))
      = mset (map (ingest_of l) (filter (\<lambda>ev. to_json v ev \<noteq> None) evs))"
    using posts_of_events(1) [OF assms(1,2), of evs] by (metis mset_map)
  have map: "mset (map (?read \<circ> fst) arrivals) = image_mset ?read (mset (map fst arrivals))"
    by (simp add: image_mset.compositionality comp_def)
  have "mset rows \<subseteq># mset (map (?read \<circ> fst) arrivals)" unfolding rows by (rule mset_filter_image_subset)
  also have "\<dots> \<subseteq># image_mset ?read (mset (posts_of v evs))"
    unfolding map using assms(3) by (rule image_mset_subseteq_mono)
  also have "\<dots> \<subseteq># mset (map (ingest_of l) evs)" unfolding all by (rule mset_filter_image_subset)
  finally show "mset rows \<subseteq># mset (map (ingest_of l) evs)" .
  assume that: "mset (map fst arrivals) = mset (posts_of v evs)" "\<forall>(_, ok, _) \<in> set arrivals. ok"
    "\<forall>ev \<in> set evs. to_json v ev \<noteq> None"
  have "filter ?ok arrivals = arrivals" using that(2) by (auto simp: filter_id_conv)
  then have "mset rows = image_mset ?read (mset (map fst arrivals))" unfolding rows by (simp only: map)
  moreover have "filter (\<lambda>ev. to_json v ev \<noteq> None) evs = evs" using that(3) by (simp add: filter_id_conv)
  ultimately show "mset rows = mset (map (ingest_of l) evs)" by (simp only: that(1) all)
qed

text \<open>
  C13. The audit log tells what the rendezvous server did. Datagrams over UDP, a WebSocket connection
  and the first message of a TCP connection are handled, and of their posts any part arrives,
  in any order. If the two tokens agree, the new rows are events of these handlers, each
  logged at most once with its own kind, peer and address, nothing else is logged, and when all posts arrive
  and all inserts succeed every event is there. If the tokens differ nothing is logged.
\<close>

theorem rendezvous_events_logged:
  assumes "udp_loop v rs s = (s1, acts1)" "handle_ws v tx a items None s1 = (s2, acts2)"
    and "handle_tcp_first v ch b key frame s2 = (s3, acts3, oc)"
    and "link_ok l v" "env_auditor v = Some inner"
    and "to_str c (auth_header l (ai_token inner)) = Some (auth_header l (ai_token inner))"
    and "mset (map fst arrivals) \<subseteq># mset (posts (acts1 @ acts2 @ acts3))"
    and "evs = udp_events v rs @ ws_events v a items @ tcp_events v b frame"
  shows "if map of_char (ai_token inner) = token c
    then \<exists>new. audit (receive_posts l c arrivals d) = audit d @ new
      \<and> mset (map logged new) \<subseteq># mset (map (ingest_of l) evs)
      \<and> (mset (map fst arrivals) = mset (posts (acts1 @ acts2 @ acts3))
          \<longrightarrow> (\<forall>(_, ok, _) \<in> set arrivals. ok) \<longrightarrow> (\<forall>ev \<in> set evs. to_json v ev \<noteq> None)
          \<longrightarrow> mset (map logged new) = mset (map (ingest_of l) evs))
    else receive_posts l c arrivals d = d"
proof -
  have posts: "posts (acts1 @ acts2 @ acts3) = posts_of v evs"
    using udp_loop_posts [of v rs s] assms(1) handle_ws_posts [OF assms(2)] tcp_first_posts [OF assms(3)]
    by (simp add: assms(8))
  note arrived = assms(4,5) assms(7) [unfolded posts]
  have tok: "require_token (to_str c) (Some (auth_header l (ai_token inner))) (token c) = Inr ()
      \<longleftrightarrow> map of_char (ai_token inner) = token c"
    using assms(4,6) by (auto simp: require_token_iff link_ok_def)
  show ?thesis
  proof (cases "map of_char (ai_token inner) = token c")
    case False
    have "\<forall>((t, b), _) \<in> set arrivals. require_token (to_str c) (Some (auth_header l t)) (token c) \<noteq> Inr ()"
      using arrivals_from [OF arrived] tok False by fastforce
    from receive_posts_refused [OF this] False show ?thesis by simp
  next
    case True
    have "\<forall>((t, b), _) \<in> set arrivals.
        require_token (to_str c) (Some (auth_header l t)) (token c) = Inr () \<and> body_event l b \<noteq> None"
      using arrivals_from [OF arrived] tok True by fastforce
    from receive_posts_rows [OF this, of d] obtain new where
      new: "audit (receive_posts l c arrivals d) = audit d @ new"
      and rows: "map logged new = map (\<lambda>((t, b), f). the (body_event l b)) (filter (\<lambda>(_, ok, _). ok) arrivals)"
      by (auto simp: split_beta)
    from arrived_events [OF arrived rows] new True show ?thesis unfolding posts by simp
  qed
qed

definition demo_event :: event where
  "demo_event = event_of demo_env ''register'' (Some ''p'') demo_addr ''udp''"

definition demo_link :: link where
  "demo_link = \<lparr>auth_header = (\<lambda>t. bearer_prefix @ map of_char t),
     body_event = (\<lambda>_. Some \<lparr>in_kind = utext ''register'', in_peer = Some (utext ''p''), in_controller = None,
       in_addr = Some (utext ''a''), in_meta = Some []\<rparr>),
     render_meta = (\<lambda>_. [])\<rparr>"

definition demo_audited :: env where
  "demo_audited = demo_env\<lparr>to_json := (\<lambda>ev. if ev = demo_event then Some ''e'' else None)\<rparr>"

theorem rendezvous_events_logged_witness:
  "\<exists>new. audit (receive_posts demo_link Control.demo_env [((''t'', ''e''), True, 9)] db_empty) = new
    \<and> map (in_peer \<circ> logged) new = [Some (utext ''p'')]"
proof -
  let ?rs = "[(7, Datagram [1] demo_addr)]"
  obtain s1 acts1 where u: "udp_loop demo_audited ?rs server_new = (s1, acts1)" by fastforce
  have w: "handle_ws demo_audited 5 demo_addr [] None s1 = (s1, [])"
    by (simp add: handle_ws_close_def)
  have t: "handle_tcp_first demo_audited 6 demo_addr None FrameEof s1 = (s1, [], TcpFinished)"
    by (simp add: handle_tcp_first_def)
  have ok: "link_ok demo_link demo_audited"
    by (auto simp: link_ok_def demo_link_def demo_audited_def ingest_of_def demo_event_def event_of_def demo_env_def)
  have aud: "env_auditor demo_audited = Some \<lparr>ai_url = ''u'', ai_token = ''t''\<rparr>"
    by (simp add: demo_audited_def demo_env_def auditor_new_def)
  have hdr: "to_str Control.demo_env (auth_header demo_link (ai_token \<lparr>ai_url = ''u'', ai_token = ''t''\<rparr>))
      = Some (auth_header demo_link (ai_token \<lparr>ai_url = ''u'', ai_token = ''t''\<rparr>))"
    by (simp add: Control.demo_env_def)
  have ev: "event_of demo_audited ''register'' (Some ''p'') demo_addr ''udp'' = demo_event"
    by (simp add: demo_event_def event_of_def demo_audited_def)
  have evs: "udp_events demo_audited ?rs = [demo_event]"
  proof -
    have "pb_decode demo_audited [1] = Some (union_msg (RegisterPeer \<lparr>rp_id = ''p'', rp_serial = 0\<rparr>))"
      using demo_pb(1) by (simp add: demo_audited_def)
    then show ?thesis by (simp add: message_events_def ev flip: demo_event_def)
        (simp add: is_registration_def demo_event_def event_of_def)
  qed
  have j: "to_json demo_audited demo_event = Some ''e''" by (simp add: demo_audited_def)
  have posted: "posts (acts1 @ [] @ []) = [(''t'', ''e'')]"
    using udp_loop_posts [of demo_audited ?rs server_new] u evs j aud by (simp add: post_of_def)
  have sub: "mset (map fst [((''t'', ''e''), True, 9 :: int)]) \<subseteq># mset (posts (acts1 @ [] @ []))"
    unfolding posted by simp
  have tok: "map of_char (ai_token \<lparr>ai_url = ''u'', ai_token = ''t''\<rparr>) = token Control.demo_env"
    by (simp add: Control.demo_env_def)
  have all: "[demo_event] = udp_events demo_audited ?rs @ ws_events demo_audited demo_addr []
      @ tcp_events demo_audited demo_addr FrameEof"
    unfolding evs by (simp add: tcp_events_def)
  from rendezvous_events_logged [OF u w t ok aud hdr sub all, of db_empty] tok
  obtain new where new: "audit (receive_posts demo_link Control.demo_env [((''t'', ''e''), True, 9)] db_empty) = new"
    and "mset (map logged new) = mset (map (ingest_of demo_link) [demo_event])"
    unfolding posted using j by (auto simp: db_empty_def)
  then have "map logged new = [ingest_of demo_link demo_event]"
    by (simp flip: mset_single_iff)
  then have "map in_peer (map logged new) = [Some (utext ''p'')]"
    by (simp add: ingest_of_def demo_event_def event_of_def)
  with new show ?thesis by simp
qed

end
