(* ===== verification/Repository_Tests.thy ===== *)
theory Repository_Tests
  imports Codec Annexb Nv12 Win_Stream
begin

text \<open>
  The unit tests of the repository, carried over assertion by assertion to the model: those of
  \<open>crates/proto/src/codec.rs\<close>, \<open>crates/stream/src/main.rs\<close> and
  \<open>crates/win-capturer/src/encoder.rs\<close>. Each is a Boolean that the model makes true, so that the
  definitions are held against the inputs and outputs the authors wrote down.
\<close>

section \<open>The codec\<close>

text \<open>The payload encoded into an empty buffer, and what one decode gets out of it.\<close>

definition encoded_decoded :: "bytes \<Rightarrow> (io_error + unit) \<times> (io_error + bytes option)" where
  "encoded_decoded payload =
     (let (r, buf) = encode codec_new payload [] in (r, fst (decode codec_new buf)))"

definition test_roundtrip_short :: bool where
  "test_roundtrip_short \<longleftrightarrow>
     encoded_decoded (map of_char ''hello'') = (Inr (), Inr (Some (map of_char ''hello'')))"

definition test_roundtrip_two_byte_header :: bool where
  "test_roundtrip_two_byte_header \<longleftrightarrow>
     encoded_decoded (replicate 200 0xab) = (Inr (), Inr (Some (replicate 200 0xab)))"

definition test_roundtrip_three_byte_header :: bool where
  "test_roundtrip_three_byte_header \<longleftrightarrow>
     (case encoded_decoded (replicate 70000 0xcd) of
        (r, Inr (Some frame)) \<Rightarrow> r = Inr () \<and> length frame = length (replicate 70000 (0xcd :: u8))
      | _ \<Rightarrow> False)"

lemma encoded_decoded_eq:
  "length payload \<le> MAX_PACKET \<Longrightarrow> encoded_decoded payload = (Inr (), Inr (Some payload))"
  using decode_encoded [of codec_new payload "[]"]
  by (simp add: encoded_decoded_def encode_eq codec_new_def)

lemma codec_tests: test_roundtrip_short test_roundtrip_two_byte_header test_roundtrip_three_byte_header
  by (simp_all add: test_roundtrip_short_def test_roundtrip_two_byte_header_def
      test_roundtrip_three_byte_header_def encoded_decoded_eq MAX_PACKET_def del: replicate.simps)

section \<open>The classifier and the warm-up window\<close>

definition stamp :: "bytes \<Rightarrow> bytes" where
  "stamp nal = replicate NAL_TIMESTAMP_PREFIX 0 @ nal"

definition test_classify_hevc :: bool where
  "test_classify_hevc \<longleftrightarrow>
     classify_nal (stamp [0, 0, 0, 1, 0x40, 1]) None = ParamSet Hevc 32
     \<and> classify_nal (stamp [0, 0, 0, 1, 0x42, 1]) (Some Hevc) = ParamSet Hevc 33
     \<and> classify_nal (stamp [0, 0, 0, 1, 0x44, 1]) (Some Hevc) = ParamSet Hevc 34
     \<and> classify_nal (stamp [0, 0, 0, 1, 0x26, 1]) (Some Hevc) = Keyframe
     \<and> classify_nal (stamp [0, 0, 0, 1, 0x02, 1]) (Some Hevc) = Delta"

definition test_classify_h264 :: bool where
  "test_classify_h264 \<longleftrightarrow>
     classify_nal (stamp [0, 0, 0, 1, 0x67, 0x42]) None = ParamSet H264 7
     \<and> classify_nal (stamp [0, 0, 0, 1, 0x68, 0xce]) (Some H264) = ParamSet H264 8
     \<and> classify_nal (stamp [0, 0, 0, 1, 0x65, 0x88]) (Some H264) = Keyframe
     \<and> classify_nal (stamp [0, 0, 0, 1, 0x41, 0x9a]) (Some H264) = Delta"

definition test_classify_discovery :: bool where
  "test_classify_discovery \<longleftrightarrow> classify_nal (stamp [0, 0, 0, 1, 0x65, 0x88]) None = Unknown"

definition test_classify_short_and_garbage :: bool where
  "test_classify_short_and_garbage \<longleftrightarrow>
     classify_nal (stamp [0, 0, 1, 0x40, 1]) None = ParamSet Hevc 32
     \<and> classify_nal (stamp [0xff, 0xee, 0xdd]) None = Unknown
     \<and> classify_nal [0, 0, 0, 0] None = Unknown"

definition test_snapshot_empty :: bool where
  "test_snapshot_empty \<longleftrightarrow>
     snapshot (record_all [stamp [0, 0, 0, 1, 0x40, 1], stamp [0, 0, 0, 1, 0x42, 1],
       stamp [0, 0, 0, 1, 0x02, 1]] warmup_default) = []"

definition test_snapshot_includes :: bool where
  "test_snapshot_includes \<longleftrightarrow>
     (let vps = stamp [0, 0, 0, 1, 0x40, 1]; sps = stamp [0, 0, 0, 1, 0x42, 1];
          pps = stamp [0, 0, 0, 1, 0x44, 1]; idr = stamp [0, 0, 0, 1, 0x26, 1, 0xaa];
          p1 = stamp [0, 0, 0, 1, 0x02, 1, 0xbb]; p2 = stamp [0, 0, 0, 1, 0x02, 1, 0xcc];
          w = record_all [vps, sps, pps] warmup_default
      in fst (record_nal idr w)
         \<and> snapshot (record_all [idr, p1, p2] w) = [vps, sps, pps, idr, p1, p2])"

definition test_drops_prior_idr :: bool where
  "test_drops_prior_idr \<longleftrightarrow>
     (let vps = stamp [0, 0, 0, 1, 0x40, 1]; idr_a = stamp [0, 0, 0, 1, 0x26, 1, 0xaa];
          p_a = stamp [0, 0, 0, 1, 0x02, 1, 0xbb]; idr_b = stamp [0, 0, 0, 1, 0x26, 1, 0xff];
          snap = snapshot (record_all [vps, idr_a, p_a, idr_b] warmup_default)
      in length snap = 2 \<and> snap ! 1 = idr_b)"

text \<open>Seventeen deltas of one megabyte each.\<close>

definition big_delta :: bytes where
  "big_delta = stamp ([0, 0, 0, 1, 0x02] @ replicate (2 ^ 20 - 1) 0)"

definition test_overflow :: bool where
  "test_overflow \<longleftrightarrow>
     snapshot (record_all ([stamp [0, 0, 0, 1, 0x40, 1], stamp [0, 0, 0, 1, 0x26, 1]]
       @ replicate 17 big_delta) warmup_default) = []"

lemma stamp_eq: "stamp nal = replicate 8 0 @ nal"
  by (simp add: stamp_def NAL_TIMESTAMP_PREFIX_def)

lemma classify_stamp [simp]:
  "classify_nal (stamp (0 # 0 # 0 # 1 # b # pay)) (Some c) = classify_known c b"
  "classify_nal (stamp (0 # 0 # 0 # 1 # b # pay)) None = classify_discovery b"
  using classify_framed [of "replicate 8 0" b pay "Some c"] classify_framed [of "replicate 8 0" b pay None]
  by (simp_all add: stamp_eq)

lemma classify_stamp_short:
  "classify_nal (stamp (0 # 0 # 1 # b # pay)) None = classify_discovery b"
  by (simp add: stamp_eq classify_nal_def NAL_TIMESTAMP_PREFIX_def eval_nat_numeral)

lemma hevc_kinds [simp]:
  "classify_known Hevc 0x42 = ParamSet Hevc 33" "classify_known Hevc 0x44 = ParamSet Hevc 34"
  "classify_known Hevc 0x26 = Keyframe" "classify_known Hevc 0x02 = Delta"
  "classify_discovery 0x40 = ParamSet Hevc 32"
  by (simp_all add: classify_eval word_le_nat_alt)

lemma classify_tests: test_classify_hevc test_classify_h264 test_classify_discovery
  by (simp_all add: test_classify_hevc_def test_classify_h264_def test_classify_discovery_def)
    (simp_all add: classify_eval)

lemma classify_short_test: test_classify_short_and_garbage
proof -
  have "classify_nal (stamp [0xff, 0xee, 0xdd]) None = Unknown" "classify_nal [0, 0, 0, 0] None = Unknown"
    by (simp_all add: stamp_eq classify_nal_def NAL_TIMESTAMP_PREFIX_def)
  then show ?thesis by (simp add: test_classify_short_and_garbage_def classify_stamp_short)
qed

lemma length_stamp [simp]: "length (stamp nal) = 8 + length nal"
  by (simp add: stamp_eq)

lemmas run_defs = snapshot_run cache_step_def cache_empty_def replay_def param_types_def
  WARMUP_KEY_MAX_BYTES_def WARMUP_DELTA_MAX_BYTES_def

lemma warmup_tests: test_snapshot_empty test_drops_prior_idr
  by (simp_all add: test_snapshot_empty_def test_drops_prior_idr_def Let_def run_defs del: record_all.simps)

lemma warmup_includes_test: test_snapshot_includes
proof -
  let ?sets = "[stamp [0, 0, 0, 1, 0x40, 1], stamp [0, 0, 0, 1, 0x42, 1], stamp [0, 0, 0, 1, 0x44, 1]]"
  have "win_codec (record_all ?sets warmup_default) = Some Hevc"
    using record_all_abs [OF warmup_wf_default, of ?sets]
    by (simp add: abs_window_default run_defs flip: lock_abs del: record_all.simps)
  then have "fst (record_nal (stamp [0, 0, 0, 1, 0x26, 1, 0xaa]) (record_all ?sets warmup_default))"
    by (subst record_key) simp_all
  then show ?thesis
    unfolding test_snapshot_includes_def Let_def
    by (simp only: record_all_append [symmetric]) (simp add: run_defs del: record_all.simps)
qed

lemma big_delta_kind: "classify_nal big_delta (Some Hevc) = Delta" "length big_delta = 2 ^ 20 + 12"
  by (simp_all add: big_delta_def del: replicate.simps)

text \<open>Fifteen of them fit under the cap of 16 MiB; the next one empties the cache.\<close>

lemma warmup_overflow_test: test_overflow
proof -
  let ?idr = "stamp [0, 0, 0, 1, 0x26, 1]" and ?vps = "stamp [0, 0, 0, 1, 0x40, 1]"
  let ?c = "cache_run [?vps, ?idr] cache_empty"
  have c: "anchor ?c = Some (?idr, [])" "lock ?c = Some Hevc"
    by (simp_all add: run_defs)
  have t: "total (replicate k big_delta) = k * (2 ^ 20 + 12)" for k
    by (induction k) (simp_all add: big_delta_kind)
  have "cache_run (replicate 15 big_delta) ?c = ?c\<lparr>anchor := Some (?idr, [] @ replicate 15 big_delta)\<rparr>"
    using c t [of 15] big_delta_kind(1) by (intro cache_run_deltas) (auto simp: WARMUP_DELTA_MAX_BYTES_def)
  then have full: "cache_run (replicate 15 big_delta) ?c = ?c\<lparr>anchor := Some (?idr, replicate 15 big_delta)\<rparr>"
    by simp
  have over: "cache_step big_delta (?c\<lparr>anchor := Some (?idr, replicate 15 big_delta)\<rparr>) = ?c\<lparr>anchor := None\<rparr>"
    using c t [of 15] big_delta_kind by (simp add: cache_step_def WARMUP_DELTA_MAX_BYTES_def)
  have more: "cache_step big_delta (?c\<lparr>anchor := None\<rparr>) = ?c\<lparr>anchor := None\<rparr>"
    using c big_delta_kind by (simp add: cache_step_def)
  have seventeen: "replicate 17 big_delta = replicate 15 big_delta @ [big_delta, big_delta]"
    by (simp add: replicate_app_Cons_same flip: replicate_add replicate_Suc)
  have two: "cache_run [big_delta, big_delta] (?c\<lparr>anchor := Some (?idr, replicate 15 big_delta)\<rparr>)
      = ?c\<lparr>anchor := None\<rparr>"
    by (simp only: cache_run.simps(2)[of big_delta] cache_run.simps(1) over more)
  have "cache_run ([?vps, ?idr] @ replicate 17 big_delta) cache_empty = ?c\<lparr>anchor := None\<rparr>"
    by (simp only: cache_run_append seventeen full two)
  then show ?thesis by (simp add: test_overflow_def snapshot_run replay_def del: record_all.simps)
qed

section \<open>The bitstream splitter and the pixel conversion\<close>

definition test_avcc_two_nals :: bool where
  "test_avcc_two_nals \<longleftrightarrow>
     avcc_to_annexb [0, 0, 0, 3, 0xaa, 0xbb, 0xcc, 0, 0, 0, 3, 0xdd, 0xee, 0xff]
       = [[0, 0, 0, 1, 0xaa, 0xbb, 0xcc], [0, 0, 0, 1, 0xdd, 0xee, 0xff]]"

definition test_avcc_truncated :: bool where
  "test_avcc_truncated \<longleftrightarrow> avcc_to_annexb [0, 0, 0, 5, 0xaa, 0xbb] = []"

definition test_annexb_split :: bool where
  "test_annexb_split \<longleftrightarrow>
     avcc_to_annexb [0, 0, 0, 1, 0x67, 0x42, 0xc0, 0x1e, 0, 0, 0, 1, 0x68, 0xce, 0x38, 0x80,
         0, 0, 0, 1, 0x65, 0x88, 0x80, 0, 0]
       = [[0, 0, 0, 1, 0x67, 0x42, 0xc0, 0x1e], [0, 0, 0, 1, 0x68, 0xce, 0x38, 0x80],
          [0, 0, 0, 1, 0x65, 0x88, 0x80, 0, 0]]"

definition test_annexb_three_byte :: bool where
  "test_annexb_three_byte \<longleftrightarrow>
     avcc_to_annexb [0, 0, 1, 0x09, 0x10, 0, 0, 0, 1, 0x67, 0x42, 0xc0, 0x1e]
       = [[0, 0, 0, 1, 0x09, 0x10], [0, 0, 0, 1, 0x67, 0x42, 0xc0, 0x1e]]"

definition test_pure_white :: bool where
  "test_pure_white \<longleftrightarrow>
     (case bgra_to_nv12 (replicate (2 * 2 * 4) 0xff) 2 2 (replicate (2 * 2 + 2) 0) of
        None \<Rightarrow> False
      | Some dst \<Rightarrow> (\<forall>y \<in> set (take 4 dst). 230 \<le> uint y \<and> uint y \<le> 240)
          \<and> \<bar>uint (dst ! 4) - 128\<bar> \<le> 2 \<and> \<bar>uint (dst ! 5) - 128\<bar> \<le> 2)"

definition test_pure_black :: bool where
  "test_pure_black \<longleftrightarrow>
     (case bgra_to_nv12 (replicate (2 * 2 * 4) 0) 2 2 (replicate (2 * 2 + 2) 0) of
        None \<Rightarrow> False
      | Some dst \<Rightarrow> \<forall>y \<in> set (take 4 dst). uint y \<le> 18)"

lemma avcc_tests: test_avcc_two_nals test_avcc_truncated
  by (simp_all add: test_avcc_two_nals_def test_avcc_truncated_def avcc_to_annexb_def is_annexb_def
      avcc_loop.simps be32_def start_code_def)

lemma annexb_tests: test_annexb_split test_annexb_three_byte
  by (simp_all add: test_annexb_split_def test_annexb_three_byte_def avcc_to_annexb_def is_annexb_def
      annexb_split_def scan.simps cut_one_def start_code_def Let_def)

lemma white_test: test_pure_white
proof -
  have "bgra_to_nv12 (replicate 16 0xff) 2 2 (replicate 6 0) = Some [235, 235, 235, 235, 128, 128]"
    using bgra_to_nv12_eq [of 2 2 "replicate 16 0xff" "replicate 6 0"] by (simp add: demo_nv12 del: replicate.simps)
  then show ?thesis by (simp add: test_pure_white_def del: replicate.simps)
qed

lemma black_test: test_pure_black
proof -
  let ?src = "replicate 16 0 :: bytes"
  have "channel ?src c p = 0" if "4 * p + c < 16" for c p
    using that by (simp add: channel_def del: replicate.simps)
  then have "luma_at ?src p = 16" if "p < 4" for p
    using that by (simp add: luma_at_def luma_def clamp_u8_def)
  then have "take 4 (nv12_of ?src 2 2) = [16, 16, 16, 16]"
    by (simp add: nv12_of_def upt_rec del: replicate.simps)
  moreover have "bgra_to_nv12 ?src 2 2 (replicate 6 0) = Some (nv12_of ?src 2 2)"
    by (rule bgra_to_nv12_eq) simp_all
  ultimately show ?thesis by (simp add: test_pure_black_def del: replicate.simps)
qed

text \<open>All of them.\<close>

theorem repository_tests_pass:
  "test_roundtrip_short \<and> test_roundtrip_two_byte_header \<and> test_roundtrip_three_byte_header
    \<and> test_classify_hevc \<and> test_classify_h264 \<and> test_classify_discovery \<and> test_classify_short_and_garbage
    \<and> test_snapshot_empty \<and> test_snapshot_includes \<and> test_drops_prior_idr \<and> test_overflow
    \<and> test_avcc_two_nals \<and> test_avcc_truncated \<and> test_annexb_split \<and> test_annexb_three_byte
    \<and> test_pure_white \<and> test_pure_black"
  by (intro conjI codec_tests classify_tests classify_short_test warmup_tests warmup_includes_test
      warmup_overflow_test avcc_tests annexb_tests white_test black_test)

end
