(* ===== verification/Spec2Isabelle.thy ===== *)
theory Spec2Isabelle
  imports Codec Registry Rendezvous Rendezvous_System Startup Relay Relay_Arrivals Relay_Pumps Warmup Rooms Annexb Win_Stream
    Nv12 Encoder Publisher Mac_Capturer Mac_Displays Mac_Session Mac_Build Proto_Build Capturer Pipeline Stream_Server Control
    Control_Server Audit_Trail Repository_Tests
begin

text \<open>
  Verification of xyzen-relay, the services by which a viewer reaches a remote screen: a rendezvous
  server that knows where peers are, a relay that joins two connections, a stream server that
  fans a publisher's video out to viewers, the capturers that produce the video, and an HTTP
  control plane that hands out peer ids. All of it is Rust but the macOS capturer's Swift class.

  How the parts interact. A peer registers with the rendezvous server over UDP or a WebSocket
  (messages framed by the codec over TCP); a requester asks it for a target, the server notifies
  the target and, on its acknowledgement, answers the requester with a relay address; the relay
  joins the next two connections that reach it, of either transport. A capturer encodes the
  screen, splits the encoder's samples into NALs, stamps each with the time, and publishes one
  NAL per binary frame into a room of the stream server, which classifies it, keeps what a late
  viewer needs, and broadcasts it. Rendezvous events are posted to the control plane's audit log.

  Theories and what they model, in the order of the dependencies:

  \<^item> \<open>Relay_Prelude\<close>: widths, bytes, strings and decimal numerals, the panicking loop, and the
    locales the components share: \<open>event_system\<close> and \<open>event_refinement\<close> (an invariant, and a
    refinement, carried over a sequence of events; interpreted for the warm-up window, the
    Windows publisher and the macOS capturer), \<open>step_system\<close> and \<open>safe_system\<close> (the reachable states of a step relation
    and an invariant of them; interpreted for the rendezvous system, the relay, the relay without
    overlap (twice), the stream rooms, the capturer's bridge and the control plane).
  \<^item> \<open>Codec\<close>: \<open>crates/proto/src/codec.rs\<close>, the length-prefixed framing with its one to four byte
    header; round trip over any chunking, bounds, every branch of the encoder.
  \<^item> \<open>Messages\<close>: \<open>rendezvous.proto\<close> as records and datatypes. The protobuf wire format is
    generated code: encoder and decoder are parameters where bytes are needed.
  \<^item> \<open>Registry\<close>: \<open>crates/rendezvous/src/registry.rs\<close> behind the locale \<open>peer_directory\<close>, whose laws the
    interpretation \<open>reg\<close> discharges for the code's operations and on which \<open>Rendezvous\<close> relies.
  \<^item> \<open>Rendezvous\<close>: \<open>server.rs\<close> and \<open>audit.rs\<close>, each handler as a function of the shared maps,
    with the effects it produces in order, one connection at a time. \<open>Rendezvous_System\<close> cuts the
    handlers at their locks and sends and runs them concurrently.
  \<^item> \<open>Sockets\<close>: how every \<open>main\<close> binds its ports. \<open>Startup\<close>: \<open>main\<close> and \<open>run\<close> of the rendezvous server,
    its three loops under \<open>try_join!\<close> until one of them ends, and \<open>main\<close> of the relay.
  \<^item> \<open>Relay\<close>: \<open>crates/relay/src/main.rs\<close>, the two acceptors with accept errors and the WebSocket
    handshake, and pairing with its two lock sections as steps. \<open>Relay_Arrivals\<close>: who is joined with
    whom, by the order of arrival alone. \<open>Relay_Pumps\<close>: the pumps, each as two
    loops that share nothing and are joined by \<open>try_join!\<close>; the locale \<open>pump_loop\<close> states what a loop
    makes of one result at a time, and is interpreted for the three loops.
  \<^item> \<open>Warmup\<close>: \<open>classify_nal\<close> and \<open>WarmupWindow\<close> of \<open>crates/stream/src/main.rs\<close>, refined from an
    abstract cache; \<open>Rooms\<close>: rooms, publishers and viewers of the same file, interleaved;
    \<open>Stream_Server\<close>: \<open>main\<close>, the routes and the two endpoints, and the capturer's start up to the
    address it publishes to.
  \<^item> \<open>Annexb\<close>, \<open>Nv12\<close>, \<open>Encoder\<close>: \<open>crates/win-capturer/src/encoder.rs\<close>, the bitstream splitting
    and stamping, the pixel conversion, and the encoder around MediaFoundation; \<open>Win_Stream\<close>: its
    frames in the stream server's cache.
  \<^item> \<open>Publisher\<close>: \<open>publisher.rs\<close> and \<open>display.rs\<close> of the same crate, \<open>start\<close>, \<open>stop\<close>, the setters and
    getters, the capture thread and the frame handler, cut at every access to what they share and
    run under every interleaving.
  \<^item> \<open>Mac_Capturer\<close>: \<open>crates/mac-capturer/src/lib.rs\<close> over the C functions of \<open>MacCapturer.swift\<close>, and the
    framing of a sample there; \<open>Mac_Displays\<close>: the display list as JSON, from Swift to Rust;
    \<open>Mac_Session\<close>: the Swift class call by call, with the properties of its encoder and the configuration
    of its stream, which refines \<open>Mac_Capturer\<close> (interpretation \<open>mac\<close> of \<open>event_refinement\<close>), and its frame handler;
    \<open>Mac_Build\<close>: \<open>build.rs\<close>.
  \<^item> \<open>Proto_Build\<close>: the build script of \<open>crates/proto\<close>.
  \<^item> \<open>Capturer\<close>: \<open>crates/capturer/src/main.rs\<close>, the bridge from the native capturer's unbounded
    channel, which is never closed, through a thread and a bounded channel to the WebSocket.
  \<^item> \<open>Pipeline\<close>: the composition of \<open>Mac_Session\<close>, \<open>Capturer\<close>, \<open>Warmup\<close> and \<open>Rooms\<close>, from the frames
    a capturer is given to the bytes on a viewer's socket.
  \<^item> \<open>Control\<close>: \<open>http.rs\<close>, \<open>ids.rs\<close> and \<open>audit.rs\<close> of \<open>crates/control\<close> over the tables of
    \<open>0001_init.sql\<close>, requests interleaved at their database calls; \<open>Control_Server\<close>: the start with
    \<open>db.rs\<close>, the route table and what a request goes through before its handler, with the locale
    \<open>guarded\<close> interpreted for the four endpoints behind the token.
  \<^item> \<open>Audit_Trail\<close>: the events of \<open>Rendezvous\<close> as they arrive in the tables of \<open>Control\<close>.
  \<^item> \<open>Repository_Tests\<close>: the unit tests of the repository, assertion by assertion, on the model.

  What the lemmas show. For each component a well-formedness invariant and its preservation, then
  the properties, which come in four groups: functional behaviour and round trips (codec,
  splitting, conversion, replay, listing); invariants under every interleaving (nobody is
  answered twice, no connection is lost or duplicated, a viewer misses no frame, one publisher
  at a time, one peer id per user); termination and bounds (buffers, cache, id allocation,
  stopping the capture); and the scenarios in which the code does not do what it means to,
  proved as reachable. The latter are stated of the code as it is, with the race, the
  input or the order of events that leads there.

  Bounds and fuel. There is no fuel: loops are structural recursions, or functions with a
  termination proof (the start-code scan, the AVCC loop, the decoder). A loop that waits on the
  outside (a transform that never runs out of output) is given its sequence of answers, and an
  answer that never comes is a result of its own. Machine integers keep their width where
  wrapping or sign matters (bitstream headers, frame sizes, the packed resolution), with
  saturation written out; counters that cannot reach their bound are naturals.

  Parameters. Protobuf encoding and decoding; what sockets deliver and when they fail, and which
  ports can be bound; the choice of an endpoint and the extraction of its arguments by axum; the
  serialisation by serde and what reqwest delivers; tokio's broadcast channel by its documented
  contract (a lagging receiver skips to the oldest kept message), and the results of its
  bidirectional copy; MediaFoundation, windows-capture, ScreenCaptureKit and VideoToolbox as
  results of their calls; SQLite as the two tables, any query of which may fail; the exit status of
  \<open>swiftc\<close>; clocks and random bytes.

  Not modelled. The parsing of arguments by clap, whose result is where the models of the \<open>main\<close>
  functions begin; logging and the capturer's throughput log. Code generated by prost. The
  debugging example of the macOS capturer, which does not compile. What a program does after it
  has written past the end of a buffer (\<open>Overrun\<close>): the model stops there. What happens inside Apple's
  frameworks: a late or refused call is an answer of its own. Calls into the macOS capturer
  that overlap in time with each other or with a frame: they are taken one after the other. The browser test page and the scripts.
\<close>

end
